(* ===== verification/Prelude.thy ===== *)
theory Prelude
  imports Main "HOL-Library.Word"
begin

text \<open>
  Shared ground of the development: Rust's machine integers and byte strings, its
  \<open>Result\<close> and \<open>Option\<close> idioms as sums and options, the checked and the slicing
  operations of the standard library that several components call, and the list facts
  the component proofs share.  A \<open>Result<T, E>\<close> is \<open>E + T\<close> with \<open>Inl\<close> for \<open>Err\<close>;
  a \<open>usize\<close> is a \<open>nat\<close> below \<open>2 ^ 64\<close> (the 64-bit targets the program is built for).
\<close>

section \<open>Types\<close>

type_synonym byte = "8 word"
type_synonym bytes = "byte list"
type_synonym u32 = "32 word"
type_synonym u64 = "64 word"

named_theorems slice_simps \<open>taking windows of concatenations\<close>
named_theorems result_simps \<open>unfolding the error-propagation operators\<close>

named_theorems byte_eval \<open>evaluating byte encodings of numerals\<close>

section \<open>Results and options\<close>

text \<open>Rust's \<open>?\<close>: the first error ends the function.\<close>

definition rbind :: "'e + 'a \<Rightarrow> ('a \<Rightarrow> 'e + 'b) \<Rightarrow> 'e + 'b" where
  "rbind r f = (case r of Inl e \<Rightarrow> Inl e | Inr x \<Rightarrow> f x)"

text \<open>\<open>Option::ok_or\<close> and \<open>Result::map_err\<close>.\<close>

definition ok_or :: "'e \<Rightarrow> 'a option \<Rightarrow> 'e + 'a" where
  "ok_or e x = (case x of None \<Rightarrow> Inl e | Some a \<Rightarrow> Inr a)"

definition map_err :: "('e \<Rightarrow> 'f) \<Rightarrow> 'e + 'a \<Rightarrow> 'f + 'a" where
  "map_err g r = (case r of Inl e \<Rightarrow> Inl (g e) | Inr x \<Rightarrow> Inr x)"

text \<open>A check that continues with \<open>()\<close> or ends the function.\<close>

definition ensure :: "bool \<Rightarrow> 'e \<Rightarrow> 'e + unit" where
  "ensure b e = (if b then Inr () else Inl e)"

section \<open>Machine integers\<close>

definition usize_limit :: nat where
  "usize_limit = 2 ^ 64"

definition checked_add_usize :: "nat \<Rightarrow> nat \<Rightarrow> nat option" where
  "checked_add_usize a b = (if a + b < usize_limit then Some (a + b) else None)"

definition u32_try_from :: "nat \<Rightarrow> u32 option" where
  "u32_try_from n = (if n < 2 ^ 32 then Some (of_nat n) else None)"

section \<open>Slices\<close>

text \<open>\<open>bytes.get(a..)\<close>, \<open>bytes.get(a..b)\<close> and \<open>slice.first_chunk::<n>()\<close>.\<close>

definition get_from :: "'a list \<Rightarrow> nat \<Rightarrow> 'a list option" where
  "get_from xs a = (if a \<le> length xs then Some (drop a xs) else None)"

definition get_range :: "'a list \<Rightarrow> nat \<Rightarrow> nat \<Rightarrow> 'a list option" where
  "get_range xs a b = (if a \<le> b \<and> b \<le> length xs then Some (take (b - a) (drop a xs)) else None)"

definition first_chunk :: "nat \<Rightarrow> 'a list \<Rightarrow> 'a list option" where
  "first_chunk n xs = (if n \<le> length xs then Some (take n xs) else None)"

section \<open>Facts\<close>

lemma rbind_simps [simp, result_simps]:
  "rbind (Inl e) f = Inl e"
  "rbind (Inr x) f = f x"
  by (simp_all add: rbind_def)

lemma rbind_eq_Inr [result_simps]: "rbind r f = Inr y \<longleftrightarrow> (\<exists>x. r = Inr x \<and> f x = Inr y)"
  by (cases r) auto

lemma rbind_eq_Inl [result_simps]:
  "rbind r f = Inl e \<longleftrightarrow> r = Inl e \<or> (\<exists>x. r = Inr x \<and> f x = Inl e)"
  by (cases r) auto

lemma ok_or_simps [simp, result_simps]:
  "ok_or e None = Inl e"
  "ok_or e (Some a) = Inr a"
  by (simp_all add: ok_or_def)

lemma ok_or_eq_Inr [simp]: "ok_or e x = Inr a \<longleftrightarrow> x = Some a"
  by (cases x) auto

lemma ok_or_eq_Inl [simp]: "ok_or e x = Inl e' \<longleftrightarrow> x = None \<and> e' = e"
  by (cases x) auto

lemma map_err_simps [simp, result_simps]:
  "map_err g (Inl e) = Inl (g e)"
  "map_err g (Inr x) = Inr x"
  by (simp_all add: map_err_def)

lemma map_err_eq_Inr [simp]: "map_err g r = Inr x \<longleftrightarrow> r = Inr x"
  by (cases r) auto

lemma ensure_eq_Inr [simp]: "ensure b e = Inr u \<longleftrightarrow> b"
  by (simp add: ensure_def)

lemma ensure_eq_Inl [simp]: "ensure b e = Inl e' \<longleftrightarrow> \<not> b \<and> e' = e"
  by (auto simp: ensure_def)

lemma rbind_ensure: "rbind (ensure b e) f = (if b then f () else Inl e)"
  by (simp add: ensure_def)

lemma u32_try_from_Some: "u32_try_from n = Some w \<longleftrightarrow> n < 2 ^ 32 \<and> n = unat w"
  using unsigned_less [of w] by (auto simp: u32_try_from_def unat_of_nat)

lemma u32_lt: "unat (w :: u32) < 4294967296"
  using unsigned_less [of w] by simp

lemma u64_lt: "unat (w :: u64) < 18446744073709551616"
  using unsigned_less [of w] by simp

lemma take_append_exact [slice_simps]: "length xs = n \<Longrightarrow> take n (xs @ ys) = xs"
  by simp

lemma drop_append_exact [slice_simps]: "length xs = n \<Longrightarrow> drop n (xs @ ys) = ys"
  by simp

lemma first_chunk_length: "first_chunk n xs = Some ys \<Longrightarrow> length ys = n"
  by (auto simp: first_chunk_def split: if_splits)

lemma get_range_length: "get_range xs a b = Some ys \<Longrightarrow> length ys = b - a"
  by (auto simp: get_range_def split: if_splits)

lemma cut_at:
  assumes "n \<le> length xs"
  obtains ys zs where "xs = ys @ zs" and "length ys = n"
  using assms by (metis append_take_drop_id length_take min.absorb2)

lemma cut_front:
  assumes "length xs = n + m"
  obtains ys zs where "xs = ys @ zs" and "length ys = n" and "length zs = m"
proof
  show "xs = take n xs @ drop n xs" by simp
  show "length (take n xs) = n" "length (drop n xs) = m" using assms by simp_all
qed

lemma replicate_numeral [byte_eval]: "replicate (numeral k) x = x # replicate (pred_numeral k) x"
  by (simp only: numeral_eq_Suc replicate.simps)

text \<open>Cutting a list at increasing places and gluing the pieces gives the list back.\<close>

lemma take_drop_glue: "a \<le> b \<Longrightarrow> take a xs @ take (b - a) (drop a xs) = take b xs"
  by (metis le_add_diff_inverse take_add)

lemma same_below: "(\<And>i. i < x \<longleftrightarrow> i < y) \<Longrightarrow> x = (y :: nat)"
  by (metis nat_neq_iff)

text \<open>Cutting a list into windows of a fixed size.\<close>

definition window :: "nat \<Rightarrow> 'a list \<Rightarrow> nat \<Rightarrow> 'a list" where
  "window c xs i = take c (drop (i * c) xs)"

lemma concat_windows: "concat (map (window c xs) [0..<n]) = take (n * c) xs"
proof (induction n)
  case 0
  then show ?case by simp
next
  case (Suc n)
  then show ?case by (simp add: window_def take_add add.commute [of c])
qed

lemma length_window: "length (window c xs i) = min c (length xs - i * c)"
  by (simp add: window_def)

text \<open>Division rounding up: the number of windows.\<close>

definition ceil_div :: "nat \<Rightarrow> nat \<Rightarrow> nat" where
  "ceil_div a b = (a + b - 1) div b"

lemma ceil_div_less_iff: "0 < b \<Longrightarrow> i < ceil_div a b \<longleftrightarrow> i * b < a"
proof -
  assume b: "0 < b"
  have "i < ceil_div a b \<longleftrightarrow> Suc i \<le> (a + b - 1) div b" by (simp add: ceil_div_def Suc_le_eq)
  also have "\<dots> \<longleftrightarrow> Suc i * b \<le> a + b - 1" using b by (rule less_eq_div_iff_mult_less_eq)
  also have "\<dots> \<longleftrightarrow> i * b < a" using b by auto
  finally show ?thesis .
qed

lemma le_ceil_div_mult: "0 < b \<Longrightarrow> a \<le> ceil_div a b * b"
  using ceil_div_less_iff [of b "ceil_div a b" a] by simp

lemma ceil_div_alt: "0 < b \<Longrightarrow> ceil_div a b = (if a mod b = 0 then a div b else a div b + 1)"
proof -
  assume b: "0 < b"
  have "i < ceil_div a b \<longleftrightarrow> i < (if a mod b = 0 then a div b else a div b + 1)" for i
  proof (cases "a mod b = 0")
    case True
    then have a: "a div b * b = a" by auto
    have "i < a div b \<longleftrightarrow> i * b < a div b * b" using b by simp
    then have "i * b < a \<longleftrightarrow> i < a div b" by (simp only: a)
    with True show ?thesis by (simp add: ceil_div_less_iff [OF b])
  next
    case False
    have "i \<le> a div b \<longleftrightarrow> i * b \<le> a" using b by (rule less_eq_div_iff_mult_less_eq)
    moreover have "i * b \<noteq> a" using False by auto
    ultimately have "i * b < a \<longleftrightarrow> i < a div b + 1" by linarith
    with False show ?thesis by (simp add: ceil_div_less_iff [OF b])
  qed
  then show ?thesis by (rule same_below)
qed

lemma window_nonempty: "0 < c \<Longrightarrow> i * c < length xs \<Longrightarrow> window c xs i \<noteq> []"
  by (simp add: window_def)

lemma window_bound: "length (window c xs i) \<le> c"
  by (simp add: window_def)

lemma window_append: "(i + 1) * c \<le> length xs \<Longrightarrow> window c (xs @ ys) i = window c xs i"
  by (simp add: window_def)

lemma window_take: "(i + 1) * c \<le> n \<Longrightarrow> window c (take n xs) i = window c xs i"
  by (simp add: window_def drop_take min_def add.commute le_diff_conv2)

lemma window_full: "(i + 1) * c \<le> length xs \<Longrightarrow> length (window c xs i) = c"
  by (simp add: window_def)

lemma below_ceil_div: "0 < c \<Longrightarrow> n \<le> ceil_div m c \<Longrightarrow> i < n \<Longrightarrow> i * c < m"
  using ceil_div_less_iff [of c i m] by simp

lemma full_windows: "0 < (c::nat) \<Longrightarrow> n * c \<le> m \<Longrightarrow> n \<le> ceil_div m c"
proof -
  assume c: "0 < c" and n: "n * c \<le> m"
  have "m \<le> ceil_div m c * c" using c by (rule le_ceil_div_mult)
  with n have "n * c \<le> ceil_div m c * c" by linarith
  with c show ?thesis by simp
qed

lemma ceil_div_between: "n * c < m \<Longrightarrow> m \<le> n * c + c \<Longrightarrow> ceil_div m c = Suc n" for c :: nat
proof (rule same_below)
  fix i
  assume m: "n * c < m" "m \<le> n * c + c"
  then have c: "0 < c" by (cases c) auto
  have "i * c < m \<longleftrightarrow> i \<le> n"
  proof
    assume "i * c < m"
    with m(2) have "i * c < Suc n * c" by simp
    then have "i < Suc n" by (simp only: mult_less_cancel2)
    then show "i \<le> n" by simp
  next
    assume "i \<le> n"
    then have "i * c \<le> n * c" by (rule mult_le_mono1)
    with m(1) show "i * c < m" by linarith
  qed
  with c show "i < ceil_div m c \<longleftrightarrow> i < Suc n" by (simp add: ceil_div_less_iff less_Suc_eq_le)
qed

lemma ceil_div_exact: "0 < c \<Longrightarrow> ceil_div (n * c) c = n"
  by (simp add: ceil_div_alt)

lemma window_slice:
  "take k (drop (p mod c) (window c xs (p div c))) = take (min k (c - p mod c)) (drop p xs)"
proof -
  have "p div c * c + p mod c = p" by simp
  then show ?thesis by (simp add: window_def drop_take min.commute add.commute)
qed

lemma take_window: "take (n * c) xs @ window c xs n = take (Suc n * c) xs"
  by (simp add: window_def take_add add.commute [of c])

text \<open>The elements from one position up to another.\<close>

definition cut_out :: "'a list \<Rightarrow> nat \<Rightarrow> nat \<Rightarrow> 'a list" where
  "cut_out xs a b = take (b - a) (drop a xs)"

lemma cut_out_append: "a \<le> b \<Longrightarrow> b \<le> c \<Longrightarrow> cut_out xs a b @ cut_out xs b c = cut_out xs a c"
proof -
  assume "a \<le> b" "b \<le> c"
  then have "c - a = (b - a) + (c - b)" "drop b xs = drop (b - a) (drop a xs)" by simp_all
  then show ?thesis unfolding cut_out_def by (simp only: take_add)
qed

lemma cut_out_empty: "b \<le> a \<Longrightarrow> cut_out xs a b = []"
  by (simp add: cut_out_def)

lemma window_range:
  assumes "p < (i + 1) * c" "p \<le> e" "i * c < e" "e \<le> length xs"
  shows "get_range (window c xs i) (p - i * c) (min (e - i * c) (length (window c xs i)))
    = Some (cut_out xs (max p (i * c)) (min e ((i + 1) * c)))"
proof -
  let ?from = "p - i * c" and ?to = "min (e - i * c) (length (window c xs i))"
  have to: "?to = min (e - i * c) c" using assms(4) by (simp add: length_window)
  have "?from \<le> ?to" using assms by (auto simp: to)
  moreover have "take (?to - ?from) (drop ?from (window c xs i)) = cut_out xs (max p (i * c)) (min e ((i + 1) * c))"
  proof -
    have "drop ?from (window c xs i) = take (c - ?from) (drop (max p (i * c)) xs)"
      by (simp add: window_def drop_take max_def add.commute)
    moreover have "min (?to - ?from) (c - ?from) = min e ((i + 1) * c) - max p (i * c)"
      unfolding to using assms(1-3) by (auto simp: min_def max_def)
    ultimately show ?thesis by (simp add: cut_out_def)
  qed
  ultimately show ?thesis by (simp add: get_range_def)
qed

lemma next_multiple: "0 < c \<Longrightarrow> p < (p div c + 1) * c" for c :: nat
proof -
  assume "0 < c"
  then have "p mod c < c" by simp
  moreover have "p div c * c + p mod c = p" by simp
  ultimately show ?thesis unfolding add_mult_distrib by linarith
qed

text \<open>Widening and narrowing casts between \<open>u32\<close> and \<open>u64\<close>.\<close>

lemma unat_widen [simp]: "unat (ucast (w :: u32) :: u64) = unat w"
proof -
  have "unat w < 2 ^ 64" by (rule order_less_trans [OF u32_lt]) simp
  then show ?thesis by (simp add: unsigned_ucast_eq take_bit_nat_eq_self del: unsigned_less)
qed

lemma unat_narrow: "unat (ucast (w :: u64) :: u32) = unat w mod 2 ^ 32"
  by (simp add: unsigned_ucast_eq take_bit_eq_mod)

lemma unat_u64_mult_u32: "unat ((ucast (a :: u32) :: u64) * ucast (b :: u32)) = unat a * unat b"
proof -
  have "unat a * unat b < 2 ^ 32 * 2 ^ 32"
    using u32_lt [of a] u32_lt [of b] by (intro mult_strict_mono) auto
  then show ?thesis by (simp add: unat_word_ariths)
qed

end
