(* ===== verification/Bytes_Codec.thy ===== *)
theory Bytes_Codec
  imports Prelude
begin

text \<open>
  Fixed-width integers as byte strings: \<open>to_be_bytes\<close>/\<open>from_be_bytes\<close> (the wire) and
  \<open>to_le_bytes\<close>/\<open>from_le_bytes\<close> (the files on disk), with the contract every fixed-width
  field shares stated as a locale.
\<close>

section \<open>Digits base 256\<close>

fun le_digits :: "nat \<Rightarrow> nat \<Rightarrow> bytes" where
  "le_digits 0 n = []"
| "le_digits (Suc k) n = of_nat n # le_digits k (n div 256)"

fun le_value :: "bytes \<Rightarrow> nat" where
  "le_value [] = 0"
| "le_value (b # bs) = unat b + 256 * le_value bs"

section \<open>The four encodings of the source\<close>

definition u32_to_be :: "u32 \<Rightarrow> bytes" where
  "u32_to_be w = rev (le_digits 4 (unat w))"

definition u32_from_be :: "bytes \<Rightarrow> u32" where
  "u32_from_be bs = of_nat (le_value (rev bs))"

definition u64_to_be :: "u64 \<Rightarrow> bytes" where
  "u64_to_be w = rev (le_digits 8 (unat w))"

definition u64_from_be :: "bytes \<Rightarrow> u64" where
  "u64_from_be bs = of_nat (le_value (rev bs))"

definition u32_to_le :: "u32 \<Rightarrow> bytes" where
  "u32_to_le w = le_digits 4 (unat w)"

definition u32_from_le :: "bytes \<Rightarrow> u32" where
  "u32_from_le bs = of_nat (le_value bs)"

definition u64_to_le :: "u64 \<Rightarrow> bytes" where
  "u64_to_le w = le_digits 8 (unat w)"

definition u64_from_le :: "bytes \<Rightarrow> u64" where
  "u64_from_le bs = of_nat (le_value bs)"

section \<open>The contract of a fixed-width field\<close>

locale fixed_field =
  fixes enc :: "'a \<Rightarrow> bytes"
    and dec :: "bytes \<Rightarrow> 'a"
    and width :: nat
  assumes length_enc: "length (enc x) = width"
    and dec_enc: "dec (enc x) = x"
    and enc_dec: "length bs = width \<Longrightarrow> enc (dec bs) = bs"
begin

lemma enc_inject: "enc x = enc y \<longleftrightarrow> x = y"
  by (metis dec_enc)

lemma dec_inject: "length bs = width \<Longrightarrow> length cs = width \<Longrightarrow> dec bs = dec cs \<longleftrightarrow> bs = cs"
  by (metis enc_dec)

lemma take_enc: "take width (enc x @ ys) = enc x"
  by (simp add: length_enc)

lemma drop_enc: "drop width (enc x @ ys) = ys"
  by (simp add: length_enc)

lemma enc_append_inject: "enc x @ ys = enc y @ zs \<longleftrightarrow> x = y \<and> ys = zs"
  by (auto simp: length_enc append_eq_append_conv enc_inject)

end

text \<open>
  The same contract for a decoder that refuses some byte strings: it accepts exactly the
  encodings, so decoding is injective and every accepted string is the canonical one.
\<close>

locale strict_codec =
  fixes sc_enc :: "'a \<Rightarrow> bytes"
    and sc_dec :: "bytes \<Rightarrow> 'a option"
  assumes sc_dec_enc: "sc_dec (sc_enc x) = Some x"
    and sc_dec_sound: "sc_dec bs = Some x \<Longrightarrow> sc_enc x = bs"
begin

lemma sc_accepts_iff: "sc_dec bs = Some x \<longleftrightarrow> bs = sc_enc x"
  using sc_dec_enc sc_dec_sound by blast

lemma sc_refuses_iff: "sc_dec bs = None \<longleftrightarrow> (\<forall>x. bs \<noteq> sc_enc x)"
  by (metis not_None_eq sc_accepts_iff)

lemma sc_enc_inject: "sc_enc x = sc_enc y \<longleftrightarrow> x = y"
  by (metis option.inject sc_dec_enc)

lemma sc_dec_inject: "sc_dec bs = Some x \<Longrightarrow> sc_dec cs = Some x \<Longrightarrow> bs = cs"
  by (simp add: sc_accepts_iff)

end

sublocale fixed_field \<subseteq> strict: strict_codec enc "\<lambda>bs. if length bs = width then Some (dec bs) else None"
  by unfold_locales (auto simp: length_enc dec_enc enc_dec split: if_splits)

section \<open>Digits and values\<close>

lemma length_le_digits [simp]: "length (le_digits k n) = k"
  by (induction k arbitrary: n) auto

lemma le_digits_numeral [byte_eval]:
  "le_digits (numeral k) n = of_nat n # le_digits (pred_numeral k) (n div 256)"
  by (simp only: numeral_eq_Suc le_digits.simps)

lemma le_value_le_digits: "le_value (le_digits k n) = n mod 256 ^ k"
proof (induction k arbitrary: n)
  case 0
  then show ?case by simp
next
  case (Suc k)
  have "n mod (256 * 256 ^ k) = n mod 256 + 256 * (n div 256 mod 256 ^ k)"
    by (simp add: mod_mult2_eq)
  then show ?case
    by (simp add: Suc.IH unat_of_nat take_bit_eq_mod)
qed

lemma le_value_less: "le_value bs < 256 ^ length bs"
proof (induction bs)
  case Nil
  then show ?case by simp
next
  case (Cons b bs)
  have "unat b < 256" using unsigned_less [of b] by simp
  with Cons show ?case by simp
qed

lemma le_digits_le_value: "le_digits (length bs) (le_value bs) = bs"
proof (induction bs)
  case Nil
  then show ?case by simp
next
  case (Cons b bs)
  have b: "unat b < 256" using unsigned_less [of b] by simp
  then have "(unat b + 256 * le_value bs) div 256 = le_value bs" by simp
  moreover have "(of_nat (unat b + 256 * le_value bs) :: byte) = b"
  proof -
    have "unat (of_nat (unat b + 256 * le_value bs) :: byte) = (unat b + 256 * le_value bs) mod 256"
      by (simp only: unat_of_nat) simp
    also have "\<dots> = unat b" using b by simp
    finally have "unat (of_nat (unat b + 256 * le_value bs) :: byte) = unat b" .
    then show ?thesis by (simp add: word_unat_eq_iff)
  qed
  ultimately show ?case using Cons by simp
qed

lemma le_digits_le_value_width: "length bs = k \<Longrightarrow> le_digits k (le_value bs) = bs"
  using le_digits_le_value by blast

lemma unat_of_le_value:
  assumes "length bs = k" and "256 ^ k = (2::nat) ^ LENGTH('a::len)"
  shows "unat (of_nat (le_value bs) :: 'a word) = le_value bs"
  using le_value_less [of bs] assms by (simp add: unat_of_nat take_bit_nat_eq_self)

section \<open>The encodings satisfy the contract\<close>

interpretation be32: fixed_field u32_to_be u32_from_be 4
proof unfold_locales
  fix x :: u32
  show "length (u32_to_be x) = 4" by (simp add: u32_to_be_def)
  show "u32_from_be (u32_to_be x) = x"
    by (simp add: u32_to_be_def u32_from_be_def le_value_le_digits u32_lt u64_lt)
next
  fix bs :: bytes
  assume "length bs = 4"
  then show "u32_to_be (u32_from_be bs) = bs"
    by (simp add: u32_to_be_def u32_from_be_def unat_of_le_value [of _ 4] le_digits_le_value_width)
qed

interpretation be64: fixed_field u64_to_be u64_from_be 8
proof unfold_locales
  fix x :: u64
  show "length (u64_to_be x) = 8" by (simp add: u64_to_be_def)
  show "u64_from_be (u64_to_be x) = x"
    by (simp add: u64_to_be_def u64_from_be_def le_value_le_digits u32_lt u64_lt)
next
  fix bs :: bytes
  assume "length bs = 8"
  then show "u64_to_be (u64_from_be bs) = bs"
    by (simp add: u64_to_be_def u64_from_be_def unat_of_le_value [of _ 8] le_digits_le_value_width)
qed

interpretation le32: fixed_field u32_to_le u32_from_le 4
proof unfold_locales
  fix x :: u32
  show "length (u32_to_le x) = 4" by (simp add: u32_to_le_def)
  show "u32_from_le (u32_to_le x) = x"
    by (simp add: u32_to_le_def u32_from_le_def le_value_le_digits u32_lt u64_lt)
next
  fix bs :: bytes
  assume "length bs = 4"
  then show "u32_to_le (u32_from_le bs) = bs"
    by (simp add: u32_to_le_def u32_from_le_def unat_of_le_value [of _ 4] le_digits_le_value_width)
qed

interpretation le64: fixed_field u64_to_le u64_from_le 8
proof unfold_locales
  fix x :: u64
  show "length (u64_to_le x) = 8" by (simp add: u64_to_le_def)
  show "u64_from_le (u64_to_le x) = x"
    by (simp add: u64_to_le_def u64_from_le_def le_value_le_digits u32_lt u64_lt)
next
  fix bs :: bytes
  assume "length bs = 8"
  then show "u64_to_le (u64_from_le bs) = bs"
    by (simp add: u64_to_le_def u64_from_le_def unat_of_le_value [of _ 8] le_digits_le_value_width)
qed

declare u32_to_be_def [byte_eval] u64_to_be_def [byte_eval] u32_to_le_def [byte_eval] u64_to_le_def [byte_eval]
  u32_from_be_def [byte_eval] u64_from_be_def [byte_eval] u32_from_le_def [byte_eval] u64_from_le_def [byte_eval]

lemmas field_simps' = be32.length_enc be64.length_enc le32.length_enc le64.length_enc
  be32.dec_enc be64.dec_enc le32.dec_enc le64.dec_enc

declare field_simps' [simp]

end
