(* ===== verification/Wire_Info.thy ===== *)
theory Wire_Info
  imports Bytes_Codec
begin

text \<open>
  \<open>crates/wbf-wire/src/encrypted_file_info.rs\<close>: the 16-byte meta of \<open>Upload/Create\<close>.
\<close>

record encrypted_file_info =
  efi_file_size :: u64
  efi_chunk_size :: u32
  efi_chunk_count :: u32

definition ENCRYPTED_FILE_INFO_LEN :: nat where
  "ENCRYPTED_FILE_INFO_LEN = 16"

definition info_to_bytes :: "encrypted_file_info \<Rightarrow> bytes" where
  "info_to_bytes i =
     u64_to_be (efi_file_size i) @ u32_to_be (efi_chunk_size i) @ u32_to_be (efi_chunk_count i)"

definition info_from_bytes :: "bytes \<Rightarrow> encrypted_file_info option" where
  "info_from_bytes bs =
     (if length bs \<noteq> ENCRYPTED_FILE_INFO_LEN then None
      else
        let rest = drop 8 bs; rest' = drop 4 rest
        in Some \<lparr>efi_file_size = u64_from_be (take 8 bs),
                 efi_chunk_size = u32_from_be (take 4 rest),
                 efi_chunk_count = u32_from_be (take 4 rest')\<rparr>)"

definition is_streaming :: "encrypted_file_info \<Rightarrow> bool" where
  "is_streaming i \<longleftrightarrow> efi_file_size i = 0 \<and> efi_chunk_count i = 0"

lemma length_info_to_bytes: "length (info_to_bytes i) = ENCRYPTED_FILE_INFO_LEN"
  by (simp add: info_to_bytes_def ENCRYPTED_FILE_INFO_LEN_def)

interpretation info: strict_codec info_to_bytes info_from_bytes
proof unfold_locales
  fix i :: encrypted_file_info
  show "info_from_bytes (info_to_bytes i) = Some i"
    by (simp add: info_from_bytes_def info_to_bytes_def ENCRYPTED_FILE_INFO_LEN_def)
next
  fix bs i
  assume dec: "info_from_bytes bs = Some i"
  then have "length bs = 8 + (4 + 4)"
    by (simp add: info_from_bytes_def ENCRYPTED_FILE_INFO_LEN_def split: if_splits)
  then obtain fs r where fs: "bs = fs @ r" "length fs = 8" "length r = 4 + 4"
    by (rule cut_front)
  obtain cs cc where "r = cs @ cc" "length cs = 4" "length cc = 4"
    using cut_front [OF fs(3)] .
  with dec fs show "info_to_bytes i = bs"
    by (auto simp: info_from_bytes_def info_to_bytes_def Let_def be64.enc_dec be32.enc_dec
        split: if_splits)
qed

text \<open>
  The meta of \<open>Create\<close> is a bijection between \<open>EncryptedFileInfo\<close> values and byte strings
  of exactly 16 bytes: \<open>from_bytes\<close> accepts precisely what \<open>to_bytes\<close> produces and refuses
  every other length.
\<close>

lemma info_codec:
  "(info_from_bytes bs = Some i \<longleftrightarrow> bs = info_to_bytes i)
   \<and> (info_from_bytes bs = None \<longleftrightarrow> length bs \<noteq> 16)"
  by (auto simp: info.sc_accepts_iff)
    (auto simp: info_from_bytes_def ENCRYPTED_FILE_INFO_LEN_def Let_def split: if_splits)

end
