(* ===== verification/Wire_Pack.thy ===== *)
theory Wire_Pack
  imports Bytes_Codec
begin

unbundle bit_operations_syntax

text \<open>
  \<open>crates/wbf-wire/src/pack.rs\<close>: the frame every message of the protocol travels in.  The
  CRC-32C function is the \<open>crc32c\<close> crate's, so it is a parameter of \<open>encode\<close> and \<open>decode\<close>;
  no property here needs anything of it.
\<close>

section \<open>Constants and kinds\<close>

definition VERSION :: byte where
  "VERSION = 1"

definition MIN_PACK_LEN :: nat where
  "MIN_PACK_LEN = 32"

datatype kind = Control | Stream | Upload | Download | Invite | Session | Account | Room
  | Event | Receipt | Device | Keys

fun kind_byte :: "kind \<Rightarrow> byte" where
  "kind_byte Control = 0x01"
| "kind_byte Stream = 0x02"
| "kind_byte Upload = 0x03"
| "kind_byte Download = 0x04"
| "kind_byte Invite = 0x05"
| "kind_byte Session = 0x10"
| "kind_byte Account = 0x11"
| "kind_byte Room = 0x13"
| "kind_byte Event = 0x14"
| "kind_byte Receipt = 0x15"
| "kind_byte Device = 0x16"
| "kind_byte Keys = 0x17"

definition kind_from_byte :: "byte \<Rightarrow> kind option" where
  "kind_from_byte b =
     (if b = 0x01 then Some Control
      else if b = 0x02 then Some Stream
      else if b = 0x03 then Some Upload
      else if b = 0x04 then Some Download
      else if b = 0x05 then Some Invite
      else if b = 0x10 then Some Session
      else if b = 0x11 then Some Account
      else if b = 0x13 then Some Room
      else if b = 0x14 then Some Event
      else if b = 0x15 then Some Receipt
      else if b = 0x16 then Some Device
      else if b = 0x17 then Some Keys
      else None)"

section \<open>Typed ids\<close>

definition ID_NONE :: byte where "ID_NONE = 0x00"
definition ID_SESSION :: byte where "ID_SESSION = 0x01"
definition ID_G_SEQ :: byte where "ID_G_SEQ = 0x02"
definition ID_UPLOAD :: byte where "ID_UPLOAD = 0x03"

definition MAX_VALUE :: u64 where
  "MAX_VALUE = push_bit 56 1 - 1"

definition compose :: "byte \<Rightarrow> u64 \<Rightarrow> u64 option" where
  "compose id_type value =
     (if value > MAX_VALUE then None
      else Some (push_bit 56 (ucast id_type) OR value))"

definition compose_masked :: "byte \<Rightarrow> u64 \<Rightarrow> u64" where
  "compose_masked id_type value = push_bit 56 (ucast id_type) OR (value AND MAX_VALUE)"

definition type_of :: "u64 \<Rightarrow> byte" where
  "type_of i = ucast (drop_bit 56 i)"

definition value_of :: "u64 \<Rightarrow> u64" where
  "value_of i = i AND MAX_VALUE"

section \<open>Flags\<close>

definition META_ENCRYPTED :: byte where "META_ENCRYPTED = 0x01"
definition WANT_ACK :: byte where "WANT_ACK = 0x02"
definition IS_RESPONSE :: byte where "IS_RESPONSE = 0x04"
definition IS_LAST :: byte where "IS_LAST = 0x08"
definition IS_BRIDGED :: byte where "IS_BRIDGED = 0x10"

definition KNOWN :: byte where
  "KNOWN = META_ENCRYPTED OR WANT_ACK OR IS_RESPONSE OR IS_LAST OR IS_BRIDGED"

section \<open>Packs\<close>

record pack =
  pk_kind :: kind
  pk_subtype :: byte
  pk_flags :: byte
  pk_id :: u64
  pk_seq :: u32
  pk_meta :: bytes
  pk_data :: bytes

datatype decode_error = TooShort | UnsupportedVersion byte | UnknownKind byte
  | ReservedFlags byte | MetaCrc u32 u32 | DataCrc u32 u32 | Truncated | TrailingBytes

datatype encode_error = MetaTooLong nat | DataTooLong nat | EncReservedFlags byte

text \<open>Reading integers out of the frame: \<open>None\<close> when the bytes run out.\<close>

definition read_u32 :: "bytes \<Rightarrow> nat \<Rightarrow> u32 option" where
  "read_u32 bs at =
     Option.bind (get_from bs at) (\<lambda>tail.
     Option.bind (first_chunk 4 tail) (\<lambda>chunk. Some (u32_from_be chunk)))"

definition read_u64 :: "bytes \<Rightarrow> nat \<Rightarrow> u64 option" where
  "read_u64 bs at =
     Option.bind (get_from bs at) (\<lambda>tail.
     Option.bind (first_chunk 8 tail) (\<lambda>chunk. Some (u64_from_be chunk)))"

definition read_len :: "bytes \<Rightarrow> nat \<Rightarrow> nat option" where
  "read_len bs at = map_option unat (read_u32 bs at)"

definition encode :: "(bytes \<Rightarrow> u32) \<Rightarrow> pack \<Rightarrow> encode_error + bytes" where
  "encode crc p =
     rbind (ensure (pk_flags p AND NOT KNOWN = 0) (EncReservedFlags (pk_flags p))) (\<lambda>_.
     rbind (ok_or (MetaTooLong (length (pk_meta p))) (u32_try_from (length (pk_meta p)))) (\<lambda>meta_len.
     rbind (ok_or (DataTooLong (length (pk_data p))) (u32_try_from (length (pk_data p)))) (\<lambda>data_len.
       let head = [VERSION, kind_byte (pk_kind p), pk_subtype p, pk_flags p]
                  @ u64_to_be (pk_id p) @ u32_to_be (pk_seq p) @ u32_to_be meta_len @ pk_meta p
       in Inr (head @ u32_to_be (crc head) @ u32_to_be data_len @ pk_data p
               @ u32_to_be (crc (pk_data p))))))"

text \<open>\<open>decode\<close> once the slice pattern has bound the first four bytes.  The order of the
  checks is the source's: version, kind, flags, the meta segment (length, then CRC), the data
  segment (length, then CRC), the end of the pack.\<close>

definition decode_fields ::
    "(bytes \<Rightarrow> u32) \<Rightarrow> bytes \<Rightarrow> byte \<Rightarrow> byte \<Rightarrow> byte \<Rightarrow> byte \<Rightarrow> decode_error + pack" where
  "decode_fields crc bs version kind_b subtype flags =
     rbind (ensure (version = VERSION) (UnsupportedVersion version)) (\<lambda>_.
     rbind (ok_or (UnknownKind kind_b) (kind_from_byte kind_b)) (\<lambda>kind.
     rbind (ensure (flags AND NOT KNOWN = 0) (ReservedFlags flags)) (\<lambda>_.
     rbind (ok_or TooShort (read_u64 bs 4)) (\<lambda>id.
     rbind (ok_or TooShort (read_u32 bs 12)) (\<lambda>seq.
     rbind (ok_or Truncated (read_len bs 16)) (\<lambda>meta_len.
     rbind (ok_or Truncated (checked_add_usize 20 meta_len)) (\<lambda>meta_end.
     rbind (ok_or Truncated (checked_add_usize meta_end 8)) (\<lambda>meta_need.
     rbind (ensure (meta_need \<le> length bs) Truncated) (\<lambda>_.
     rbind (ok_or Truncated (read_u32 bs meta_end)) (\<lambda>meta_crc_expected.
     rbind (ok_or Truncated (get_range bs 0 meta_end)) (\<lambda>meta_part.
     let meta_crc_actual = crc meta_part in
     rbind (ensure (meta_crc_actual = meta_crc_expected)
                   (MetaCrc meta_crc_expected meta_crc_actual)) (\<lambda>_.
     rbind (ok_or Truncated (read_len bs (meta_end + 4))) (\<lambda>data_len.
     let data_start = meta_end + 8 in
     rbind (ok_or Truncated (checked_add_usize data_start data_len)) (\<lambda>data_end.
     rbind (ok_or Truncated (checked_add_usize data_end 4)) (\<lambda>pack_end.
     rbind (ensure (pack_end \<le> length bs) Truncated) (\<lambda>_.
     rbind (ok_or Truncated (get_range bs data_start data_end)) (\<lambda>data.
     rbind (ok_or Truncated (read_u32 bs data_end)) (\<lambda>data_crc_expected.
     let data_crc_actual = crc data in
     rbind (ensure (data_crc_actual = data_crc_expected)
                   (DataCrc data_crc_expected data_crc_actual)) (\<lambda>_.
     rbind (ensure (pack_end = length bs) TrailingBytes) (\<lambda>_.
     rbind (ok_or Truncated (get_range bs 20 meta_end)) (\<lambda>meta.
       Inr \<lparr>pk_kind = kind, pk_subtype = subtype, pk_flags = flags, pk_id = id, pk_seq = seq,
            pk_meta = meta, pk_data = data\<rparr>)))))))))))))))))))))"

definition decode :: "(bytes \<Rightarrow> u32) \<Rightarrow> bytes \<Rightarrow> decode_error + pack" where
  "decode crc bs =
     (if length bs < MIN_PACK_LEN then Inl TooShort
      else case bs of
        version # kind_b # subtype # flags # _ \<Rightarrow> decode_fields crc bs version kind_b subtype flags
      | _ \<Rightarrow> Inl TooShort)"

section \<open>Kinds and ids\<close>

lemma kind_from_byte_kind_byte [simp]: "kind_from_byte (kind_byte k) = Some k"
  by (cases k) (simp_all add: kind_from_byte_def)

lemma kind_byte_kind_from_byte: "kind_from_byte b = Some k \<Longrightarrow> kind_byte k = b"
  by (auto simp: kind_from_byte_def split: if_splits)

lemma MAX_VALUE_mask: "MAX_VALUE = mask 56"
  by (simp add: MAX_VALUE_def mask_eq_exp_minus_1 push_bit_eq_mult)

lemma id_parts: "push_bit 56 (ucast (type_of i)) OR value_of i = i"
  unfolding type_of_def value_of_def MAX_VALUE_mask
  by (rule bit_word_eqI) (auto simp: bit_simps)

lemma type_of_join: "type_of (push_bit 56 (ucast t) OR (v AND mask 56)) = t"
  unfolding type_of_def by (rule bit_word_eqI) (auto simp: bit_simps)

lemma value_of_join: "value_of (push_bit 56 (ucast t) OR (v AND mask 56)) = v AND mask 56"
  unfolding value_of_def MAX_VALUE_mask by (rule bit_word_eqI) (auto simp: bit_simps)

lemma MAX_VALUE_num: "MAX_VALUE = 0xFFFFFFFFFFFFFF"
  by (simp add: MAX_VALUE_def push_bit_eq_mult)

lemma small_value: "v \<le> MAX_VALUE \<longleftrightarrow> v AND mask 56 = v"
proof -
  have "v \<le> MAX_VALUE \<longleftrightarrow> unat v \<le> 72057594037927935"
    by (simp add: MAX_VALUE_num word_le_nat_alt)
  also have "\<dots> \<longleftrightarrow> unat v < 2 ^ 56" by auto
  also have "\<dots> \<longleftrightarrow> take_bit 56 (unat v) = unat v"
    by (simp add: take_bit_nat_eq_self_iff)
  also have "\<dots> \<longleftrightarrow> v AND mask 56 = v"
    by (simp add: word_unat_eq_iff unsigned_take_bit_eq flip: take_bit_eq_mask)
  finally show ?thesis .
qed

section \<open>The frame\<close>

lemma read_u32_at:
  "length xs = at \<Longrightarrow> length c = 4 \<Longrightarrow> read_u32 (xs @ c @ ys) at = Some (u32_from_be c)"
  by (simp add: read_u32_def get_from_def first_chunk_def)

lemma read_u64_at:
  "length xs = at \<Longrightarrow> length c = 8 \<Longrightarrow> read_u64 (xs @ c @ ys) at = Some (u64_from_be c)"
  by (simp add: read_u64_def get_from_def first_chunk_def)

lemma get_range_at:
  "length xs = a \<Longrightarrow> a + length c = b \<Longrightarrow> get_range (xs @ c @ ys) a b = Some c"
  by (auto simp: get_range_def)

lemma decode_long:
  "MIN_PACK_LEN \<le> length bs \<Longrightarrow> bs = v # k # st # fl # zs \<Longrightarrow>
    decode crc bs = decode_fields crc bs v k st fl"
  by (simp add: decode_def)

text \<open>What \<open>decode\<close> does on a byte string laid out as a pack, whatever the fields hold.\<close>

lemma decode_layout:
  assumes bs: "bs = [v, k, st, fl] @ idb @ sqb @ mlb @ meta @ mcb @ dlb @ data @ dcb @ rest"
    and len: "length idb = 8" "length sqb = 4" "length mlb = 4" "length mcb = 4" "length dlb = 4"
      "length dcb = 4" "length meta = unat (u32_from_be mlb)" "length data = unat (u32_from_be dlb)"
  shows "decode crc bs =
    (if v \<noteq> VERSION then Inl (UnsupportedVersion v)
     else case kind_from_byte k of None \<Rightarrow> Inl (UnknownKind k)
     | Some kind \<Rightarrow>
       if fl AND NOT KNOWN \<noteq> 0 then Inl (ReservedFlags fl)
       else
         let head = [v, k, st, fl] @ idb @ sqb @ mlb @ meta in
         if crc head \<noteq> u32_from_be mcb then Inl (MetaCrc (u32_from_be mcb) (crc head))
         else if crc data \<noteq> u32_from_be dcb then Inl (DataCrc (u32_from_be dcb) (crc data))
         else if rest \<noteq> [] then Inl TrailingBytes
         else Inr \<lparr>pk_kind = kind, pk_subtype = st, pk_flags = fl, pk_id = u64_from_be idb,
                   pk_seq = u32_from_be sqb, pk_meta = meta, pk_data = data\<rparr>)"
proof -
  let ?head = "[v, k, st, fl] @ idb @ sqb @ mlb @ meta"
  define n where "n = length meta"
  define m where "m = length data"
  have nm: "n < 4294967296" "m < 4294967296"
    using u32_lt [of "u32_from_be mlb"] u32_lt [of "u32_from_be dlb"] len by (simp_all add: n_def m_def)
  have L: "length bs = 32 + n + m + length rest"
    by (simp add: bs len n_def m_def)
  have r: "read_u64 bs 4 = Some (u64_from_be idb)" "read_u32 bs 12 = Some (u32_from_be sqb)"
    "read_len bs 16 = Some n" "read_u32 bs (20 + n) = Some (u32_from_be mcb)"
    "read_len bs (20 + n + 4) = Some m" "read_u32 bs (20 + n + 8 + m) = Some (u32_from_be dcb)"
    using read_u64_at [of "[v, k, st, fl]" 4 idb] read_u32_at [of "[v, k, st, fl] @ idb" 12 sqb]
      read_u32_at [of "[v, k, st, fl] @ idb @ sqb" 16 mlb] read_u32_at [of ?head "20 + n" mcb]
      read_u32_at [of "?head @ mcb" "20 + n + 4" dlb]
      read_u32_at [of "?head @ mcb @ dlb @ data" "20 + n + 8 + m" dcb]
    by (simp_all add: bs len n_def m_def read_len_def)
  have g: "get_range bs 0 (20 + n) = Some ?head"
    "get_range bs (20 + n + 8) (20 + n + 8 + m) = Some data" "get_range bs 20 (20 + n) = Some meta"
    using get_range_at [of "[]" 0 ?head] get_range_at [of "?head @ mcb @ dlb" "20 + n + 8" data]
      get_range_at [of "[v, k, st, fl] @ idb @ sqb @ mlb" 20 meta]
    by (simp_all add: bs len n_def m_def)
  have c: "checked_add_usize 20 n = Some (20 + n)" "checked_add_usize (20 + n) 8 = Some (20 + n + 8)"
    "checked_add_usize (20 + n + 8) m = Some (20 + n + 8 + m)"
    "checked_add_usize (20 + n + 8 + m) 4 = Some (20 + n + 8 + m + 4)"
    using nm by (simp_all add: checked_add_usize_def usize_limit_def)
  have e: "(20 + n + 8 + m + 4 = length bs) = (rest = [])" "20 + n + 8 \<le> length bs"
    "20 + n + 8 + m + 4 \<le> length bs" "MIN_PACK_LEN \<le> length bs"
    by (simp_all add: L MIN_PACK_LEN_def)
  have shape: "bs = v # k # st # fl # (idb @ sqb @ mlb @ meta @ mcb @ dlb @ data @ dcb @ rest)"
    by (simp add: bs)
  have "decode crc bs = decode_fields crc bs v k st fl"
    using e(4) shape by (rule decode_long)
  then show ?thesis
    by (simp only: decode_fields_def rbind_ensure r g c e ok_or_simps rbind_simps if_True Let_def
        split: option.split) simp
qed

lemma encode_eq_Inr:
  "encode crc p = Inr bs \<longleftrightarrow>
     pk_flags p AND NOT KNOWN = 0 \<and> length (pk_meta p) < 2 ^ 32 \<and> length (pk_data p) < 2 ^ 32 \<and>
     (let head = [VERSION, kind_byte (pk_kind p), pk_subtype p, pk_flags p]
                 @ u64_to_be (pk_id p) @ u32_to_be (pk_seq p)
                 @ u32_to_be (of_nat (length (pk_meta p))) @ pk_meta p
      in bs = head @ u32_to_be (crc head) @ u32_to_be (of_nat (length (pk_data p))) @ pk_data p
              @ u32_to_be (crc (pk_data p)))"
  by (auto simp: encode_def rbind_ensure u32_try_from_def Let_def)

lemma unat_of_length: "n < 2 ^ 32 \<Longrightarrow> unat (of_nat n :: u32) = n"
  by (simp add: unat_of_nat)

lemma decode_encoded_prefix:
  assumes "encode crc p = Inr bs"
  shows "decode crc (bs @ rest) = (if rest = [] then Inr p else Inl TrailingBytes)"
proof -
  let ?head = "[VERSION, kind_byte (pk_kind p), pk_subtype p, pk_flags p]
     @ u64_to_be (pk_id p) @ u32_to_be (pk_seq p) @ u32_to_be (of_nat (length (pk_meta p))) @ pk_meta p"
  have enc: "pk_flags p AND NOT KNOWN = 0" "length (pk_meta p) < 2 ^ 32" "length (pk_data p) < 2 ^ 32"
    "bs = ?head @ u32_to_be (crc ?head) @ u32_to_be (of_nat (length (pk_data p))) @ pk_data p
          @ u32_to_be (crc (pk_data p))"
    using assms by (simp_all add: encode_eq_Inr Let_def)
  show ?thesis
    by (subst decode_layout [of _ VERSION "kind_byte (pk_kind p)" "pk_subtype p" "pk_flags p"
          "u64_to_be (pk_id p)" "u32_to_be (pk_seq p)" "u32_to_be (of_nat (length (pk_meta p)))" "pk_meta p"
          "u32_to_be (crc ?head)" "u32_to_be (of_nat (length (pk_data p)))" "pk_data p"
          "u32_to_be (crc (pk_data p))" rest])
      (use enc in \<open>simp_all add: unat_of_length\<close>)
qed

text \<open>What acceptance says about the shape of the bytes.\<close>

lemma decode_accepts_shape:
  assumes "decode crc bs = Inr p"
  obtains v k st fl idb sqb mlb meta mcb dlb data dcb where
    "bs = [v, k, st, fl] @ idb @ sqb @ mlb @ meta @ mcb @ dlb @ data @ dcb @ []"
    "length idb = 8" "length sqb = 4" "length mlb = 4" "length mcb = 4" "length dlb = 4"
    "length dcb = 4" "length meta = unat (u32_from_be mlb)" "length data = unat (u32_from_be dlb)"
proof -
  obtain ml dl where ml: "read_len bs 16 = Some ml" and dl: "read_len bs (20 + ml + 4) = Some dl"
    and L: "length bs = 4 + (8 + (4 + (4 + (ml + (4 + (4 + (dl + 4)))))))"
    using assms
    by (auto simp: decode_def decode_fields_def rbind_eq_Inr Let_def checked_add_usize_def split: list.splits if_splits)
  obtain hd4 b1 where b1: "bs = hd4 @ b1" "length hd4 = 4" "length b1 = 8 + (4 + (4 + (ml + (4 + (4 + (dl + 4))))))"
    using cut_front [OF L] .
  obtain idb b2 where b2: "b1 = idb @ b2" "length idb = 8" "length b2 = 4 + (4 + (ml + (4 + (4 + (dl + 4)))))"
    using cut_front [OF b1(3)] .
  obtain sqb b3 where b3: "b2 = sqb @ b3" "length sqb = 4" "length b3 = 4 + (ml + (4 + (4 + (dl + 4))))"
    using cut_front [OF b2(3)] .
  obtain mlb b4 where b4: "b3 = mlb @ b4" "length mlb = 4" "length b4 = ml + (4 + (4 + (dl + 4)))"
    using cut_front [OF b3(3)] .
  obtain meta b5 where b5: "b4 = meta @ b5" "length meta = ml" "length b5 = 4 + (4 + (dl + 4))"
    using cut_front [OF b4(3)] .
  obtain mcb b6 where b6: "b5 = mcb @ b6" "length mcb = 4" "length b6 = 4 + (dl + 4)"
    using cut_front [OF b5(3)] .
  obtain dlb b7 where b7: "b6 = dlb @ b7" "length dlb = 4" "length b7 = dl + 4"
    using cut_front [OF b6(3)] .
  obtain data dcb where b8: "b7 = data @ dcb" "length data = dl" "length dcb = 4"
    using cut_front [OF b7(3)] .
  obtain v k st fl where h: "hd4 = [v, k, st, fl]"
    using b1(2) by (auto simp: length_Suc_conv numeral_eq_Suc)
  have "length meta = unat (u32_from_be mlb)"
    using ml read_u32_at [of "hd4 @ idb @ sqb" 16 mlb]
    by (simp add: b1 b2 b3 b4 b5(2) read_len_def)
  moreover have "length data = unat (u32_from_be dlb)"
    using dl read_u32_at [of "hd4 @ idb @ sqb @ mlb @ meta @ mcb" "20 + ml + 4" dlb]
    by (simp add: b1 b2 b3 b4 b5 b6 b7 b8(2) read_len_def)
  ultimately show thesis
    using that b1 b2 b3 b4 b5 b6 b7 b8 h by simp
qed

lemma decode_sound:
  assumes "decode crc bs = Inr p"
  shows "encode crc p = Inr bs"
proof -
  obtain v k st fl idb sqb mlb meta mcb dlb data dcb where
    lay: "bs = [v, k, st, fl] @ idb @ sqb @ mlb @ meta @ mcb @ dlb @ data @ dcb @ []"
    "length idb = 8" "length sqb = 4" "length mlb = 4" "length mcb = 4" "length dlb = 4"
    "length dcb = 4" "length meta = unat (u32_from_be mlb)" "length data = unat (u32_from_be dlb)"
    using decode_accepts_shape [OF assms] .
  from assms have "v = VERSION" "fl AND NOT KNOWN = 0" "kind_byte (pk_kind p) = k"
    "crc ([v, k, st, fl] @ idb @ sqb @ mlb @ meta) = u32_from_be mcb"
    "crc data = u32_from_be dcb" "pk_subtype p = st" "pk_flags p = fl" "pk_id p = u64_from_be idb"
    "pk_seq p = u32_from_be sqb" "pk_meta p = meta" "pk_data p = data"
    unfolding decode_layout [OF lay]
    by (auto simp: Let_def kind_byte_kind_from_byte split: if_splits option.splits)
  then show ?thesis
    by (simp add: encode_eq_Inr Let_def lay be32.enc_dec be64.enc_dec u32_lt)
qed

text \<open>Every read of the decoder looks only at the bytes in front of it.\<close>

lemma read_u32_take: "at + 4 \<le> n \<Longrightarrow> n \<le> length bs \<Longrightarrow> read_u32 (take n bs) at = read_u32 bs at"
  by (simp add: read_u32_def get_from_def first_chunk_def take_drop min_def)

lemma read_u64_take: "at + 8 \<le> n \<Longrightarrow> n \<le> length bs \<Longrightarrow> read_u64 (take n bs) at = read_u64 bs at"
  by (simp add: read_u64_def get_from_def first_chunk_def take_drop min_def)

lemma read_len_take: "at + 4 \<le> n \<Longrightarrow> n \<le> length bs \<Longrightarrow> read_len (take n bs) at = read_len bs at"
  by (simp add: read_len_def read_u32_take)

lemma get_range_take: "b \<le> n \<Longrightarrow> n \<le> length bs \<Longrightarrow> get_range (take n bs) a b = get_range bs a b"
  by (auto simp: get_range_def take_drop min_def)

lemma decode_cut:
  assumes p: "decode crc bs = Inr p" and n: "n < length bs"
  shows "decode crc (take n bs) = Inl (if n < MIN_PACK_LEN then TooShort else Truncated)"
proof (cases "n < MIN_PACK_LEN")
  case True
  then show ?thesis using n by (simp add: decode_def)
next
  case False
  then have n32: "32 \<le> n" by (simp add: MIN_PACK_LEN_def)
  obtain v k st fl tl kind idv sq ml dl mp where
    sh: "bs = v # k # st # fl # tl" and hd: "v = VERSION" "kind_from_byte k = Some kind"
      "fl AND NOT KNOWN = 0" "read_u64 bs 4 = Some idv" "read_u32 bs 12 = Some sq"
    and ml: "read_len bs 16 = Some ml" "20 + ml + 8 < usize_limit"
    and crc: "get_range bs 0 (20 + ml) = Some mp" "read_u32 bs (20 + ml) = Some (crc mp)"
    and dl: "read_len bs (20 + ml + 4) = Some dl" "20 + ml + 8 + dl + 4 < usize_limit"
      "length bs = 20 + ml + 8 + dl + 4"
    using p
    by (auto simp: decode_def decode_fields_def rbind_eq_Inr Let_def checked_add_usize_def
        split: list.splits if_splits)
  have nl: "n \<le> length bs" using n by simp
  have sh': "take n bs = v # k # st # fl # take (n - 4) tl"
    using n32 by (simp add: sh take_Cons' numeral_eq_Suc)
  have add: "checked_add_usize 20 ml = Some (20 + ml)" "checked_add_usize (20 + ml) 8 = Some (20 + ml + 8)"
    "checked_add_usize (20 + ml + 8) dl = Some (20 + ml + 8 + dl)"
    "checked_add_usize (20 + ml + 8 + dl) 4 = Some (20 + ml + 8 + dl + 4)"
    using ml(2) dl(2) by (simp_all add: checked_add_usize_def)
  have hd': "read_u64 (take n bs) 4 = Some idv" "read_u32 (take n bs) 12 = Some sq"
    "read_len (take n bs) 16 = Some ml" "length (take n bs) = n"
    using hd ml n32 nl by (simp_all add: read_u64_take read_u32_take read_len_take)
  have dec: "decode crc (take n bs) = decode_fields crc (take n bs) v k st fl"
    using n32 nl by (intro decode_long [OF _ sh']) (simp add: MIN_PACK_LEN_def)
  show ?thesis
  proof (cases "20 + ml + 8 \<le> n")
    case True
    then have "get_range (take n bs) 0 (20 + ml) = Some mp" "read_u32 (take n bs) (20 + ml) = Some (crc mp)"
      "read_len (take n bs) (20 + ml + 4) = Some dl" "\<not> 20 + ml + 8 + dl + 4 \<le> n"
      using crc dl n nl by (simp_all add: get_range_take read_u32_take read_len_take)
    then show ?thesis
      using False True hd by (simp add: dec decode_fields_def rbind_ensure hd' add [simplified] Let_def del: length_take)
  next
    case short: False
    then show ?thesis
      using False hd by (simp add: dec decode_fields_def rbind_ensure hd' add [simplified] Let_def del: length_take)
  qed
qed

section \<open>Properties\<close>

lemma decode_encode_iff: "decode crc bs = Inr p \<longleftrightarrow> encode crc p = Inr bs"
  using decode_sound [of crc bs p] decode_encoded_prefix [of crc p bs "[]"] by auto

text \<open>
  C1. The frame is a bijection: \<open>Pack::decode\<close> accepts a byte string exactly when it is what
  \<open>Pack::encode\<close> makes of the accepted pack.  So every pack that can be sent is read back
  unchanged, no two byte strings decode to the same pack, and nothing else is accepted.
\<close>

theorem decode_iff_encode: "decode crc bs = Inr p \<longleftrightarrow> encode crc p = Inr bs"
  by (rule decode_encode_iff)

text \<open>
  A pack is one whole message: every strict prefix of an encoded pack is refused as
  \<open>TooShort\<close> or \<open>Truncated\<close> (never as a bad CRC, and never accepted as a shorter pack), and
  an encoded pack with anything behind it is refused as \<open>TrailingBytes\<close>.
\<close>

lemma decode_only_whole_packs:
  assumes "encode crc p = Inr bs"
  shows "(n < length bs \<longrightarrow>
      decode crc (take n bs) = Inl (if n < MIN_PACK_LEN then TooShort else Truncated))
    \<and> (rest \<noteq> [] \<longrightarrow> decode crc (bs @ rest) = Inl TrailingBytes)"
  using assms decode_cut [of crc bs p n] decode_encoded_prefix [OF assms, of rest]
  by (simp add: decode_encode_iff)

definition ping_pack :: pack where
  "ping_pack = \<lparr>pk_kind = Control, pk_subtype = 4, pk_flags = 2, pk_id = 0, pk_seq = 7,
     pk_meta = [], pk_data = [65]\<rparr>"

definition ping_bytes :: bytes where
  "ping_bytes = [1, 1, 4, 2] @ replicate 8 0 @ [0, 0, 0, 7] @ replicate 4 0
     @ [0, 0, 0, 9] @ [0, 0, 0, 1] @ [65] @ [0, 0, 0, 9]"

lemma encode_ping: "encode (\<lambda>_. 9) ping_pack = Inr ping_bytes"
proof -
  have "encode (\<lambda>_. 9) ping_pack = Inr ping_bytes \<longleftrightarrow> True"
    by (simp add: encode_eq_Inr ping_pack_def ping_bytes_def VERSION_def KNOWN_def META_ENCRYPTED_def
        WANT_ACK_def IS_RESPONSE_def IS_LAST_def IS_BRIDGED_def Let_def byte_eval)
  then show ?thesis by simp
qed

theorem decode_only_whole_packs_witness:
  "decode (\<lambda>_. 9) (take 32 ping_bytes) = Inl Truncated
   \<and> decode (\<lambda>_. 9) (ping_bytes @ [0]) = Inl TrailingBytes"
proof -
  have "32 < length ping_bytes" by (simp add: ping_bytes_def)
  then show ?thesis
    using decode_only_whole_packs [OF encode_ping, of 32 "[0]"] by (simp add: MIN_PACK_LEN_def)
qed

text \<open>
  Typed ids: \<open>id::compose\<close> succeeds with \<open>i\<close> exactly when \<open>i\<close> splits back into the type
  byte and the value it was given (so it refuses precisely the values of more than 56 bits and
  never truncates), and \<open>compose_masked\<close> agrees with it on every value it accepts.
\<close>

lemma compose_iff_parts:
  "(compose t v = Some i \<longleftrightarrow> type_of i = t \<and> value_of i = v)
   \<and> (compose t v = None \<longleftrightarrow> v > MAX_VALUE)
   \<and> type_of (compose_masked t v) = t \<and> value_of (compose_masked t v) = v AND MAX_VALUE
   \<and> compose t (v AND MAX_VALUE) = Some (compose_masked t v)"
proof -
  have masked: "type_of (compose_masked t v) = t" "value_of (compose_masked t v) = v AND MAX_VALUE"
    by (simp_all add: compose_masked_def MAX_VALUE_mask type_of_join value_of_join)
  have agree: "compose t (v AND MAX_VALUE) = Some (compose_masked t v)"
  proof -
    have "v AND mask 56 \<le> MAX_VALUE" unfolding small_value by (simp add: and.assoc)
    then have "v AND MAX_VALUE \<le> MAX_VALUE" by (simp only: MAX_VALUE_mask)
    then show ?thesis by (simp add: compose_def compose_masked_def)
  qed
  have "compose t v = Some i \<longleftrightarrow> type_of i = t \<and> value_of i = v"
  proof
    assume "compose t v = Some i"
    then have "v \<le> MAX_VALUE" "i = push_bit 56 (ucast t) OR v"
      by (auto simp: compose_def split: if_splits)
    then have "i = push_bit 56 (ucast t) OR (v AND mask 56)" "v AND mask 56 = v"
      by (simp_all add: small_value)
    then show "type_of i = t \<and> value_of i = v"
      using type_of_join [of t v] value_of_join [of t v] by simp
  next
    assume parts: "type_of i = t \<and> value_of i = v"
    then have "v AND mask 56 = v"
      by (auto simp: value_of_def MAX_VALUE_mask and.assoc)
    then have "v \<le> MAX_VALUE" by (simp add: small_value)
    then show "compose t v = Some i"
      using parts id_parts [of i] by (auto simp: compose_def)
  qed
  with masked agree show ?thesis by (simp add: compose_def)
qed

end
