(* ===== verification/Chunk_Block.thy ===== *)
theory Chunk_Block
  imports Bytes_Codec
begin

text \<open>
  \<open>crates/wbf-sdk/src/cipher.rs\<close> and \<open>chunk_block.rs\<close>: the \<open>cipher\<close> field with one AEAD
  call, and the event block / description with the two checks that decide what a block may
  be used as.  The two AEAD crates are a parameter (\<open>aead_lib\<close>); what the code relies on
  is the named hypothesis \<open>aead_ok\<close>.
\<close>

section \<open>Cipher\<close>

datatype cipher = ChaCha20Poly1305 | Aes256Gcm | Cipher_None

definition KEY_LEN :: nat where "KEY_LEN = 32"
definition NONCE_LEN :: nat where "NONCE_LEN = 12"
definition TAG_LEN :: nat where "TAG_LEN = 16"

definition cipher_from_name :: "string \<Rightarrow> cipher option" where
  "cipher_from_name s =
     (if s = ''chacha20-poly1305'' then Some ChaCha20Poly1305
      else if s = ''aes-256-gcm'' then Some Aes256Gcm
      else if s = ''none'' then Some Cipher_None
      else None)"

fun cipher_name :: "cipher \<Rightarrow> string" where
  "cipher_name ChaCha20Poly1305 = ''chacha20-poly1305''"
| "cipher_name Aes256Gcm = ''aes-256-gcm''"
| "cipher_name Cipher_None = ''none''"

definition is_encrypting :: "cipher \<Rightarrow> bool" where
  "is_encrypting c \<longleftrightarrow> c \<noteq> Cipher_None"

definition default_for_this_machine :: "bool \<Rightarrow> cipher" where
  "default_for_this_machine hardware_aes = (if hardware_aes then Aes256Gcm else ChaCha20Poly1305)"

datatype crypto_error =
    IndexReserved u32
  | LengthMismatch nat nat
  | TagInvalid
  | ChunkTooLong u32 nat
  | SealFailed
  | NoRandomness string

text \<open>The AEAD crates: \<open>encrypt\<close> and \<open>decrypt\<close> of each algorithm over key, nonce, AAD, message.\<close>

record aead_lib =
  lib_encrypt :: "cipher \<Rightarrow> bytes \<Rightarrow> bytes \<Rightarrow> bytes \<Rightarrow> bytes \<Rightarrow> bytes option"
  lib_decrypt :: "cipher \<Rightarrow> bytes \<Rightarrow> bytes \<Rightarrow> bytes \<Rightarrow> bytes \<Rightarrow> bytes option"

definition cipher_seal ::
    "aead_lib \<Rightarrow> cipher \<Rightarrow> bytes \<Rightarrow> bytes \<Rightarrow> bytes \<Rightarrow> bytes \<Rightarrow> crypto_error + bytes" where
  "cipher_seal A c key nonce aad plain =
     (case c of
        ChaCha20Poly1305 \<Rightarrow> ok_or SealFailed (lib_encrypt A ChaCha20Poly1305 key nonce aad plain)
      | Aes256Gcm \<Rightarrow> ok_or SealFailed (lib_encrypt A Aes256Gcm key nonce aad plain)
      | Cipher_None \<Rightarrow> Inr plain)"

definition cipher_open ::
    "aead_lib \<Rightarrow> cipher \<Rightarrow> bytes \<Rightarrow> bytes \<Rightarrow> bytes \<Rightarrow> bytes \<Rightarrow> bytes option" where
  "cipher_open A c key nonce aad sealed =
     (case c of
        ChaCha20Poly1305 \<Rightarrow> lib_decrypt A ChaCha20Poly1305 key nonce aad sealed
      | Aes256Gcm \<Rightarrow> lib_decrypt A Aes256Gcm key nonce aad sealed
      | Cipher_None \<Rightarrow> Some sealed)"

text \<open>
  What the code relies on of the AEAD crates: decryption accepts exactly what encryption
  produces (the tag is a deterministic function of key, nonce, AAD and message), and the
  16-byte tag is the only growth.
\<close>

definition aead_ok :: "aead_lib \<Rightarrow> bool" where
  "aead_ok A \<longleftrightarrow>
     (\<forall>c k n a p s. lib_decrypt A c k n a s = Some p \<longleftrightarrow> lib_encrypt A c k n a p = Some s) \<and>
     (\<forall>c k n a p s. lib_encrypt A c k n a p = Some s \<longrightarrow> length s = length p + TAG_LEN)"

section \<open>Blocks\<close>

definition CONVENTION_V :: u32 where "CONVENTION_V = 1"
definition BLOCK_NONCE_BASE_LEN :: nat where "BLOCK_NONCE_BASE_LEN = 8"

record chunked_block =
  cb_v :: u32
  cb_cipher :: cipher
  cb_key :: "bytes option"
  cb_nonce_base :: "bytes option"
  cb_chunk_size :: u32
  cb_file_size :: "u64 option"
  cb_name :: "string option"
  cb_mimetype :: "string option"
  cb_sha256 :: "string option"

datatype block_error = UnknownVersion u32 | MissingKey | UnexpectedKey | MissingNonceBase
  | UnexpectedNonceBase | ChunkSizeZero | MissingFileSize

definition check_shared_rules :: "chunked_block \<Rightarrow> block_error + unit" where
  "check_shared_rules b =
     (if cb_v b \<noteq> CONVENTION_V then Inl (UnknownVersion (cb_v b))
      else if cb_chunk_size b = 0 then Inl ChunkSizeZero
      else if is_encrypting (cb_cipher b) then
        (if cb_nonce_base b = None then Inl MissingNonceBase else Inr ())
      else if cb_key b \<noteq> None then Inl UnexpectedKey
      else if cb_nonce_base b \<noteq> None then Inl UnexpectedNonceBase
      else Inr ())"

definition check_as_event_block :: "chunked_block \<Rightarrow> block_error + unit" where
  "check_as_event_block b =
     rbind (check_shared_rules b) (\<lambda>_.
       if is_encrypting (cb_cipher b) \<and> cb_key b = None then Inl MissingKey
       else if cb_file_size b = None then Inl MissingFileSize
       else Inr ())"

definition check_as_description :: "chunked_block \<Rightarrow> block_error + unit" where
  "check_as_description b =
     rbind (check_shared_rules b) (\<lambda>_.
       if cb_key b \<noteq> None then Inl UnexpectedKey else Inr ())"

definition to_description :: "chunked_block \<Rightarrow> chunked_block" where
  "to_description b = b\<lparr>cb_key := None\<rparr>"

text \<open>\<open>serde_json\<close>'s reading and writing of the derived format is a parameter pair.\<close>

record block_json =
  json_write :: "chunked_block \<Rightarrow> bytes option"
  json_read :: "bytes \<Rightarrow> chunked_block option"

datatype description_error = BadJson | BadDescription block_error

definition to_description_json :: "block_json \<Rightarrow> chunked_block \<Rightarrow> bytes option" where
  "to_description_json J b = json_write J (to_description b)"

definition from_description_json :: "block_json \<Rightarrow> bytes \<Rightarrow> description_error + chunked_block" where
  "from_description_json J json =
     rbind (ok_or BadJson (json_read J json)) (\<lambda>b.
     rbind (map_err BadDescription (check_as_description b)) (\<lambda>_. Inr b))"

definition both_or_absent :: "'a option \<Rightarrow> 'a option \<Rightarrow> bool" where
  "both_or_absent mine theirs =
     (case (mine, theirs) of (Some a, Some b) \<Rightarrow> a = b | _ \<Rightarrow> True)"

definition is_consistent_with_description :: "chunked_block \<Rightarrow> chunked_block \<Rightarrow> bool" where
  "is_consistent_with_description b d \<longleftrightarrow>
     cb_v b = cb_v d \<and> cb_cipher b = cb_cipher d \<and> cb_nonce_base b = cb_nonce_base d
     \<and> cb_chunk_size b = cb_chunk_size d
     \<and> (case (cb_file_size b, cb_file_size d) of (Some x, Some y) \<Rightarrow> x = y | _ \<Rightarrow> True)
     \<and> both_or_absent (cb_name b) (cb_name d)
     \<and> both_or_absent (cb_mimetype b) (cb_mimetype d)
     \<and> both_or_absent (cb_sha256 b) (cb_sha256 d)"

text \<open>
  The fixed array lengths of the source's types (\<open>[u8; 32]\<close>, \<open>[u8; 8]\<close>), which the lists of
  the model do not carry.
\<close>

definition wf_block :: "chunked_block \<Rightarrow> bool" where
  "wf_block b \<longleftrightarrow> (\<forall>k. cb_key b = Some k \<longrightarrow> length k = KEY_LEN)
     \<and> (\<forall>n. cb_nonce_base b = Some n \<longrightarrow> length n = BLOCK_NONCE_BASE_LEN)"

section \<open>Facts\<close>

lemma cipher_open_seal:
  assumes "aead_ok A"
  shows "cipher_open A c k n a s = Some p \<longleftrightarrow> cipher_seal A c k n a p = Inr s"
  using assms by (cases c) (auto simp: cipher_open_def cipher_seal_def aead_ok_def)

lemma cipher_seal_length:
  assumes "aead_ok A" and "cipher_seal A c k n a p = Inr s"
  shows "length s = length p + (if is_encrypting c then TAG_LEN else 0)"
  using assms by (cases c) (auto simp: cipher_seal_def is_encrypting_def aead_ok_def)

lemma cipher_name_inverse: "cipher_from_name s = Some c \<longleftrightarrow> s = cipher_name c"
  by (cases c) (auto simp: cipher_from_name_def)

lemma check_shared_rules_Inr:
  "check_shared_rules b = Inr () \<longleftrightarrow>
     cb_v b = CONVENTION_V \<and> cb_chunk_size b \<noteq> 0
     \<and> (if is_encrypting (cb_cipher b) then cb_nonce_base b \<noteq> None
        else cb_key b = None \<and> cb_nonce_base b = None)"
  by (auto simp: check_shared_rules_def)

lemma check_as_event_block_Inr:
  "check_as_event_block b = Inr () \<longleftrightarrow>
     cb_v b = CONVENTION_V \<and> cb_chunk_size b \<noteq> 0 \<and> cb_file_size b \<noteq> None
     \<and> (if is_encrypting (cb_cipher b) then cb_key b \<noteq> None \<and> cb_nonce_base b \<noteq> None
        else cb_key b = None \<and> cb_nonce_base b = None)"
  by (auto simp: check_as_event_block_def rbind_eq_Inr check_shared_rules_Inr)

lemma check_as_description_Inr:
  "check_as_description b = Inr () \<longleftrightarrow>
     cb_v b = CONVENTION_V \<and> cb_chunk_size b \<noteq> 0 \<and> cb_key b = None
     \<and> (if is_encrypting (cb_cipher b) then cb_nonce_base b \<noteq> None else cb_nonce_base b = None)"
  by (auto simp: check_as_description_def rbind_eq_Inr check_shared_rules_Inr)

lemma is_consistent_to_description: "is_consistent_with_description b (to_description b)"
  by (auto simp: is_consistent_with_description_def to_description_def both_or_absent_def
      split: option.splits)

end
