(* ===== verification/Chunk_Crypto.thy ===== *)
theory Chunk_Crypto
  imports Chunk_Block
begin

text \<open>
  \<open>crates/wbf-sdk/src/chunk_crypto.rs\<close>: sealing and opening chunks and descriptions, and the
  arithmetic of the chunk layout.  Sizes stay at their widths (\<open>u64\<close> positions, \<open>u32\<close> chunk
  sizes and indices); narrowing casts are written out.
\<close>

section \<open>Constants\<close>

definition CHUNK_AAD :: bytes where
  "CHUNK_AAD = map (of_nat \<circ> of_char) ''wbf-chunk-v1''"
definition DESCRIPTION_AAD :: bytes where
  "DESCRIPTION_AAD = map (of_nat \<circ> of_char) ''wbf-desc-v1''"
definition MAX_CHUNK_INDEX :: u32 where "MAX_CHUNK_INDEX = 0xFFFFFFFD"
definition CREATE_DESCRIPTION_INDEX :: u32 where "CREATE_DESCRIPTION_INDEX = 0xFFFFFFFF"
definition SEAL_DESCRIPTION_INDEX :: u32 where "SEAL_DESCRIPTION_INDEX = 0xFFFFFFFE"
definition LARGE_FILE_THRESHOLD :: u64 where "LARGE_FILE_THRESHOLD = 50 * 1024 * 1024"
definition SMALL_CHUNK_SIZE :: u32 where "SMALL_CHUNK_SIZE = 64 * 1024"
definition LARGE_CHUNK_SIZE :: u32 where "LARGE_CHUNK_SIZE = 1024 * 1024"

datatype description_slot = Slot_Create | Slot_Seal

fun nonce_index :: "description_slot \<Rightarrow> u32" where
  "nonce_index Slot_Create = CREATE_DESCRIPTION_INDEX"
| "nonce_index Slot_Seal = SEAL_DESCRIPTION_INDEX"

datatype link = MobileOrUnknown | WifiOrWired

section \<open>The file cipher\<close>

datatype mode = Plain | Encrypted cipher bytes bytes

record file_cipher =
  fc_chunk_size :: u32
  fc_mode :: mode

definition from_event_block :: "chunked_block \<Rightarrow> block_error + file_cipher" where
  "from_event_block b =
     rbind (check_as_event_block b) (\<lambda>_.
     rbind (case (cb_cipher b, cb_key b, cb_nonce_base b) of
              (Cipher_None, None, None) \<Rightarrow> Inr Plain
            | (Cipher_None, Some _, _) \<Rightarrow> Inl UnexpectedKey
            | (Cipher_None, None, Some _) \<Rightarrow> Inl UnexpectedNonceBase
            | (c, Some key, Some nonce_base) \<Rightarrow> Inr (Encrypted c key nonce_base)
            | (_, None, _) \<Rightarrow> Inl MissingKey
            | (_, Some _, None) \<Rightarrow> Inl MissingNonceBase)
       (\<lambda>m. Inr \<lparr>fc_chunk_size = cb_chunk_size b, fc_mode = m\<rparr>))"

text \<open>\<open>generate\<close>: the two draws of the OS CSPRNG are arguments, each bytes or an error text.\<close>

definition generate ::
    "string + bytes \<Rightarrow> string + bytes \<Rightarrow> cipher \<Rightarrow> u32 \<Rightarrow> crypto_error + file_cipher" where
  "generate key_draw nonce_draw c chunk_size =
     (if \<not> is_encrypting c then Inr \<lparr>fc_chunk_size = chunk_size, fc_mode = Plain\<rparr>
      else
        rbind (map_err NoRandomness key_draw) (\<lambda>key.
        rbind (map_err NoRandomness nonce_draw) (\<lambda>nonce_base.
          Inr \<lparr>fc_chunk_size = chunk_size, fc_mode = Encrypted c key nonce_base\<rparr>)))"

definition with_fixed :: "cipher \<Rightarrow> bytes \<Rightarrow> bytes \<Rightarrow> u32 \<Rightarrow> file_cipher" where
  "with_fixed c key nonce_base chunk_size =
     \<lparr>fc_chunk_size = chunk_size,
      fc_mode = (if is_encrypting c then Encrypted c key nonce_base else Plain)\<rparr>"

definition to_event_block :: "file_cipher \<Rightarrow> u64 \<Rightarrow> chunked_block" where
  "to_event_block fc file_size =
     (let (c, key, nonce_base) =
        (case fc_mode fc of
           Plain \<Rightarrow> (Cipher_None, None, None)
         | Encrypted c key nonce_base \<Rightarrow> (c, Some key, Some nonce_base))
      in \<lparr>cb_v = CONVENTION_V, cb_cipher = c, cb_key = key, cb_nonce_base = nonce_base,
          cb_chunk_size = fc_chunk_size fc, cb_file_size = Some file_size, cb_name = None,
          cb_mimetype = None, cb_sha256 = None\<rparr>)"

definition fc_cipher :: "file_cipher \<Rightarrow> cipher" where
  "fc_cipher fc = (case fc_mode fc of Plain \<Rightarrow> Cipher_None | Encrypted c _ _ \<Rightarrow> c)"

definition fc_nonce_base :: "file_cipher \<Rightarrow> bytes option" where
  "fc_nonce_base fc = (case fc_mode fc of Plain \<Rightarrow> None | Encrypted _ _ nonce_base \<Rightarrow> Some nonce_base)"

definition build_nonce :: "bytes \<Rightarrow> u32 \<Rightarrow> bytes" where
  "build_nonce nonce_base index = nonce_base @ u32_to_be index"

definition seal_with_index ::
    "aead_lib \<Rightarrow> file_cipher \<Rightarrow> u32 \<Rightarrow> bytes \<Rightarrow> bytes \<Rightarrow> crypto_error + bytes" where
  "seal_with_index A fc index aad plain =
     (case fc_mode fc of
        Plain \<Rightarrow> Inr plain
      | Encrypted c key nonce_base \<Rightarrow> cipher_seal A c key (build_nonce nonce_base index) aad plain)"

definition open_with_index ::
    "aead_lib \<Rightarrow> file_cipher \<Rightarrow> u32 \<Rightarrow> bytes \<Rightarrow> bytes \<Rightarrow> bytes option" where
  "open_with_index A fc index aad sealed =
     (case fc_mode fc of
        Plain \<Rightarrow> Some sealed
      | Encrypted c key nonce_base \<Rightarrow> cipher_open A c key (build_nonce nonce_base index) aad sealed)"

definition sealed_len :: "file_cipher \<Rightarrow> nat \<Rightarrow> nat" where
  "sealed_len fc plain_len =
     (case fc_mode fc of Plain \<Rightarrow> plain_len | Encrypted _ _ _ \<Rightarrow> plain_len + TAG_LEN)"

definition seal_chunk :: "aead_lib \<Rightarrow> file_cipher \<Rightarrow> u32 \<Rightarrow> bytes \<Rightarrow> crypto_error + bytes" where
  "seal_chunk A fc index plain =
     (if index > MAX_CHUNK_INDEX then Inl (IndexReserved index)
      else if length plain > unat (fc_chunk_size fc)
        then Inl (ChunkTooLong (fc_chunk_size fc) (length plain))
      else seal_with_index A fc index CHUNK_AAD plain)"

definition open_chunk ::
    "aead_lib \<Rightarrow> file_cipher \<Rightarrow> u32 \<Rightarrow> bytes \<Rightarrow> nat \<Rightarrow> crypto_error + bytes" where
  "open_chunk A fc index sealed expected_len =
     (if index > MAX_CHUNK_INDEX then Inl (IndexReserved index)
      else
        let expected_sealed = sealed_len fc expected_len in
        if length sealed \<noteq> expected_sealed
          then Inl (LengthMismatch expected_sealed (length sealed))
        else
          rbind (ok_or TagInvalid (open_with_index A fc index CHUNK_AAD sealed)) (\<lambda>plain.
            if length plain \<noteq> expected_len
              then Inl (LengthMismatch expected_len (length plain))
            else Inr plain))"

definition seal_description ::
    "aead_lib \<Rightarrow> file_cipher \<Rightarrow> description_slot \<Rightarrow> bytes \<Rightarrow> crypto_error + bytes" where
  "seal_description A fc slot json = seal_with_index A fc (nonce_index slot) DESCRIPTION_AAD json"

definition open_description ::
    "aead_lib \<Rightarrow> file_cipher \<Rightarrow> description_slot \<Rightarrow> bytes \<Rightarrow> crypto_error + bytes" where
  "open_description A fc slot data =
     ok_or TagInvalid (open_with_index A fc (nonce_index slot) DESCRIPTION_AAD data)"

section \<open>The chunk layout\<close>

text \<open>\<open>u64::div_ceil\<close> (no overflow: the quotient plus one is taken, never the sum).\<close>

definition div_ceil :: "u64 \<Rightarrow> u64 \<Rightarrow> u64" where
  "div_ceil a b = (if a mod b = 0 then a div b else a div b + 1)"

definition chunk_count :: "u64 \<Rightarrow> u32 \<Rightarrow> u32 option" where
  "chunk_count file_size chunk_size =
     (if chunk_size = 0 then None
      else
        let count = div_ceil file_size (ucast chunk_size) in
        if count > ucast MAX_CHUNK_INDEX + 1 then None else Some (ucast count))"

definition expected_plain_len :: "u64 \<Rightarrow> u32 \<Rightarrow> u32 \<Rightarrow> nat option" where
  "expected_plain_len file_size chunk_size index =
     Option.bind (chunk_count file_size chunk_size) (\<lambda>count.
       if index \<ge> count then None
       else
         let start = (ucast index :: u64) * ucast chunk_size;
             remaining = file_size - start
         in Some (unat (min remaining (ucast chunk_size))))"

record seek_target =
  st_index :: u32
  st_offset :: nat

definition locate :: "u64 \<Rightarrow> u32 \<Rightarrow> seek_target option" where
  "locate pos chunk_size =
     (if chunk_size = 0 then None
      else
        let index = pos div ucast chunk_size in
        if index > ucast MAX_CHUNK_INDEX then None
        else Some \<lparr>st_index = ucast index, st_offset = unat (pos mod ucast chunk_size)\<rparr>)"

definition choose_chunk_size :: "u64 \<Rightarrow> u32" where
  "choose_chunk_size file_size =
     (if file_size < LARGE_FILE_THRESHOLD then SMALL_CHUNK_SIZE else LARGE_CHUNK_SIZE)"

fun choose_stream_chunk_size :: "link \<Rightarrow> u32" where
  "choose_stream_chunk_size MobileOrUnknown = SMALL_CHUNK_SIZE"
| "choose_stream_chunk_size WifiOrWired = LARGE_CHUNK_SIZE"

section \<open>The layout, in natural numbers\<close>

lemma unat_div_ceil:
  assumes "b \<noteq> 0"
  shows "unat (div_ceil a b) = ceil_div (unat a) (unat b)"
proof -
  have b: "0 < unat b" using assms by (simp add: unat_gt_0)
  have "unat (a div b) + 1 < 2 ^ 64" if "a mod b \<noteq> 0"
  proof -
    have "unat a mod unat b \<noteq> 0" using that by (simp add: unat_mod_distrib word_unat_eq_iff)
    then have "unat a div unat b < unat a"
      using b by (cases "unat b = 1") (auto intro!: div_less_dividend gr0I)
    then show ?thesis using u64_lt [of a] by (simp add: unat_div_distrib)
  qed
  then have "a mod b \<noteq> 0 \<Longrightarrow> unat (a div b + 1) = unat (a div b) + 1"
    by (simp add: unat_word_ariths)
  then show ?thesis
    using b by (simp add: div_ceil_def ceil_div_alt unat_div_distrib unat_mod_distrib word_unat_eq_iff)
qed

lemma chunk_count_Some:
  "chunk_count fs cs = Some n \<longleftrightarrow>
     cs \<noteq> 0 \<and> ceil_div (unat fs) (unat cs) \<le> 0xFFFFFFFE \<and> unat n = ceil_div (unat fs) (unat cs)"
proof (cases "cs = 0")
  case True
  then show ?thesis by (simp add: chunk_count_def)
next
  case False
  then have c: "unat (div_ceil fs (ucast cs)) = ceil_div (unat fs) (unat cs)"
    by (subst unat_div_ceil) (auto simp: word_unat_eq_iff)
  have "unat (ucast MAX_CHUNK_INDEX + 1 :: u64) = 0xFFFFFFFE" by (simp add: MAX_CHUNK_INDEX_def)
  with False c show ?thesis
    by (auto simp: chunk_count_def Let_def word_less_nat_alt word_unat_eq_iff unat_narrow)
qed

lemma expected_plain_len_Some:
  "expected_plain_len fs cs i = Some l \<longleftrightarrow>
     (\<exists>n. chunk_count fs cs = Some n \<and> unat i < unat n
        \<and> l = min (unat cs) (unat fs - unat i * unat cs))"
proof (cases "chunk_count fs cs")
  case None
  then show ?thesis by (simp add: expected_plain_len_def)
next
  case (Some n)
  have "unat (min (fs - ucast i * ucast cs) (ucast cs)) = min (unat cs) (unat fs - unat i * unat cs)"
    if "unat i < unat n"
  proof -
    have "unat i * unat cs < unat fs"
      using Some that by (auto simp: chunk_count_Some ceil_div_less_iff unat_gt_0 dest!: ceil_div_less_iff [THEN iffD1, rotated])
    then have "unat (fs - ucast i * ucast cs) = unat fs - unat i * unat cs"
      by (subst unat_sub) (simp_all add: word_le_nat_alt unat_u64_mult_u32)
    then show ?thesis by (simp add: min_def word_le_nat_alt)
  qed
  with Some show ?thesis
    by (auto simp: expected_plain_len_def word_le_nat_alt Let_def)
qed

text \<open>The chunks of a file as the uploader cuts it.\<close>

abbreviation chunk_of :: "bytes \<Rightarrow> u32 \<Rightarrow> nat \<Rightarrow> bytes" where
  "chunk_of file cs i \<equiv> window (unat cs) file i"

lemma unat_length: "length file < 2 ^ 64 \<Longrightarrow> unat (of_nat (length file) :: u64) = length file"
  by (simp add: unat_of_nat)

text \<open>
  The chunk layout is a partition: when \<open>chunk_count\<close> accepts a file's size, cutting the file
  at multiples of \<open>chunk_size\<close> gives exactly that many non-empty pieces of at most \<open>chunk_size\<close>
  bytes, \<open>expected_plain_len\<close> is the length of each piece and refuses every other index, and
  the pieces in order are the file.
\<close>

lemma chunk_layout_partition:
  assumes "length file < 2 ^ 64" and "chunk_count (of_nat (length file)) cs = Some n"
  shows "concat (map (chunk_of file cs) [0..<unat n]) = file
    \<and> (\<forall>i. if unat i < unat n
          then expected_plain_len (of_nat (length file)) cs i = Some (length (chunk_of file cs (unat i)))
               \<and> 0 < length (chunk_of file cs (unat i)) \<and> length (chunk_of file cs (unat i)) \<le> unat cs
          else expected_plain_len (of_nat (length file)) cs i = None)
    \<and> n \<le> MAX_CHUNK_INDEX + 1"
proof -
  note L = unat_length [OF assms(1)]
  have n: "unat n = ceil_div (length file) (unat cs)" "unat n \<le> 0xFFFFFFFE" and cs: "0 < unat cs"
    using assms(2) by (auto simp: chunk_count_Some L unat_gt_0)
  have "length file \<le> unat n * unat cs" using cs by (simp add: n le_ceil_div_mult)
  then have glue: "concat (map (chunk_of file cs) [0..<unat n]) = file"
    by (simp add: concat_windows)
  have piece: "if unat i < unat n
      then expected_plain_len (of_nat (length file)) cs i = Some (length (chunk_of file cs (unat i)))
           \<and> 0 < length (chunk_of file cs (unat i)) \<and> length (chunk_of file cs (unat i)) \<le> unat cs
      else expected_plain_len (of_nat (length file)) cs i = None" for i
  proof (cases "unat i < unat n")
    case True
    then have "unat i * unat cs < length file" using cs by (simp add: n ceil_div_less_iff)
    then show ?thesis using True assms(2) cs
      by (auto simp: expected_plain_len_Some L length_window)
  next
    case False
    then show ?thesis
      using assms(2) expected_plain_len_Some [of "of_nat (length file)" cs i] by force
  qed
  have "n \<le> MAX_CHUNK_INDEX + 1"
    using n(2) by (simp add: word_le_nat_alt MAX_CHUNK_INDEX_def)
  with glue piece show ?thesis by blast
qed

theorem chunk_layout_partition_witness:
  "concat (map (chunk_of [1, 2, 3, 4, 5] 2) [0..<3]) = [1, 2, 3, 4, 5]
   \<and> expected_plain_len 5 2 2 = Some 1"
proof -
  have "chunk_count (of_nat (length [1, 2, 3, 4, 5 :: byte])) 2 = Some 3"
    by (simp add: chunk_count_Some ceil_div_def)
  from chunk_layout_partition [OF _ this] show ?thesis
    by (auto simp: window_def dest!: spec [of _ 2])
qed

text \<open>
  Seek arithmetic: for a position inside the file, \<open>locate\<close> names the chunk that covers it
  and the offset inside that chunk, the chunk exists, and the byte at that offset of the chunk is
  the byte of the file at the position.
\<close>

lemma locate_covers:
  assumes "length file < 2 ^ 64" and "chunk_count (of_nat (length file)) cs = Some n"
    and "unat pos < length file"
  shows "\<exists>t. locate pos cs = Some t \<and> unat (st_index t) < unat n
      \<and> unat (st_index t) * unat cs + st_offset t = unat pos
      \<and> st_offset t < length (chunk_of file cs (unat (st_index t)))
      \<and> chunk_of file cs (unat (st_index t)) ! st_offset t = file ! unat pos"
proof -
  note L = unat_length [OF assms(1)]
  let ?q = "unat pos div unat cs" and ?r = "unat pos mod unat cs"
  have n: "unat n = ceil_div (length file) (unat cs)" "unat n \<le> 0xFFFFFFFE" and cs: "0 < unat cs"
    using assms(2) by (auto simp: chunk_count_Some L unat_gt_0)
  have eq: "?q * unat cs + ?r = unat pos" by simp
  then have "?q * unat cs < length file" using assms(3) by linarith
  then have q: "?q < unat n" using cs by (simp add: n ceil_div_less_iff)
  have r: "?r < unat cs" using cs by simp
  let ?t = "\<lparr>st_index = ucast (pos div ucast cs), st_offset = unat (pos mod ucast cs)\<rparr>"
  have t: "unat (st_index ?t) = ?q" "st_offset ?t = ?r"
    using q n(2) by (simp_all add: unat_narrow unat_div_distrib unat_mod_distrib)
  have loc: "locate pos cs = Some ?t"
    using cs q n(2) by (auto simp: locate_def Let_def MAX_CHUNK_INDEX_def word_less_nat_alt
        unat_div_distrib unat_gt_0)
  have len: "?r < length (chunk_of file cs ?q)"
    unfolding length_window using r eq assms(3) by linarith
  have "chunk_of file cs ?q ! ?r = file ! unat pos"
    using len eq assms(3) r by (simp add: window_def)
  with loc t q eq len show ?thesis by (intro exI [of _ ?t]) simp
qed

theorem locate_covers_witness:
  "\<exists>t. locate 3 2 = Some t \<and> unat (st_index t) < 3
      \<and> unat (st_index t) * 2 + st_offset t = 3
      \<and> chunk_of [1, 2, 3, 4, 5] 2 (unat (st_index t)) ! st_offset t = (4 :: byte)"
proof -
  have "chunk_count (of_nat (length [1, 2, 3, 4, 5 :: byte])) 2 = Some 3"
    by (simp add: chunk_count_Some ceil_div_def)
  from locate_covers [OF _ this, of 3] show ?thesis by auto
qed

section \<open>Sealing and opening\<close>

text \<open>The invariant of the type: an encrypting mode has a real cipher and arrays of the right size.\<close>

definition wf_file_cipher :: "file_cipher \<Rightarrow> bool" where
  "wf_file_cipher fc \<longleftrightarrow>
     (case fc_mode fc of Plain \<Rightarrow> True
      | Encrypted c key nonce_base \<Rightarrow>
          is_encrypting c \<and> length key = KEY_LEN \<and> length nonce_base = BLOCK_NONCE_BASE_LEN)"

lemma open_with_index_iff:
  "aead_ok A \<Longrightarrow> open_with_index A fc i aad s = Some p \<longleftrightarrow> seal_with_index A fc i aad p = Inr s"
  by (auto simp: open_with_index_def seal_with_index_def cipher_open_seal split: mode.splits)

lemma seal_with_index_length:
  "aead_ok A \<Longrightarrow> wf_file_cipher fc \<Longrightarrow> seal_with_index A fc i aad p = Inr s \<Longrightarrow>
    length s = sealed_len fc (length p)"
  by (auto simp: seal_with_index_def sealed_len_def wf_file_cipher_def split: mode.splits
      dest: cipher_seal_length)

lemma build_nonce_inject:
  "length a = length b \<Longrightarrow> build_nonce a i = build_nonce b j \<longleftrightarrow> a = b \<and> i = j"
  by (auto simp: build_nonce_def be32.enc_inject)

lemma open_chunk_seal_chunk:
  assumes "aead_ok A" and "wf_file_cipher fc" and "l \<le> unat (fc_chunk_size fc)"
  shows "open_chunk A fc i s l = Inr p \<longleftrightarrow> seal_chunk A fc i p = Inr s \<and> length p = l"
  using assms seal_with_index_length [OF assms(1,2), of i CHUNK_AAD p s]
  by (auto simp: open_chunk_def seal_chunk_def Let_def rbind_eq_Inr open_with_index_iff
      split: if_splits)

text \<open>
  C2. A chunk opens exactly to what was sealed: with an AEAD whose decryption accepts only its own
  encryptions, \<open>open_chunk\<close> of bytes \<open>s\<close> at index \<open>i\<close> with an expected length within
  \<open>chunk_size\<close> yields \<open>p\<close> if and only if \<open>p\<close> has that length and \<open>seal_chunk\<close> of \<open>p\<close> at
  that index is \<open>s\<close>.
\<close>

theorem open_chunk_iff_seal_chunk:
  assumes "aead_ok A" and "wf_file_cipher fc" and "l \<le> unat (fc_chunk_size fc)"
  shows "open_chunk A fc i s l = Inr p \<longleftrightarrow> seal_chunk A fc i p = Inr s \<and> length p = l"
  using assms by (rule open_chunk_seal_chunk)

text \<open>A stand-in AEAD for the witnesses: the tag is the nonce with four bytes of the key.\<close>

definition demo_aead :: aead_lib where
  "demo_aead =
     \<lparr>lib_encrypt = (\<lambda>c k n a p.
        if length k = 32 \<and> length n = 12 then Some (p @ n @ take 4 k) else None),
      lib_decrypt = (\<lambda>c k n a s.
        if length k = 32 \<and> length n = 12 \<and> 16 \<le> length s
           \<and> drop (length s - 16) s = n @ take 4 k
        then Some (take (length s - 16) s) else None)\<rparr>"

lemma demo_aead_ok: "aead_ok demo_aead"
proof -
  have "lib_decrypt demo_aead c k n a s = Some p \<longleftrightarrow> lib_encrypt demo_aead c k n a p = Some s"
    for c k n a p s
  proof
    assume "lib_decrypt demo_aead c k n a s = Some p"
    then show "lib_encrypt demo_aead c k n a p = Some s"
      using append_take_drop_id [of "length s - 16" s]
      by (auto simp: demo_aead_def simp del: append_take_drop_id split: if_splits)
  qed (auto simp: demo_aead_def split: if_splits)
  then show ?thesis
    by (auto simp: aead_ok_def) (auto simp: demo_aead_def TAG_LEN_def split: if_splits)
qed

definition demo_cipher :: file_cipher where
  "demo_cipher = with_fixed ChaCha20Poly1305 (replicate 32 7) [1, 2, 3, 4, 5, 6, 7, 8] 4"

lemma demo_cipher_wf: "wf_file_cipher demo_cipher"
  by (simp add: wf_file_cipher_def demo_cipher_def with_fixed_def is_encrypting_def KEY_LEN_def
      BLOCK_NONCE_BASE_LEN_def)

lemma fc_chunk_size_demo_cipher [simp]: "fc_chunk_size demo_cipher = 4"
  by (simp add: demo_cipher_def with_fixed_def)

theorem open_chunk_iff_seal_chunk_witness:
  "open_chunk demo_aead demo_cipher 2
     ([10, 11, 12, 1, 2, 3, 4, 5, 6, 7, 8, 0, 0, 0, 2, 7, 7, 7, 7]) 3 = Inr [10, 11, 12]"
proof -
  have seal: "seal_chunk demo_aead demo_cipher 2 [10, 11, 12] =
      Inr [10, 11, 12, 1, 2, 3, 4, 5, 6, 7, 8, 0, 0, 0, 2, 7, 7, 7, 7]"
    by (simp add: seal_chunk_def MAX_CHUNK_INDEX_def seal_with_index_def demo_cipher_def with_fixed_def
        is_encrypting_def cipher_seal_def demo_aead_def build_nonce_def byte_eval)
  have "(3 :: nat) \<le> unat (fc_chunk_size demo_cipher)" by simp
  from open_chunk_iff_seal_chunk [OF demo_aead_ok demo_cipher_wf this] seal show ?thesis by simp
qed



text \<open>
  The mode follows the block: \<open>from_event_block\<close> succeeds exactly on the blocks
  \<open>check_as_event_block\<close> accepts; the mode it builds is the plain one exactly when the block's
  cipher is \<open>none\<close> (a block that names a cipher can never be read or written in the clear), and
  writing the parameters back with \<open>to_event_block\<close> gives a block from which they are read again.
\<close>

lemma from_event_block_mode:
  assumes "wf_file_cipher fc" and "fc_chunk_size fc \<noteq> 0"
  shows "((\<exists>fc'. from_event_block b = Inr fc') \<longleftrightarrow> check_as_event_block b = Inr ())
    \<and> (\<forall>fc'. from_event_block b = Inr fc' \<longrightarrow>
          (fc_mode fc' = Plain \<longleftrightarrow> cb_cipher b = Cipher_None)
          \<and> fc_cipher fc' = cb_cipher b \<and> fc_nonce_base fc' = cb_nonce_base b
          \<and> fc_chunk_size fc' = cb_chunk_size b \<and> (wf_block b \<longrightarrow> wf_file_cipher fc'))
    \<and> from_event_block (to_event_block fc fs) = Inr fc"
proof -
  have "\<exists>fc'. from_event_block b = Inr fc'" if "check_as_event_block b = Inr ()"
    using that that [unfolded check_as_event_block_Inr]
    by (cases "cb_cipher b"; cases "cb_key b"; cases "cb_nonce_base b")
      (auto simp: from_event_block_def is_encrypting_def)
  moreover have "check_as_event_block b = Inr ()" if "from_event_block b = Inr fc'" for fc'
    using that by (auto simp: from_event_block_def rbind_eq_Inr)
  moreover have "(fc_mode fc' = Plain \<longleftrightarrow> cb_cipher b = Cipher_None)
      \<and> fc_cipher fc' = cb_cipher b \<and> fc_nonce_base fc' = cb_nonce_base b
      \<and> fc_chunk_size fc' = cb_chunk_size b \<and> (wf_block b \<longrightarrow> wf_file_cipher fc')"
    if "from_event_block b = Inr fc'" for fc'
    using that
    by (cases "cb_cipher b"; cases "cb_key b"; cases "cb_nonce_base b")
      (auto simp: from_event_block_def rbind_eq_Inr fc_cipher_def fc_nonce_base_def
        wf_file_cipher_def wf_block_def is_encrypting_def)
  moreover have "from_event_block (to_event_block fc fs) = Inr fc"
  proof (cases "fc_mode fc")
    case Plain
    then show ?thesis using assms
      by (auto simp: to_event_block_def from_event_block_def check_as_event_block_def
          check_shared_rules_def is_encrypting_def intro!: file_cipher.equality)
  next
    case (Encrypted c k n)
    then show ?thesis using assms
      by (cases c) (auto simp: to_event_block_def from_event_block_def check_as_event_block_def
          check_shared_rules_def is_encrypting_def wf_file_cipher_def intro!: file_cipher.equality)
  qed
  ultimately show ?thesis by blast
qed

theorem from_event_block_mode_witness:
  "from_event_block (to_event_block demo_cipher 9) = Inr demo_cipher"
proof -
  have "fc_chunk_size demo_cipher \<noteq> 0" by simp
  from from_event_block_mode [OF demo_cipher_wf this, of undefined 9] show ?thesis by blast
qed

end
