(* ===== verification/Sdk_Error.thy ===== *)
theory Sdk_Error
  imports Chunk_Block Wire_Pack
begin

text \<open>
  \<open>crates/wbf-sdk/src/error.rs\<close>, \<open>error_code.rs\<close> and \<open>media_kind.rs\<close>: the SDK's error type
  without its texts and its JSON meta (the decisions modelled here read only the code), the table of server
  error codes, the media formats and the verification results.
\<close>

datatype sdk_error =
    Usage
  | Server "u64 option"    \<comment> \<open>the \<open>code_id\<close> of the wbf error pack\<close>
  | Integrity
  | Network
  | Protocol
  | Io
  | Timeout

definition sdk_of_block_error :: "block_error \<Rightarrow> sdk_error" where
  "sdk_of_block_error e = Integrity"

definition sdk_of_crypto_error :: "crypto_error \<Rightarrow> sdk_error" where
  "sdk_of_crypto_error e = Integrity"

definition sdk_of_decode_error :: "decode_error \<Rightarrow> sdk_error" where
  "sdk_of_decode_error e =
     (case e of MetaCrc _ _ \<Rightarrow> Integrity | DataCrc _ _ \<Rightarrow> Integrity | _ \<Rightarrow> Protocol)"

definition sdk_of_encode_error :: "encode_error \<Rightarrow> sdk_error" where
  "sdk_of_encode_error e = Usage"

section \<open>Server error codes\<close>

datatype wbf_error_code = Err_UnsupportedVersion | Err_Corrupt | Err_UnknownKind | Err_Unsupported
  | Err_TooLarge | Err_InvalidRequest | Err_Unauthorized | Err_Forbidden | Err_RateLimited
  | Err_TooManyConnections | Err_TooManyConnectionsFromAddress | Err_NotFound | Err_Conflict
  | Err_OutOfOrder | Err_Truncated | Err_Superseded | Err_RoomDevicesChanged | Err_Internal

fun code_id :: "wbf_error_code \<Rightarrow> nat" where
  "code_id Err_UnsupportedVersion = 1001"
| "code_id Err_Corrupt = 1002"
| "code_id Err_UnknownKind = 1101"
| "code_id Err_Unsupported = 1102"
| "code_id Err_TooLarge = 1103"
| "code_id Err_InvalidRequest = 1201"
| "code_id Err_Unauthorized = 1301"
| "code_id Err_Forbidden = 1302"
| "code_id Err_RateLimited = 1401"
| "code_id Err_TooManyConnections = 1402"
| "code_id Err_TooManyConnectionsFromAddress = 1403"
| "code_id Err_NotFound = 1501"
| "code_id Err_Conflict = 1502"
| "code_id Err_OutOfOrder = 1503"
| "code_id Err_Truncated = 1504"
| "code_id Err_Superseded = 1505"
| "code_id Err_RoomDevicesChanged = 1506"
| "code_id Err_Internal = 1901"

definition code_from_id :: "u64 \<Rightarrow> wbf_error_code option" where
  "code_from_id w =
     (let n = unat w in
      if n = 1001 then Some Err_UnsupportedVersion
      else if n = 1002 then Some Err_Corrupt
      else if n = 1101 then Some Err_UnknownKind
      else if n = 1102 then Some Err_Unsupported
      else if n = 1103 then Some Err_TooLarge
      else if n = 1201 then Some Err_InvalidRequest
      else if n = 1301 then Some Err_Unauthorized
      else if n = 1302 then Some Err_Forbidden
      else if n = 1401 then Some Err_RateLimited
      else if n = 1402 then Some Err_TooManyConnections
      else if n = 1403 then Some Err_TooManyConnectionsFromAddress
      else if n = 1501 then Some Err_NotFound
      else if n = 1502 then Some Err_Conflict
      else if n = 1503 then Some Err_OutOfOrder
      else if n = 1504 then Some Err_Truncated
      else if n = 1505 then Some Err_Superseded
      else if n = 1506 then Some Err_RoomDevicesChanged
      else if n = 1901 then Some Err_Internal
      else None)"

definition wbf_code :: "sdk_error \<Rightarrow> wbf_error_code option" where
  "wbf_code e = (case e of Server (Some c) \<Rightarrow> code_from_id c | _ \<Rightarrow> None)"

lemma code_from_id_iff: "code_from_id w = Some c \<longleftrightarrow> unat w = code_id c"
  by (cases c) (auto simp: code_from_id_def Let_def)

section \<open>Media kinds and verification\<close>

datatype media_kind = WbfChunked | MatrixEncrypted | MatrixPlain

datatype verification = Unknown | Matched | Mismatched

fun kind_to_number :: "media_kind \<Rightarrow> int" where
  "kind_to_number WbfChunked = 1"
| "kind_to_number MatrixEncrypted = 2"
| "kind_to_number MatrixPlain = 3"

definition kind_from_number :: "int \<Rightarrow> media_kind option" where
  "kind_from_number n =
     (if n = 1 then Some WbfChunked else if n = 2 then Some MatrixEncrypted
      else if n = 3 then Some MatrixPlain else None)"

definition is_trust_gated_on_hash :: "media_kind \<Rightarrow> bool" where
  "is_trust_gated_on_hash k \<longleftrightarrow> k = MatrixEncrypted"

fun verification_to_number :: "verification \<Rightarrow> int" where
  "verification_to_number Unknown = 0"
| "verification_to_number Matched = 1"
| "verification_to_number Mismatched = 2"

definition verification_from_number :: "int \<Rightarrow> verification option" where
  "verification_from_number n =
     (if n = 0 then Some Unknown else if n = 1 then Some Matched
      else if n = 2 then Some Mismatched else None)"

text \<open>\<open>str::eq_ignore_ascii_case\<close>.\<close>

definition ascii_lower :: "char \<Rightarrow> char" where
  "ascii_lower c =
     (if 65 \<le> (of_char c :: nat) \<and> (of_char c :: nat) \<le> 90
      then char_of ((of_char c :: nat) + 32) else c)"

definition eq_ignore_ascii_case :: "string \<Rightarrow> string \<Rightarrow> bool" where
  "eq_ignore_ascii_case a b \<longleftrightarrow> map ascii_lower a = map ascii_lower b"

definition verification_of_hex :: "string option \<Rightarrow> string \<Rightarrow> verification" where
  "verification_of_hex expected actual =
     (case expected of
        None \<Rightarrow> Unknown
      | Some e \<Rightarrow> if eq_ignore_ascii_case e actual then Matched else Mismatched)"

lemma kind_numbers: "kind_from_number n = Some k \<longleftrightarrow> n = kind_to_number k"
  by (cases k) (auto simp: kind_from_number_def)

lemma verification_numbers: "verification_from_number n = Some v \<longleftrightarrow> n = verification_to_number v"
  by (cases v) (auto simp: verification_from_number_def)

end
