(* ===== verification/Media_Pool.thy ===== *)
theory Media_Pool
  imports Sdk_Error
begin

text \<open>
  \<open>crates/wbf-sdk/src/media_pool.rs\<close>: the encrypted store of plaintext files.  A file on disk is
  its bytes; XChaCha20-Poly1305, BLAKE3, SHA-256 and hexadecimal printing are parameters
  (\<open>pool_lib\<close>), a streaming hasher is the bytes it has been fed.  \<open>u64\<close> lengths and offsets are
  natural numbers (they count bytes of one file); operating system failures of a read or a
  write are not modelled, short files are.
\<close>

section \<open>Files as bytes\<close>

definition file_read_exact :: "bytes \<Rightarrow> nat \<Rightarrow> nat \<Rightarrow> bytes option" where
  "file_read_exact f off n = (if off + n \<le> length f then Some (take n (drop off f)) else None)"

definition file_write_at :: "bytes \<Rightarrow> nat \<Rightarrow> bytes \<Rightarrow> bytes" where
  "file_write_at f off d =
     take off f @ replicate (off - length f) 0 @ d @ drop (off + length d) f"

definition file_set_len :: "bytes \<Rightarrow> nat \<Rightarrow> bytes" where
  "file_set_len f n = take n f @ replicate (n - length f) 0"

section \<open>Third-party functions\<close>

record pool_lib =
  x_encrypt :: "bytes \<Rightarrow> bytes \<Rightarrow> bytes \<Rightarrow> bytes \<Rightarrow> bytes option"  \<comment> \<open>key, nonce, AAD, message\<close>
  x_decrypt :: "bytes \<Rightarrow> bytes \<Rightarrow> bytes \<Rightarrow> bytes \<Rightarrow> bytes option"
  h_blake3 :: "bytes \<Rightarrow> bytes"
  h_sha256 :: "bytes \<Rightarrow> bytes"
  to_hex :: "bytes \<Rightarrow> string"

text \<open>
  Documented behaviour the pool relies on: decryption accepts exactly the encryptions, the tag
  adds 16 bytes, encryption fails only on messages far longer than a segment.
\<close>

definition pool_lib_ok :: "pool_lib \<Rightarrow> bool" where
  "pool_lib_ok L \<longleftrightarrow>
     (\<forall>k n a m s. x_decrypt L k n a s = Some m \<longleftrightarrow> x_encrypt L k n a m = Some s) \<and>
     (\<forall>k n a m s. x_encrypt L k n a m = Some s \<longrightarrow> length s = length m + 16) \<and>
     (\<forall>k n a m. length m < 2 ^ 32 + 8 \<longrightarrow> (\<exists>s. x_encrypt L k n a m = Some s))"

section \<open>The format\<close>

definition MAGIC :: bytes where "MAGIC = map (of_nat \<circ> of_char) ''WBFP''"
definition POOL_FORMAT_VERSION :: byte where "POOL_FORMAT_VERSION = 2"
definition HEADER_LEN :: nat where "HEADER_LEN = 32"
definition POOL_NONCE_BASE_LEN :: nat where "POOL_NONCE_BASE_LEN = 16"
definition POOL_TAG_LEN :: nat where "POOL_TAG_LEN = 16"
definition LEN_FIELD :: nat where "LEN_FIELD = 4"
definition AAD_PREFIX :: bytes where "AAD_PREFIX = map (of_nat \<circ> of_char) ''wbf-media-pool v2''"
definition SEGMENT_SIZE :: u32 where "SEGMENT_SIZE = 65536"

record header =
  hd_segment_size :: u32
  hd_nonce_base :: bytes
  hd_owner :: u32

definition owner_of :: "pool_lib \<Rightarrow> bytes \<Rightarrow> u32" where
  "owner_of L mxc = u32_from_le (take 4 (h_blake3 L mxc))"

definition encode_header :: "header \<Rightarrow> bytes" where
  "encode_header h =
     MAGIC @ [POOL_FORMAT_VERSION] @ [0, 0, 0] @ u32_to_le (hd_segment_size h)
     @ hd_nonce_base h @ u32_to_le (hd_owner h)"

definition read_header :: "bytes \<Rightarrow> sdk_error + header" where
  "read_header f =
     rbind (ok_or Io (file_read_exact f 0 HEADER_LEN)) (\<lambda>bytes.
     if take 4 bytes \<noteq> MAGIC then Inl Io
     else if bytes ! 4 \<noteq> POOL_FORMAT_VERSION then Inl Io
     else
       let segment_size = u32_from_le (take 4 (drop 8 bytes)) in
       if segment_size = 0 then Inl Io
       else Inr \<lparr>hd_segment_size = segment_size,
                 hd_nonce_base = take POOL_NONCE_BASE_LEN (drop 12 bytes),
                 hd_owner = u32_from_le (take 4 (drop 28 bytes))\<rparr>)"

definition record_len :: "header \<Rightarrow> nat" where
  "record_len h = LEN_FIELD + unat (hd_segment_size h) + POOL_TAG_LEN"

definition segment_offset :: "header \<Rightarrow> nat \<Rightarrow> nat" where
  "segment_offset h index = HEADER_LEN + index * record_len h"

definition nonce_and_aad :: "header \<Rightarrow> nat \<Rightarrow> bytes \<times> bytes" where
  "nonce_and_aad h index =
     (hd_nonce_base h @ u64_to_le (of_nat index),
      AAD_PREFIX @ hd_nonce_base h @ u64_to_le (of_nat index))"

definition seal_segment :: "pool_lib \<Rightarrow> bytes \<Rightarrow> header \<Rightarrow> nat \<Rightarrow> bytes \<Rightarrow> sdk_error + bytes" where
  "seal_segment L key h index data =
     (let segment_size = unat (hd_segment_size h) in
      if data = [] \<or> length data > segment_size then Inl Io
      else
        let plain = u32_to_le (of_nat (length data)) @ data @ replicate (segment_size - length data) 0;
            (nonce, aad) = nonce_and_aad h index
        in ok_or Io (x_encrypt L key nonce aad plain))"

record opened_segment =
  os_plain :: bytes
  os_len :: nat

definition opened_data :: "opened_segment \<Rightarrow> sdk_error + bytes" where
  "opened_data s = ok_or Io (get_range (os_plain s) LEN_FIELD (LEN_FIELD + os_len s))"

definition open_segment :: "pool_lib \<Rightarrow> bytes \<Rightarrow> header \<Rightarrow> bytes \<Rightarrow> nat \<Rightarrow> sdk_error + opened_segment" where
  "open_segment L key h f index =
     rbind (ok_or Io (file_read_exact f (segment_offset h index) (record_len h))) (\<lambda>sealed.
     let (nonce, aad) = nonce_and_aad h index in
     rbind (ok_or Io (x_decrypt L key nonce aad sealed)) (\<lambda>plain.
     rbind (ok_or Io (map_option (unat \<circ> u32_from_le) (first_chunk 4 plain))) (\<lambda>len.
     if len = 0 \<or> len > unat (hd_segment_size h) then Inl Io
     else Inr \<lparr>os_plain = plain, os_len = len\<rparr>)))"

section \<open>The writer\<close>

text \<open>
  \<open>PoolWriter\<close> without its file: every operation takes the file's bytes and returns them
  changed.  The two hashers are the bytes fed to them.
\<close>

record pool_writer =
  pw_key :: bytes
  pw_header :: header
  pw_name :: string
  pw_segments_written :: nat
  pw_buffer :: bytes
  pw_blake3 :: bytes
  pw_sha256 :: bytes
  pw_plain_len :: nat
  pw_holds_final_segment :: bool

definition writer_new :: "bytes \<Rightarrow> header \<Rightarrow> string \<Rightarrow> pool_writer" where
  "writer_new key h name =
     \<lparr>pw_key = key, pw_header = h, pw_name = name, pw_segments_written = 0, pw_buffer = [],
      pw_blake3 = [], pw_sha256 = [], pw_plain_len = 0, pw_holds_final_segment = False\<rparr>"

definition writer_segment_size :: "pool_writer \<Rightarrow> nat" where
  "writer_segment_size w = unat (hd_segment_size (pw_header w))"

definition sealed_plain_len :: "pool_writer \<Rightarrow> nat" where
  "sealed_plain_len w = pw_segments_written w * writer_segment_size w"

definition writer_hash :: "pool_writer \<Rightarrow> bytes \<Rightarrow> pool_writer" where
  "writer_hash w data =
     w\<lparr>pw_blake3 := pw_blake3 w @ data, pw_sha256 := pw_sha256 w @ data,
       pw_plain_len := pw_plain_len w + length data\<rparr>"

definition rehash_step ::
    "pool_lib \<Rightarrow> bytes \<Rightarrow> nat \<Rightarrow> sdk_error + pool_writer \<Rightarrow> sdk_error + pool_writer" where
  "rehash_step L f kept r =
     rbind r (\<lambda>w.
     rbind (open_segment L (pw_key w) (pw_header w) f kept) (\<lambda>segment.
     rbind (opened_data segment) (\<lambda>data. Inr (writer_hash w data))))"

definition rehash_up_to :: "pool_lib \<Rightarrow> bytes \<Rightarrow> pool_writer \<Rightarrow> nat \<Rightarrow> sdk_error + pool_writer" where
  "rehash_up_to L f w index =
     fold (rehash_step L f) [0..<index]
       (Inr (w\<lparr>pw_blake3 := [], pw_sha256 := [], pw_plain_len := 0, pw_segments_written := index\<rparr>))"

definition truncate_to_written :: "bytes \<Rightarrow> pool_writer \<Rightarrow> bytes" where
  "truncate_to_written f w = file_set_len f (segment_offset (pw_header w) (pw_segments_written w))"

definition seal_buffer :: "pool_lib \<Rightarrow> bytes \<Rightarrow> pool_writer \<Rightarrow> sdk_error + bytes \<times> pool_writer" where
  "seal_buffer L f w =
     (if pw_buffer w = [] then Inr (f, w)
      else
        rbind (seal_segment L (pw_key w) (pw_header w) (pw_segments_written w) (pw_buffer w)) (\<lambda>sealed.
        Inr (file_write_at f (segment_offset (pw_header w) (pw_segments_written w)) sealed,
             w\<lparr>pw_segments_written := pw_segments_written w + 1, pw_buffer := []\<rparr>)))"

text \<open>The loop of \<open>Write::write\<close>; \<open>None\<close> is a loop that never ends (it takes nothing when the
  buffer has no room).\<close>

partial_function (option) write_loop ::
    "pool_lib \<Rightarrow> bytes \<Rightarrow> pool_writer \<Rightarrow> bytes \<Rightarrow> (sdk_error + bytes \<times> pool_writer) option" where
  "write_loop L f w remaining =
     (if remaining = [] then Some (Inr (f, w))
      else
        let room = writer_segment_size w - length (pw_buffer w);
            n = min room (length remaining);
            piece = take n remaining;
            w1 = writer_hash (w\<lparr>pw_buffer := pw_buffer w @ piece\<rparr>) piece
        in if length (pw_buffer w1) = writer_segment_size w
           then (case seal_buffer L f w1 of
                   Inl e \<Rightarrow> Some (Inl e)
                 | Inr (f', w') \<Rightarrow> write_loop L f' w' (drop n remaining))
           else write_loop L f w1 (drop n remaining))"

definition writer_write ::
    "pool_lib \<Rightarrow> bytes \<Rightarrow> pool_writer \<Rightarrow> bytes \<Rightarrow> (sdk_error + bytes \<times> pool_writer) option" where
  "writer_write L f w data =
     (if pw_holds_final_segment w \<and> data \<noteq> [] then Some (Inl Io) else write_loop L f w data)"

text \<open>The loop of \<open>read_sealed\<close>.\<close>

partial_function (option) read_sealed_loop ::
    "pool_lib \<Rightarrow> bytes \<Rightarrow> pool_writer \<Rightarrow> nat \<Rightarrow> nat \<Rightarrow> bytes \<Rightarrow> (sdk_error + bytes) option" where
  "read_sealed_loop L f w position end_pos out =
     (if position < end_pos then
        let segment_size = writer_segment_size w;
            index = position div segment_size
        in case open_segment L (pw_key w) (pw_header w) f index of
             Inl e \<Rightarrow> Some (Inl e)
           | Inr segment \<Rightarrow>
               (case opened_data segment of
                  Inl e \<Rightarrow> Some (Inl e)
                | Inr data \<Rightarrow>
                    let from_off = position - index * segment_size;
                        to_off = min (end_pos - index * segment_size) (os_len segment)
                    in case get_range data from_off to_off of
                         None \<Rightarrow> Some (Inl Io)
                       | Some piece \<Rightarrow>
                           read_sealed_loop L f w (index * segment_size + to_off) end_pos (out @ piece))
      else Some (Inr out))"

definition read_sealed ::
    "pool_lib \<Rightarrow> bytes \<Rightarrow> pool_writer \<Rightarrow> nat \<Rightarrow> nat \<Rightarrow> (sdk_error + bytes) option" where
  "read_sealed L f w start end_pos =
     (if start > end_pos \<or> end_pos > sealed_plain_len w then Some (Inl Usage)
      else read_sealed_loop L f w start end_pos [])"

record finished =
  fin_hash_hex :: string
  fin_sha256_hex :: string
  fin_plain_len :: nat
  fin_segments :: nat
  fin_bytes_on_disk :: nat

definition writer_finish :: "pool_lib \<Rightarrow> bytes \<Rightarrow> pool_writer \<Rightarrow> sdk_error + bytes \<times> finished" where
  "writer_finish L f w =
     (if pw_plain_len w = 0 then Inl Usage
      else
        rbind (seal_buffer L f w) (\<lambda>(f', w').
        Inr (f', \<lparr>fin_hash_hex = to_hex L (h_blake3 L (pw_blake3 w')),
                  fin_sha256_hex = to_hex L (h_sha256 L (pw_sha256 w')),
                  fin_plain_len = pw_plain_len w', fin_segments = pw_segments_written w',
                  fin_bytes_on_disk = length f'\<rparr>)))"

section \<open>Opening a pending file\<close>

text \<open>\<open>create_pending\<close> truncates whatever the pending name held; the nonce base is a CSPRNG draw.\<close>

definition create_pending ::
    "pool_lib \<Rightarrow> bytes \<Rightarrow> sdk_error + bytes \<Rightarrow> string \<Rightarrow> bytes \<Rightarrow> sdk_error + bytes \<times> pool_writer" where
  "create_pending L key nonce_draw name mxc =
     rbind nonce_draw (\<lambda>nonce_base.
     let h = \<lparr>hd_segment_size = SEGMENT_SIZE, hd_nonce_base = nonce_base, hd_owner = owner_of L mxc\<rparr>
     in Inr (encode_header h, writer_new key h name))"

text \<open>The scan of \<open>resume_pending\<close>: \<open>index\<close> runs up to \<open>records\<close> and stops at the first segment that
  does not open, or at a short one.\<close>

function resume_scan ::
    "pool_lib \<Rightarrow> bytes \<Rightarrow> nat \<Rightarrow> nat \<Rightarrow> pool_writer \<Rightarrow> sdk_error + pool_writer" where
  "resume_scan L f records index w =
     (if index < records then
        (case open_segment L (pw_key w) (pw_header w) f index of
           Inl _ \<Rightarrow> Inr w
         | Inr segment \<Rightarrow>
             rbind (opened_data segment) (\<lambda>data.
             let w1 = writer_hash w data in
             if os_len segment = writer_segment_size w1
               then resume_scan L f records (index + 1) (w1\<lparr>pw_segments_written := index + 1\<rparr>)
             else if index + 1 = records
               then Inr (w1\<lparr>pw_buffer := pw_buffer w1 @ data, pw_holds_final_segment := True\<rparr>)
             else rehash_up_to L f w1 index))
      else Inr w)"
  by pat_completeness auto
termination
  by (relation "measure (\<lambda>(L, f, records, index, w). records - index)") auto

declare resume_scan.simps [simp del]

definition resume_pending ::
    "pool_lib \<Rightarrow> bytes \<Rightarrow> bytes option \<Rightarrow> string \<Rightarrow> bytes \<Rightarrow> sdk_error + bytes \<times> pool_writer" where
  "resume_pending L key pending name mxc =
     rbind (ok_or Io pending) (\<lambda>f.
     rbind (read_header f) (\<lambda>h.
     if hd_segment_size h \<noteq> SEGMENT_SIZE then Inl Io
     else if hd_owner h \<noteq> owner_of L mxc then Inl Io
     else
       let w = writer_new key h name;
           on_disk = length f - HEADER_LEN;
           records = on_disk div record_len h
       in rbind (resume_scan L f records 0 w) (\<lambda>w'. Inr (truncate_to_written f w', w'))))"

definition is_current_pending :: "bytes option \<Rightarrow> bool" where
  "is_current_pending pending =
     (case pending of None \<Rightarrow> False | Some f \<Rightarrow> (case read_header f of Inl _ \<Rightarrow> False | Inr _ \<Rightarrow> True))"

section \<open>Complete files\<close>

text \<open>
  The pool directory: complete files by their hash, pending files by their temporary name, and
  the process-wide count of open readers of each complete file.
\<close>

record pool_dir =
  pd_complete :: "string \<Rightarrow> bytes option"
  pd_pending :: "string \<Rightarrow> bytes option"
  pd_seek :: "string \<Rightarrow> bytes option"
  pd_open_readers :: "string \<Rightarrow> nat"

definition is_ascii_hexdigit :: "char \<Rightarrow> bool" where
  "is_ascii_hexdigit c \<longleftrightarrow> (let n = of_char c :: nat in
     48 \<le> n \<and> n \<le> 57 \<or> 65 \<le> n \<and> n \<le> 70 \<or> 97 \<le> n \<and> n \<le> 102)"

definition path_of :: "string \<Rightarrow> sdk_error + string \<times> string" where
  "path_of pool_file =
     (if length pool_file < 4 \<or> \<not> list_all is_ascii_hexdigit pool_file then Inl Usage
      else rbind (ok_or Usage (get_range pool_file 0 2)) (\<lambda>shard. Inr (shard, pool_file)))"

record pool_reader =
  pr_name :: string
  pr_key :: bytes
  pr_header :: header
  pr_file :: bytes
  pr_segments :: nat
  pr_plain_len :: nat
  pr_position :: nat
  pr_loaded :: "(nat \<times> bytes) option"

definition open_read ::
    "pool_lib \<Rightarrow> bytes \<Rightarrow> pool_dir \<Rightarrow> string \<Rightarrow> sdk_error + pool_dir \<times> pool_reader" where
  "open_read L key d pool_file =
     rbind (path_of pool_file) (\<lambda>_.
     rbind (ok_or Io (pd_complete d pool_file)) (\<lambda>f.
     rbind (read_header f) (\<lambda>h.
     let body = length f - HEADER_LEN; record = record_len h in
     if body = 0 \<or> body mod record \<noteq> 0 then Inl Io
     else
       let segments = body div record in
       rbind (open_segment L key h f (segments - 1)) (\<lambda>last_segment.
       Inr (d\<lparr>pd_open_readers := (pd_open_readers d)(pool_file := pd_open_readers d pool_file + 1)\<rparr>,
            \<lparr>pr_name = pool_file, pr_key = key, pr_header = h, pr_file = f, pr_segments = segments,
             pr_plain_len = (segments - 1) * unat (hd_segment_size h) + os_len last_segment,
             pr_position = 0, pr_loaded = None\<rparr>)))))"

definition drop_reader :: "pool_dir \<Rightarrow> pool_reader \<Rightarrow> pool_dir" where
  "drop_reader d r =
     d\<lparr>pd_open_readers := (pd_open_readers d)(pr_name r := pd_open_readers d (pr_name r) - 1)\<rparr>"

text \<open>\<open>adopt\<close>: the existence test opens a reader and drops it at once.\<close>

definition adopt ::
    "pool_lib \<Rightarrow> bytes \<Rightarrow> pool_dir \<Rightarrow> string \<Rightarrow> string \<Rightarrow> sdk_error + pool_dir \<times> bool" where
  "adopt L key d pending_name hash_hex =
     rbind (path_of hash_hex) (\<lambda>_.
     case open_read L key d hash_hex of
       Inr (d1, r) \<Rightarrow>
         (case pd_pending d pending_name of
            None \<Rightarrow> Inl Io
          | Some _ \<Rightarrow>
              Inr ((drop_reader d1 r)\<lparr>pd_pending := (pd_pending d)(pending_name := None)\<rparr>, False))
     | Inl _ \<Rightarrow>
         (case pd_pending d pending_name of
            None \<Rightarrow> Inl Io
          | Some f \<Rightarrow>
              Inr (d\<lparr>pd_pending := (pd_pending d)(pending_name := None),
                     pd_complete := (pd_complete d)(hash_hex := Some f)\<rparr>, True)))"

definition discard_pending :: "pool_dir \<Rightarrow> string \<Rightarrow> pool_dir" where
  "discard_pending d pending_name = d\<lparr>pd_pending := (pd_pending d)(pending_name := None)\<rparr>"

definition discard_seek :: "pool_dir \<Rightarrow> string \<Rightarrow> pool_dir" where
  "discard_seek d pending_name = d\<lparr>pd_seek := (pd_seek d)(pending_name := None)\<rparr>"

definition pool_is_open :: "pool_dir \<Rightarrow> string \<Rightarrow> sdk_error + bool" where
  "pool_is_open d pool_file = rbind (path_of pool_file) (\<lambda>_. Inr (pd_open_readers d pool_file > 0))"

definition pool_bytes_on_disk :: "pool_dir \<Rightarrow> string \<Rightarrow> sdk_error + nat" where
  "pool_bytes_on_disk d pool_file =
     rbind (path_of pool_file) (\<lambda>_. rbind (ok_or Io (pd_complete d pool_file)) (\<lambda>f. Inr (length f)))"

definition pool_remove :: "pool_dir \<Rightarrow> string \<Rightarrow> sdk_error + pool_dir" where
  "pool_remove d pool_file =
     rbind (path_of pool_file) (\<lambda>_.
     Inr (d\<lparr>pd_complete := (pd_complete d)(pool_file := None)\<rparr>))"

section \<open>The reader\<close>

definition load_segment :: "pool_lib \<Rightarrow> pool_reader \<Rightarrow> nat \<Rightarrow> sdk_error + pool_reader \<times> bytes" where
  "load_segment L r index =
     rbind
       (if map_option fst (pr_loaded r) \<noteq> Some index then
          rbind (open_segment L (pr_key r) (pr_header r) (pr_file r) index) (\<lambda>segment.
          if index + 1 < pr_segments r \<and> os_len segment \<noteq> unat (hd_segment_size (pr_header r))
            then Inl Io
          else rbind (opened_data segment) (\<lambda>data. Inr (r\<lparr>pr_loaded := Some (index, data)\<rparr>)))
        else Inr r)
       (\<lambda>r1. case pr_loaded r1 of Some (_, plain) \<Rightarrow> Inr (r1, plain) | None \<Rightarrow> Inl Io)"

text \<open>\<open>Read::read\<close> into a buffer of \<open>n\<close> bytes: the bytes it fills in.\<close>

definition reader_read :: "pool_lib \<Rightarrow> pool_reader \<Rightarrow> nat \<Rightarrow> sdk_error + pool_reader \<times> bytes" where
  "reader_read L r n =
     (if pr_position r \<ge> pr_plain_len r \<or> n = 0 then Inr (r, [])
      else
        let segment_size = unat (hd_segment_size (pr_header r));
            index = pr_position r div segment_size;
            offset = pr_position r mod segment_size
        in rbind (load_segment L r index) (\<lambda>(r1, segment).
           if offset \<ge> length segment then Inr (r1, [])
           else
             let k = min (length segment - offset) n in
             rbind (ok_or Io (get_range segment offset (offset + k))) (\<lambda>source.
             Inr (r1\<lparr>pr_position := pr_position r1 + k\<rparr>, source))))"

datatype seek_from = From_Start nat | From_End int | From_Current int

definition reader_seek :: "pool_reader \<Rightarrow> seek_from \<Rightarrow> sdk_error + pool_reader" where
  "reader_seek r target =
     (let base = (case target of
                    From_Start offset \<Rightarrow> int offset
                  | From_End delta \<Rightarrow> int (pr_plain_len r) + delta
                  | From_Current delta \<Rightarrow> int (pr_position r) + delta)
      in if base < 0 then Inl Io else Inr (r\<lparr>pr_position := nat base\<rparr>))"

end
