(* ===== verification/Pool_Correct.thy ===== *)
theory Pool_Correct
  imports Media_Pool
begin

text \<open>
  What the media pool promises: the file on disk depends only on the plaintext (never on how it
  was cut into writes, nor on where a crash interrupted it), and a reader reads that plaintext
  back.  The abstract file is the list of sealed windows of the plaintext.
\<close>

section \<open>Files\<close>

lemma file_write_at_end: "file_write_at f (length f) d = f @ d"
  by (simp add: file_write_at_def)

lemma file_set_len_prefix: "length f = n \<Longrightarrow> file_set_len (f @ g) n = f"
  by (simp add: file_set_len_def)

lemma file_read_exact_append:
  "off + n \<le> length f \<Longrightarrow> file_read_exact (f @ g) off n = file_read_exact f off n"
  by (simp add: file_read_exact_def)

lemma drop_blocks:
  assumes "\<And>x. x \<in> set xs \<Longrightarrow> length x = r" and "i \<le> length xs"
  shows "drop (i * r) (concat xs) = concat (drop i xs)"
  using assms
proof (induction i arbitrary: xs)
  case 0
  then show ?case by simp
next
  case (Suc i)
  then obtain y ys where xs: "xs = y # ys" by (cases xs) auto
  with Suc.prems have "length y = r" "\<And>x. x \<in> set ys \<Longrightarrow> length x = r" "i \<le> length ys" by auto
  with Suc.IH [of ys] show ?case by (simp add: xs add.commute)
qed

lemma length_blocks: "(\<And>x. x \<in> set xs \<Longrightarrow> length x = r) \<Longrightarrow> length (concat xs) = length xs * r"
  by (induction xs) auto

lemma take_block:
  assumes "\<And>x. x \<in> set xs \<Longrightarrow> length x = r" and "i < length xs"
  shows "take r (drop (i * r) (concat xs)) = xs ! i"
proof -
  have "drop i xs = xs ! i # drop (Suc i) xs" using assms(2) by (simp add: Cons_nth_drop_Suc)
  with assms show ?thesis by (simp add: drop_blocks)
qed

section \<open>One segment\<close>

definition wf_header :: "header \<Rightarrow> bool" where
  "wf_header h \<longleftrightarrow> hd_segment_size h \<noteq> 0 \<and> length (hd_nonce_base h) = POOL_NONCE_BASE_LEN"

abbreviation seg_size :: "header \<Rightarrow> nat" where
  "seg_size h \<equiv> unat (hd_segment_size h)"

lemma seg_size_pos: "wf_header h \<Longrightarrow> 0 < seg_size h"
  by (simp add: wf_header_def unat_gt_0)

lemmas pool_consts = HEADER_LEN_def LEN_FIELD_def POOL_TAG_LEN_def POOL_NONCE_BASE_LEN_def

lemma length_MAGIC [simp]: "length MAGIC = 4"
  by (simp add: MAGIC_def)

lemma length_encode_header: "wf_header h \<Longrightarrow> length (encode_header h) = HEADER_LEN"
  by (simp add: encode_header_def wf_header_def pool_consts)

lemma read_encoded_header:
  assumes "wf_header h"
  shows "read_header (encode_header h @ body) = Inr h"
proof -
  have r: "file_read_exact (encode_header h @ body) 0 HEADER_LEN = Some (encode_header h)"
    using assms by (simp add: file_read_exact_def length_encode_header)
  have t: "take 4 (encode_header h) = MAGIC" "encode_header h ! 4 = POOL_FORMAT_VERSION"
    by (simp_all add: encode_header_def nth_append)
  have "encode_header h = (MAGIC @ [POOL_FORMAT_VERSION] @ [0, 0, 0]) @ u32_to_le (hd_segment_size h)
     @ hd_nonce_base h @ u32_to_le (hd_owner h)" (is "_ = ?a @ ?b @ ?c @ ?d")
    by (simp add: encode_header_def)
  moreover have "length ?a = 8" "length ?b = 4" "length ?c = 16"
    using assms by (simp_all add: wf_header_def pool_consts)
  ultimately have f: "take 4 (drop 8 (encode_header h)) = ?b"
    "take POOL_NONCE_BASE_LEN (drop 12 (encode_header h)) = ?c"
    "drop 28 (encode_header h) = ?d"
    by (simp_all add: pool_consts drop_append_exact take_append_exact)
  show ?thesis
    using assms by (simp add: read_header_def r t f Let_def wf_header_def del: take_append drop_append)
qed

text \<open>The bytes of segment \<open>i\<close>; sealing succeeds exactly on 1 to \<open>segment_size\<close> bytes.\<close>

definition sealed_record :: "pool_lib \<Rightarrow> bytes \<Rightarrow> header \<Rightarrow> nat \<Rightarrow> bytes \<Rightarrow> bytes" where
  "sealed_record L key h i d = (case seal_segment L key h i d of Inr s \<Rightarrow> s | Inl _ \<Rightarrow> [])"

definition segment_plain :: "header \<Rightarrow> bytes \<Rightarrow> bytes" where
  "segment_plain h d = u32_to_le (of_nat (length d)) @ d @ replicate (seg_size h - length d) 0"

lemma seal_segment_alt:
  "seal_segment L key h i d =
     (if d = [] \<or> length d > seg_size h then Inl Io
      else ok_or Io (x_encrypt L key (fst (nonce_and_aad h i)) (snd (nonce_and_aad h i)) (segment_plain h d)))"
  by (simp add: seal_segment_def Let_def case_prod_unfold segment_plain_def)

lemma length_segment_plain: "length d \<le> seg_size h \<Longrightarrow> length (segment_plain h d) = LEN_FIELD + seg_size h"
  by (simp add: segment_plain_def pool_consts)

lemma seal_segment_ok:
  assumes L: "pool_lib_ok L" and d: "d \<noteq> []" "length d \<le> seg_size h"
  shows "seal_segment L key h i d = Inr (sealed_record L key h i d)"
    and "length (sealed_record L key h i d) = record_len h"
    and "x_decrypt L key (fst (nonce_and_aad h i)) (snd (nonce_and_aad h i)) (sealed_record L key h i d)
           = Some (segment_plain h d)"
proof -
  let ?n = "fst (nonce_and_aad h i)" and ?a = "snd (nonce_and_aad h i)"
  have "length (segment_plain h d) < 2 ^ 32 + 8"
    using length_segment_plain [OF d(2)] u32_lt [of "hd_segment_size h"] by (simp add: pool_consts)
  with L obtain s where s: "x_encrypt L key ?n ?a (segment_plain h d) = Some s"
    unfolding pool_lib_ok_def by blast
  then have "length s = record_len h"
    using L length_segment_plain [OF d(2)] by (auto simp: pool_lib_ok_def record_len_def pool_consts)
  moreover have "sealed_record L key h i d = s"
    using s d by (simp add: sealed_record_def seal_segment_alt)
  ultimately show "seal_segment L key h i d = Inr (sealed_record L key h i d)"
    "length (sealed_record L key h i d) = record_len h"
    "x_decrypt L key ?n ?a (sealed_record L key h i d) = Some (segment_plain h d)"
    using s d L by (simp_all add: seal_segment_alt pool_lib_ok_def)
qed

lemma open_sealed_record:
  assumes L: "pool_lib_ok L" and d: "d \<noteq> []" "length d \<le> seg_size h"
    and r: "file_read_exact f (segment_offset h i) (record_len h) = Some (sealed_record L key h i d)"
  shows "open_segment L key h f i = Inr \<lparr>os_plain = segment_plain h d, os_len = length d\<rparr>"
proof -
  have l: "length d < 2 ^ 32" using d(2) u32_lt [of "hd_segment_size h"] by simp
  have "first_chunk 4 (segment_plain h d) = Some (u32_to_le (of_nat (length d)))"
    by (simp add: first_chunk_def segment_plain_def)
  moreover have "unat (of_nat (length d) :: u32) = length d"
    using l by (simp add: unat_of_nat take_bit_nat_eq_self)
  ultimately show ?thesis
    using d r seal_segment_ok(3) [OF L d]
    by (simp add: open_segment_def case_prod_unfold)
qed

lemma opened_data_sealed [simp]:
  "length d \<le> seg_size h \<Longrightarrow>
     opened_data \<lparr>os_plain = segment_plain h d, os_len = length d\<rparr> = Inr d"
  by (simp add: opened_data_def get_range_def segment_plain_def pool_consts)

section \<open>The body of a file\<close>

definition pool_body :: "pool_lib \<Rightarrow> bytes \<Rightarrow> header \<Rightarrow> bytes \<Rightarrow> nat \<Rightarrow> bytes" where
  "pool_body L key h xs n =
     concat (map (\<lambda>i. sealed_record L key h i (window (seg_size h) xs i)) [0..<n])"

text \<open>The file that holds \<open>xs\<close>.\<close>

definition pool_file :: "pool_lib \<Rightarrow> bytes \<Rightarrow> header \<Rightarrow> bytes \<Rightarrow> bytes" where
  "pool_file L key h xs = encode_header h @ pool_body L key h xs (ceil_div (length xs) (seg_size h))"

definition partial_file :: "pool_lib \<Rightarrow> bytes \<Rightarrow> header \<Rightarrow> bytes \<Rightarrow> nat \<Rightarrow> bytes" where
  "partial_file L key h xs n = encode_header h @ pool_body L key h xs n"

lemma pool_body_0 [simp]: "pool_body L key h xs 0 = []"
  by (simp add: pool_body_def)

lemma pool_body_Suc:
  "pool_body L key h xs (Suc n) =
     pool_body L key h xs n @ sealed_record L key h n (window (seg_size h) xs n)"
  by (simp add: pool_body_def)

lemma pool_body_cong:
  "(\<And>i. i < n \<Longrightarrow> window (seg_size h) xs i = window (seg_size h) ys i) \<Longrightarrow>
     pool_body L key h xs n = pool_body L key h ys n"
  unfolding pool_body_def by (intro arg_cong [where f = concat] map_cong) auto

lemma pool_body_append:
  "n * seg_size h \<le> length xs \<Longrightarrow> pool_body L key h (xs @ ys) n = pool_body L key h xs n"
proof (rule pool_body_cong)
  fix i
  assume "n * seg_size h \<le> length xs" "i < n"
  moreover from this have "(i + 1) * seg_size h \<le> n * seg_size h" by (intro mult_le_mono1) simp
  ultimately show "window (seg_size h) (xs @ ys) i = window (seg_size h) xs i"
    by (intro window_append) linarith
qed

lemma sealed_window_length:
  assumes "pool_lib_ok L" "wf_header h" "n \<le> ceil_div (length xs) (seg_size h)" "i < n"
  shows "length (sealed_record L key h i (window (seg_size h) xs i)) = record_len h"
  using assms below_ceil_div [OF seg_size_pos assms(3,4)]
  by (intro seal_segment_ok(2)) (auto simp: window_nonempty seg_size_pos window_bound)

lemma length_pool_body:
  assumes "pool_lib_ok L" "wf_header h" "n \<le> ceil_div (length xs) (seg_size h)"
  shows "length (pool_body L key h xs n) = n * record_len h"
proof -
  have "length (pool_body L key h xs n) =
      length (map (\<lambda>i. sealed_record L key h i (window (seg_size h) xs i)) [0..<n]) * record_len h"
    unfolding pool_body_def using assms by (intro length_blocks) (auto simp: sealed_window_length)
  then show ?thesis by simp
qed

lemma length_partial_file:
  assumes "pool_lib_ok L" "wf_header h" "n \<le> ceil_div (length xs) (seg_size h)"
  shows "length (partial_file L key h xs n) = segment_offset h n"
  using assms by (simp add: partial_file_def length_pool_body length_encode_header segment_offset_def)

lemma read_segment_bytes:
  assumes "pool_lib_ok L" "wf_header h" "n \<le> ceil_div (length xs) (seg_size h)" "i < n"
  shows "file_read_exact (partial_file L key h xs n @ g) (segment_offset h i) (record_len h)
           = Some (sealed_record L key h i (window (seg_size h) xs i))"
proof -
  let ?blocks = "map (\<lambda>i. sealed_record L key h i (window (seg_size h) xs i)) [0..<n]"
  have "(i + 1) * record_len h \<le> n * record_len h" using assms(4) by (intro mult_le_mono1) simp
  then have fits: "i * record_len h + record_len h \<le> length (pool_body L key h xs n)"
    using assms by (simp add: length_pool_body)
  have "take (record_len h) (drop (i * record_len h) (concat ?blocks)) = ?blocks ! i"
    using assms by (intro take_block) (auto simp: sealed_window_length)
  with fits assms(2,4) show ?thesis
    by (simp add: file_read_exact_def partial_file_def length_encode_header segment_offset_def pool_body_def)
qed

lemma open_window:
  assumes "pool_lib_ok L" "wf_header h" "n \<le> ceil_div (length xs) (seg_size h)" "i < n"
  shows "open_segment L key h (partial_file L key h xs n @ g) i =
     Inr \<lparr>os_plain = segment_plain h (window (seg_size h) xs i), os_len = length (window (seg_size h) xs i)\<rparr>"
  using assms below_ceil_div [OF seg_size_pos assms(3,4)]
  by (intro open_sealed_record read_segment_bytes) (auto simp: window_nonempty seg_size_pos window_bound)

section \<open>The writer\<close>

text \<open>
  The state of a writer that has received \<open>xs\<close>: the file holds the complete segments, the buffer
  the rest.  \<open>writer_holds\<close> allows a full buffer, which the code only has between two steps.
\<close>

definition writer_holds :: "pool_lib \<Rightarrow> bytes \<Rightarrow> pool_writer \<Rightarrow> bytes \<Rightarrow> bool" where
  "writer_holds L f w xs \<longleftrightarrow>
     pool_lib_ok L \<and> wf_header (pw_header w)
     \<and> pw_segments_written w * writer_segment_size w \<le> length xs
     \<and> f = partial_file L (pw_key w) (pw_header w) xs (pw_segments_written w)
     \<and> pw_buffer w = drop (pw_segments_written w * writer_segment_size w) xs
     \<and> length (pw_buffer w) \<le> writer_segment_size w
     \<and> pw_blake3 w = xs \<and> pw_sha256 w = xs \<and> pw_plain_len w = length xs"

definition writer_inv :: "pool_lib \<Rightarrow> bytes \<Rightarrow> pool_writer \<Rightarrow> bytes \<Rightarrow> bool" where
  "writer_inv L f w xs \<longleftrightarrow> writer_holds L f w xs \<and> length (pw_buffer w) < writer_segment_size w"

text \<open>What no operation of a writer changes.\<close>

definition same_pool :: "pool_writer \<Rightarrow> pool_writer \<Rightarrow> bool" where
  "same_pool w w' \<longleftrightarrow> pw_key w' = pw_key w \<and> pw_header w' = pw_header w \<and> pw_name w' = pw_name w
     \<and> pw_holds_final_segment w' = pw_holds_final_segment w"

lemma same_pool_refl [simp]: "same_pool w w"
  by (simp add: same_pool_def)

lemma same_pool_trans: "same_pool u v \<Longrightarrow> same_pool v w \<Longrightarrow> same_pool u w"
  by (simp add: same_pool_def)

lemma writer_segment_size_update [simp]:
  "writer_segment_size (w\<lparr>pw_segments_written := n\<rparr>) = writer_segment_size w"
  "writer_segment_size (w\<lparr>pw_buffer := b\<rparr>) = writer_segment_size w"
  "writer_segment_size (w\<lparr>pw_holds_final_segment := c\<rparr>) = writer_segment_size w"
  "writer_segment_size (writer_hash w d) = writer_segment_size w"
  by (simp_all add: writer_segment_size_def writer_hash_def)

lemma writer_hash_sel [simp]:
  "pw_buffer (writer_hash w d) = pw_buffer w"
  "pw_key (writer_hash w d) = pw_key w"
  "pw_header (writer_hash w d) = pw_header w"
  "pw_segments_written (writer_hash w d) = pw_segments_written w"
  by (simp_all add: writer_hash_def)

lemma partial_file_Suc:
  "partial_file L key h xs (Suc n) =
     partial_file L key h xs n @ sealed_record L key h n (window (seg_size h) xs n)"
  by (simp add: partial_file_def pool_body_Suc)

lemma segments_in_range:
  assumes "writer_holds L f w xs"
  shows "pw_segments_written w \<le> ceil_div (length xs) (seg_size (pw_header w))"
  using assms by (auto simp: writer_holds_def writer_segment_size_def intro!: full_windows seg_size_pos)

lemma seal_buffer_holds:
  assumes "writer_holds L f w xs" and "pw_buffer w \<noteq> []"
  shows "seal_buffer L f w =
     Inr (partial_file L (pw_key w) (pw_header w) xs (pw_segments_written w + 1),
          w\<lparr>pw_segments_written := pw_segments_written w + 1, pw_buffer := []\<rparr>)"
proof -
  let ?h = "pw_header w" and ?n = "pw_segments_written w"
  have L: "pool_lib_ok L" and h: "wf_header ?h" and f: "f = partial_file L (pw_key w) ?h xs ?n"
    and b: "pw_buffer w = drop (?n * seg_size ?h) xs" "length (pw_buffer w) \<le> seg_size ?h"
    using assms(1) by (auto simp: writer_holds_def writer_segment_size_def)
  have "window (seg_size ?h) xs ?n = pw_buffer w" using b by (simp add: window_def)
  moreover have "seal_segment L (pw_key w) ?h ?n (pw_buffer w) =
      Inr (sealed_record L (pw_key w) ?h ?n (pw_buffer w))"
    using L assms(2) b(2) by (rule seal_segment_ok(1))
  moreover have "file_write_at f (segment_offset ?h ?n) d = f @ d" for d
    using length_partial_file [OF L h segments_in_range [OF assms(1)]] file_write_at_end f by metis
  ultimately show ?thesis
    using assms(2) f by (simp add: seal_buffer_def partial_file_Suc)
qed

lemma seal_full_buffer:
  assumes "writer_holds L f w xs" and "length (pw_buffer w) = writer_segment_size w"
  obtains f' w' where "seal_buffer L f w = Inr (f', w')" "writer_inv L f' w' xs" "same_pool w w'"
proof -
  let ?f = "partial_file L (pw_key w) (pw_header w) xs (pw_segments_written w + 1)"
  let ?w = "w\<lparr>pw_segments_written := pw_segments_written w + 1, pw_buffer := []\<rparr>"
  have pos: "0 < writer_segment_size w"
    using assms(1) by (auto simp: writer_holds_def writer_segment_size_def seg_size_pos)
  then have "pw_buffer w \<noteq> []" using assms(2) by auto
  with assms(1) have step: "seal_buffer L f w = Inr (?f, ?w)" by (rule seal_buffer_holds)
  have "(pw_segments_written w + 1) * writer_segment_size w = length xs"
    using assms by (simp add: writer_holds_def) linarith
  then have "writer_inv L ?f ?w xs"
    using assms(1) pos by (simp add: writer_inv_def writer_holds_def)
  with step show ?thesis by (rule that) (simp add: same_pool_def)
qed

lemma take_in_holds:
  assumes "writer_inv L f w xs" and "length piece \<le> writer_segment_size w - length (pw_buffer w)"
  shows "writer_holds L f (writer_hash (w\<lparr>pw_buffer := pw_buffer w @ piece\<rparr>) piece) (xs @ piece)"
  using assms
  by (auto simp: writer_inv_def writer_holds_def writer_hash_def writer_segment_size_def
      partial_file_def pool_body_append)

lemma write_loop_inv:
  assumes "writer_inv L f w xs"
  shows "\<exists>f' w'. write_loop L f w ds = Some (Inr (f', w')) \<and> writer_inv L f' w' (xs @ ds) \<and> same_pool w w'"
  using assms
proof (induction "length ds" arbitrary: ds f w xs rule: less_induct)
  case less
  show ?case
  proof (cases "ds = []")
    case True
    with less.prems show ?thesis by (simp add: write_loop.simps)
  next
    case False
    let ?room = "writer_segment_size w - length (pw_buffer w)"
    let ?n = "min ?room (length ds)"
    let ?w1 = "writer_hash (w\<lparr>pw_buffer := pw_buffer w @ take ?n ds\<rparr>) (take ?n ds)"
    have room: "0 < ?room" using less.prems by (simp add: writer_inv_def)
    have shorter: "length (drop ?n ds) < length ds" using room False by simp
    have holds: "writer_holds L f ?w1 (xs @ take ?n ds)"
      using less.prems by (rule take_in_holds) simp
    have same: "same_pool w ?w1" "writer_segment_size ?w1 = writer_segment_size w"
      by (simp add: same_pool_def writer_hash_def) simp
    have glue: "(xs @ take ?n ds) @ drop ?n ds = xs @ ds" by simp
    obtain f2 w2 where step: "write_loop L f w ds = write_loop L f2 w2 (drop ?n ds)"
      and inv: "writer_inv L f2 w2 (xs @ take ?n ds)" and same2: "same_pool ?w1 w2"
    proof (cases "length (pw_buffer ?w1) = writer_segment_size w")
      case True
      then obtain f' w' where "seal_buffer L f ?w1 = Inr (f', w')"
        "writer_inv L f' w' (xs @ take ?n ds)" "same_pool ?w1 w'"
        using seal_full_buffer [OF holds] same(2) by metis
      with True False show ?thesis
        by (intro that [of f' w']) (simp_all add: write_loop.simps [of L f w] Let_def)
    next
      case part: False
      from holds have "length (pw_buffer ?w1) \<le> writer_segment_size w"
        unfolding writer_holds_def same(2) by blast
      with part holds have "writer_inv L f ?w1 (xs @ take ?n ds)"
        unfolding writer_inv_def same(2) by linarith
      with part False show ?thesis
        by (intro that [of f ?w1]) (simp_all add: write_loop.simps [of L f w] Let_def)
    qed
    obtain f3 w3 where "write_loop L f2 w2 (drop ?n ds) = Some (Inr (f3, w3))"
      and last_inv: "writer_inv L f3 w3 ((xs @ take ?n ds) @ drop ?n ds)" and same3: "same_pool w2 w3"
      using less.hyps [OF shorter inv] by blast
    then have "write_loop L f w ds = Some (Inr (f3, w3))" by (simp only: step)
    moreover have "same_pool w w3"
      using same(1) same2 same3 by (blast intro: same_pool_trans)
    ultimately show ?thesis using last_inv by (simp only: glue) blast
  qed
qed

lemma writer_write_inv:
  assumes "writer_inv L f w xs" and "\<not> pw_holds_final_segment w"
  obtains f' w' where "writer_write L f w ds = Some (Inr (f', w'))" "writer_inv L f' w' (xs @ ds)" "same_pool w w'"
  using write_loop_inv [OF assms(1), of ds] assms(2) that by (auto simp: writer_write_def)

text \<open>Several \<open>write\<close> calls, ended by the first error.\<close>

primrec write_pieces ::
    "pool_lib \<Rightarrow> bytes \<Rightarrow> pool_writer \<Rightarrow> bytes list \<Rightarrow> (sdk_error + bytes \<times> pool_writer) option" where
  "write_pieces L f w [] = Some (Inr (f, w))"
| "write_pieces L f w (d # ds) =
     (case writer_write L f w d of
        None \<Rightarrow> None
      | Some (Inl e) \<Rightarrow> Some (Inl e)
      | Some (Inr (f', w')) \<Rightarrow> write_pieces L f' w' ds)"

lemma write_pieces_inv:
  assumes "writer_inv L f w xs" and "\<not> pw_holds_final_segment w"
  shows "\<exists>f' w'. write_pieces L f w ds = Some (Inr (f', w')) \<and> writer_inv L f' w' (xs @ concat ds) \<and> same_pool w w'"
  using assms
proof (induction ds arbitrary: f w xs)
  case Nil
  then show ?case by simp
next
  case (Cons d ds)
  from Cons.prems obtain f1 w1 where 1: "writer_write L f w d = Some (Inr (f1, w1))"
    "writer_inv L f1 w1 (xs @ d)" "same_pool w w1" by (rule writer_write_inv)
  with Cons.prems(2) have "\<not> pw_holds_final_segment w1" by (simp add: same_pool_def)
  with Cons.IH [OF 1(2)] 1 show ?case by (auto dest: same_pool_trans)
qed

definition finished_of :: "pool_lib \<Rightarrow> header \<Rightarrow> bytes \<Rightarrow> finished" where
  "finished_of L h xs =
     \<lparr>fin_hash_hex = to_hex L (h_blake3 L xs), fin_sha256_hex = to_hex L (h_sha256 L xs),
      fin_plain_len = length xs, fin_segments = ceil_div (length xs) (seg_size h),
      fin_bytes_on_disk = segment_offset h (ceil_div (length xs) (seg_size h))\<rparr>"

lemma writer_finish_holds:
  assumes inv: "writer_inv L f w xs" and xs: "xs \<noteq> []"
  shows "writer_finish L f w =
     Inr (pool_file L (pw_key w) (pw_header w) xs, finished_of L (pw_header w) xs)"
proof -
  let ?h = "pw_header w" and ?n = "pw_segments_written w"
  have holds: "writer_holds L f w xs" and L: "pool_lib_ok L" and h: "wf_header ?h"
    and f: "f = partial_file L (pw_key w) ?h xs ?n"
    and b: "pw_buffer w = drop (?n * seg_size ?h) xs" "length xs - ?n * seg_size ?h < seg_size ?h"
    and le: "?n * seg_size ?h \<le> length xs"
    and hashes: "pw_blake3 w = xs" "pw_sha256 w = xs" "pw_plain_len w = length xs"
    using inv by (auto simp: writer_inv_def writer_holds_def writer_segment_size_def)
  show ?thesis
  proof (cases "pw_buffer w = []")
    case True
    with b le have n: "length xs = ?n * seg_size ?h" by simp
    then have c: "ceil_div (length xs) (seg_size ?h) = ?n"
      using seg_size_pos [OF h] by (simp add: ceil_div_exact)
    then have "length f = segment_offset ?h ?n" using f length_partial_file [OF L h] by simp
    with True c f hashes xs show ?thesis
      by (simp add: writer_finish_def seal_buffer_def finished_of_def pool_file_def partial_file_def)
  next
    case False
    with b le have "?n * seg_size ?h < length xs" by simp
    with b(2) have c: "ceil_div (length xs) (seg_size ?h) = Suc ?n" by (intro ceil_div_between) auto
    have "length (partial_file L (pw_key w) ?h xs (Suc ?n)) = segment_offset ?h (Suc ?n)"
      using length_partial_file [OF L h] c by simp
    with seal_buffer_holds [OF holds False] c hashes xs show ?thesis
      by (simp add: writer_finish_def finished_of_def pool_file_def partial_file_def)
  qed
qed

lemma partial_file_0 [simp]: "partial_file L key h xs 0 = encode_header h"
  by (simp add: partial_file_def)

lemma writer_new_inv:
  "pool_lib_ok L \<Longrightarrow> wf_header h \<Longrightarrow> writer_inv L (encode_header h) (writer_new key h name) []"
  by (simp add: writer_inv_def writer_holds_def writer_new_def writer_segment_size_def seg_size_pos)

definition pool_header :: "pool_lib \<Rightarrow> bytes \<Rightarrow> bytes \<Rightarrow> header" where
  "pool_header L nonce_base mxc =
     \<lparr>hd_segment_size = SEGMENT_SIZE, hd_nonce_base = nonce_base, hd_owner = owner_of L mxc\<rparr>"

lemma wf_pool_header: "length nonce_base = POOL_NONCE_BASE_LEN \<Longrightarrow> wf_header (pool_header L nonce_base mxc)"
  by (simp add: wf_header_def pool_header_def SEGMENT_SIZE_def)

text \<open>
  C4. Storing a file is independent of how the plaintext is cut into writes: from
  \<open>create_pending\<close>, any sequence of \<open>write\<close> calls whose pieces concatenate to \<open>xs\<close> returns (the
  writer's loop ends), and \<open>finish\<close> leaves exactly the sealed windows of \<open>xs\<close> on disk and reports
  the BLAKE3 and SHA-256 of \<open>xs\<close>, its length, its number of segments and the size of the file.
\<close>

theorem store_any_splitting:
  assumes "pool_lib_ok L" and "length nonce_base = POOL_NONCE_BASE_LEN" and "concat pieces \<noteq> []"
  shows "\<exists>f0 w0 f w. create_pending L key (Inr nonce_base) name mxc = Inr (f0, w0)
     \<and> write_pieces L f0 w0 pieces = Some (Inr (f, w))
     \<and> writer_finish L f w =
         Inr (pool_file L key (pool_header L nonce_base mxc) (concat pieces),
              finished_of L (pool_header L nonce_base mxc) (concat pieces))"
proof -
  let ?h = "pool_header L nonce_base mxc"
  let ?w = "writer_new key ?h name"
  have "writer_inv L (encode_header ?h) ?w []"
    using assms(1,2) by (intro writer_new_inv wf_pool_header)
  moreover have "\<not> pw_holds_final_segment ?w" by (simp add: writer_new_def)
  ultimately obtain f w where "write_pieces L (encode_header ?h) ?w pieces = Some (Inr (f, w))"
    and inv: "writer_inv L f w (concat pieces)" and same: "same_pool ?w w"
    using write_pieces_inv by (metis append_Nil)
  moreover have "pw_key w = key" "pw_header w = ?h"
    using same by (simp_all add: same_pool_def writer_new_def)
  ultimately show ?thesis
    using writer_finish_holds [OF inv assms(3)]
    by (intro exI [of _ "encode_header ?h"] exI [of _ ?w] exI [of _ f] exI [of _ w])
       (simp add: create_pending_def pool_header_def Let_def)
qed

section \<open>The reader\<close>

text \<open>A reader on the complete file that holds \<open>xs\<close>; the segment it has cached is a window of \<open>xs\<close>.\<close>

definition reader_inv :: "pool_lib \<Rightarrow> pool_reader \<Rightarrow> bytes \<Rightarrow> bool" where
  "reader_inv L r xs \<longleftrightarrow>
     pool_lib_ok L \<and> wf_header (pr_header r) \<and> pr_file r = pool_file L (pr_key r) (pr_header r) xs
     \<and> pr_segments r = ceil_div (length xs) (seg_size (pr_header r)) \<and> pr_plain_len r = length xs
     \<and> (\<forall>i d. pr_loaded r = Some (i, d) \<longrightarrow> d = window (seg_size (pr_header r)) xs i)"

lemma pool_file_partial: "pool_file L key h xs = partial_file L key h xs (ceil_div (length xs) (seg_size h)) @ []"
  by (simp add: pool_file_def partial_file_def)

lemma ceil_div_pred:
  assumes "0 < c" "0 < m"
  shows "(ceil_div m c - 1) * c + min c (m - (ceil_div m c - 1) * c) = m" and "0 < ceil_div m c"
proof -
  show pos: "0 < ceil_div m c" using assms ceil_div_less_iff [of c 0 m] by simp
  then have "ceil_div m c - 1 < ceil_div m c" by simp
  then have "(ceil_div m c - 1) * c < m" using assms ceil_div_less_iff by blast
  moreover have "m \<le> (ceil_div m c - 1) * c + c"
    using le_ceil_div_mult [OF assms(1), of m] pos by (cases "ceil_div m c") auto
  ultimately show "(ceil_div m c - 1) * c + min c (m - (ceil_div m c - 1) * c) = m" by simp
qed

lemma length_pool_file:
  "pool_lib_ok L \<Longrightarrow> wf_header h \<Longrightarrow>
     length (pool_file L key h xs) = HEADER_LEN + ceil_div (length xs) (seg_size h) * record_len h"
  using length_partial_file [of L h "ceil_div (length xs) (seg_size h)" xs key]
  by (simp add: pool_file_partial segment_offset_def)

lemma record_len_pos: "0 < record_len h"
  by (simp add: record_len_def pool_consts)

lemma open_read_pool_file:
  assumes L: "pool_lib_ok L" and h: "wf_header h" and xs: "xs \<noteq> []"
    and name: "path_of name = Inr p" and at: "pd_complete d name = Some (pool_file L key h xs)"
  obtains r where
    "open_read L key d name =
       Inr (d\<lparr>pd_open_readers := (pd_open_readers d)(name := pd_open_readers d name + 1)\<rparr>, r)"
    "reader_inv L r xs" "pr_position r = 0" "pr_name r = name" "pr_header r = h"
proof -
  let ?n = "ceil_div (length xs) (seg_size h)"
  have n: "0 < ?n" and last_len: "(?n - 1) * seg_size h + min (seg_size h) (length xs - (?n - 1) * seg_size h) = length xs"
    using ceil_div_pred [OF seg_size_pos [OF h], of "length xs"] xs by auto
  have hd: "read_header (pool_file L key h xs) = Inr h"
    by (simp add: pool_file_def read_encoded_header [OF h])
  have seg: "open_segment L key h (pool_file L key h xs) (?n - 1) =
      Inr \<lparr>os_plain = segment_plain h (window (seg_size h) xs (?n - 1)),
           os_len = length (window (seg_size h) xs (?n - 1))\<rparr>"
    unfolding pool_file_partial using n by (intro open_window [OF L h]) auto
  show ?thesis
    by (rule that [of "\<lparr>pr_name = name, pr_key = key, pr_header = h, pr_file = pool_file L key h xs,
          pr_segments = ?n, pr_plain_len = length xs, pr_position = 0, pr_loaded = None\<rparr>"])
       (use n last_len record_len_pos [of h] in
         \<open>simp_all add: open_read_def name at hd length_pool_file seg Let_def length_window reader_inv_def L h
           del: One_nat_def\<close>)
qed

lemma load_segment_inv:
  assumes inv: "reader_inv L r xs" and i: "i * seg_size (pr_header r) < length xs"
  obtains r' where "load_segment L r i = Inr (r', window (seg_size (pr_header r)) xs i)" "reader_inv L r' xs"
    "pr_position r' = pr_position r" "pr_header r' = pr_header r"
proof (cases "map_option fst (pr_loaded r) = Some i")
  case True
  then obtain d where d: "pr_loaded r = Some (i, d)" by auto
  with inv have "d = window (seg_size (pr_header r)) xs i" by (simp add: reader_inv_def)
  with d inv show ?thesis by (intro that [of r]) (simp_all add: load_segment_def)
next
  case False
  let ?h = "pr_header r"
  let ?r = "r\<lparr>pr_loaded := Some (i, window (seg_size ?h) xs i)\<rparr>"
  have L: "pool_lib_ok L" and h: "wf_header ?h" and f: "pr_file r = pool_file L (pr_key r) ?h xs"
    and n: "pr_segments r = ceil_div (length xs) (seg_size ?h)"
    using inv by (simp_all add: reader_inv_def)
  have pos: "0 < seg_size ?h" using h by (rule seg_size_pos)
  have "i < ceil_div (length xs) (seg_size ?h)" using i pos by (simp add: ceil_div_less_iff)
  then have seg: "open_segment L (pr_key r) ?h (pr_file r) i =
      Inr \<lparr>os_plain = segment_plain ?h (window (seg_size ?h) xs i), os_len = length (window (seg_size ?h) xs i)\<rparr>"
    unfolding f pool_file_partial by (intro open_window [OF L h]) auto
  have "length (window (seg_size ?h) xs i) = seg_size ?h" if "i + 1 < pr_segments r"
    using that n pos ceil_div_less_iff [of "seg_size ?h" "i + 1" "length xs"] by (intro window_full) simp
  with seg False have "load_segment L r i = Inr (?r, window (seg_size ?h) xs i)"
    by (auto simp: load_segment_def window_bound)
  moreover have "reader_inv L ?r xs" using inv by (auto simp: reader_inv_def)
  ultimately show ?thesis by (rule that) simp_all
qed

definition read_size :: "nat \<Rightarrow> nat \<Rightarrow> nat \<Rightarrow> nat \<Rightarrow> nat" where
  "read_size c len p n = min (min n (c - p mod c)) (len - p)"

lemma window_room:
  "q + m = p \<Longrightarrow> m < c \<Longrightarrow> min (min c (len - q) - m) n = min (min n (c - m)) (len - p)" for q :: nat
  by (auto simp: min_def)

lemma reader_read_inv:
  assumes inv: "reader_inv L r xs"
    and k_def: "k = read_size (seg_size (pr_header r)) (length xs) (pr_position r) n"
  obtains r' where "reader_read L r n = Inr (r', take k (drop (pr_position r) xs))" "reader_inv L r' xs"
    "pr_position r' = pr_position r + k" "pr_header r' = pr_header r"
proof (cases "pr_position r \<ge> length xs \<or> n = 0")
  case True
  then have "k = 0" by (auto simp: k_def read_size_def)
  with True inv show ?thesis
    by (intro that [of r]) (auto simp: reader_read_def reader_inv_def)
next
  case False
  let ?c = "seg_size (pr_header r)" and ?p = "pr_position r"
  have c: "0 < ?c" using inv by (auto simp: reader_inv_def seg_size_pos)
  have "?p div ?c * ?c \<le> ?p" by simp
  then have i: "?p div ?c * ?c < length xs" using False by linarith
  obtain r1 where load: "load_segment L r (?p div ?c) = Inr (r1, window ?c xs (?p div ?c))"
    and r1: "reader_inv L r1 xs" "pr_position r1 = ?p" "pr_header r1 = pr_header r"
    using load_segment_inv [OF inv i] by blast
  have split: "?p div ?c * ?c + ?p mod ?c = ?p" by simp
  have md: "?p mod ?c < ?c" using c by simp
  have wl: "length (window ?c xs (?p div ?c)) = min ?c (length xs - ?p div ?c * ?c)"
    by (rule length_window)
  have in_window: "?p mod ?c < length (window ?c xs (?p div ?c))"
    unfolding wl using False split md by linarith
  have k: "min (length (window ?c xs (?p div ?c)) - ?p mod ?c) n = k"
    unfolding wl k_def read_size_def using split md by (rule window_room)
  have "?p mod ?c + k \<le> length (window ?c xs (?p div ?c))"
    using in_window k by linarith
  then have piece: "get_range (window ?c xs (?p div ?c)) (?p mod ?c) (?p mod ?c + k) = Some (take k (drop ?p xs))"
    by (simp add: get_range_def window_slice) (simp add: k_def read_size_def)
  have "reader_read L r n = Inr (r1\<lparr>pr_position := ?p + k\<rparr>, take k (drop ?p xs))"
    using False inv load in_window piece r1(2) k
    by (simp add: reader_read_def reader_inv_def Let_def)
  moreover have "reader_inv L (r1\<lparr>pr_position := ?p + k\<rparr>) xs"
    using r1(1) by (simp add: reader_inv_def)
  ultimately show ?thesis using r1(3) by (intro that [of "r1\<lparr>pr_position := ?p + k\<rparr>"]) simp_all
qed

text \<open>A client's session with a reader, and what it has to see.\<close>

datatype reader_op = Op_Read nat | Op_Seek seek_from
datatype reader_result = Got bytes | At nat | Failed

primrec run_reader :: "pool_lib \<Rightarrow> pool_reader \<Rightarrow> reader_op list \<Rightarrow> reader_result list" where
  "run_reader L r [] = []"
| "run_reader L r (op # ops) =
     (case op of
        Op_Read n \<Rightarrow>
          (case reader_read L r n of
             Inl _ \<Rightarrow> Failed # run_reader L r ops
           | Inr (r', out) \<Rightarrow> Got out # run_reader L r' ops)
      | Op_Seek target \<Rightarrow>
          (case reader_seek r target of
             Inl _ \<Rightarrow> Failed # run_reader L r ops
           | Inr r' \<Rightarrow> At (pr_position r') # run_reader L r' ops))"

definition seek_spec :: "nat \<Rightarrow> nat \<Rightarrow> seek_from \<Rightarrow> nat option" where
  "seek_spec len p target =
     (let base = (case target of From_Start n \<Rightarrow> int n | From_End z \<Rightarrow> int len + z | From_Current z \<Rightarrow> int p + z)
      in if base < 0 then None else Some (nat base))"

primrec file_session :: "nat \<Rightarrow> bytes \<Rightarrow> nat \<Rightarrow> reader_op list \<Rightarrow> reader_result list" where
  "file_session c xs p [] = []"
| "file_session c xs p (op # ops) =
     (case op of
        Op_Read n \<Rightarrow>
          (let k = read_size c (length xs) p n in Got (take k (drop p xs)) # file_session c xs (p + k) ops)
      | Op_Seek target \<Rightarrow>
          (case seek_spec (length xs) p target of
             None \<Rightarrow> Failed # file_session c xs p ops
           | Some q \<Rightarrow> At q # file_session c xs q ops))"

lemma run_reader_session:
  "reader_inv L r xs \<Longrightarrow>
     run_reader L r ops = file_session (seg_size (pr_header r)) xs (pr_position r) ops"
proof (induction ops arbitrary: r)
  case Nil
  then show ?case by simp
next
  case (Cons op ops)
  show ?case
  proof (cases op)
    case (Op_Read n)
    obtain r' where "reader_read L r n = Inr (r', take (read_size (seg_size (pr_header r)) (length xs) (pr_position r) n)
        (drop (pr_position r) xs))" "reader_inv L r' xs"
      "pr_position r' = pr_position r + read_size (seg_size (pr_header r)) (length xs) (pr_position r) n"
      "pr_header r' = pr_header r"
      using Cons.prems refl by (rule reader_read_inv)
    then show ?thesis using Cons.IH [of r'] by (simp add: Op_Read Let_def)
  next
    case (Op_Seek target)
    have "reader_seek r target = ok_or Io (map_option (\<lambda>q. r\<lparr>pr_position := q\<rparr>) (seek_spec (length xs) (pr_position r) target))"
      using Cons.prems by (simp add: reader_seek_def seek_spec_def reader_inv_def Let_def split: seek_from.split)
    moreover have "reader_inv L (r\<lparr>pr_position := q\<rparr>) xs" for q
      using Cons.prems by (simp add: reader_inv_def)
    ultimately show ?thesis
      using Cons by (simp add: Op_Seek split: option.split)
  qed
qed


lemma read_size_pos: "0 < c \<Longrightarrow> p < len \<Longrightarrow> 0 < n \<Longrightarrow> 0 < read_size c len p n"
  by (simp add: read_size_def)

section \<open>Resuming\<close>

definition writer_at :: "bytes \<Rightarrow> header \<Rightarrow> string \<Rightarrow> bytes \<Rightarrow> nat \<Rightarrow> pool_writer" where
  "writer_at key h name xs n =
     (writer_new key h name)\<lparr>pw_segments_written := n, pw_blake3 := take (n * seg_size h) xs,
       pw_sha256 := take (n * seg_size h) xs, pw_plain_len := n * seg_size h\<rparr>"

lemma writer_at_sel [simp]:
  "pw_key (writer_at key h name xs n) = key" "pw_header (writer_at key h name xs n) = h"
  "pw_segments_written (writer_at key h name xs n) = n" "pw_buffer (writer_at key h name xs n) = []"
  "pw_plain_len (writer_at key h name xs n) = n * seg_size h"
  "\<not> pw_holds_final_segment (writer_at key h name xs n)"
  "writer_segment_size (writer_at key h name xs n) = seg_size h"
  by (simp_all add: writer_at_def writer_new_def writer_segment_size_def)

lemma writer_at_0: "writer_at key h name xs 0 = writer_new key h name"
  by (simp add: writer_at_def writer_new_def)

lemma writer_at_Suc:
  assumes "Suc n * seg_size h \<le> length xs"
  shows "(writer_hash (writer_at key h name xs n) (window (seg_size h) xs n))\<lparr>pw_segments_written := Suc n\<rparr>
     = writer_at key h name xs (Suc n)"
  using assms take_window [of n "seg_size h" xs]
  by (simp add: writer_at_def writer_new_def writer_hash_def window_full)

lemma writer_at_inv:
  assumes "pool_lib_ok L" "wf_header h" "n * seg_size h \<le> length xs"
  shows "writer_inv L (partial_file L key h xs n) (writer_at key h name xs n) (take (n * seg_size h) xs)"
proof -
  have "pool_body L key h (take (n * seg_size h) xs @ drop (n * seg_size h) xs) n =
      pool_body L key h (take (n * seg_size h) xs) n"
    using assms(3) by (intro pool_body_append) simp
  then show ?thesis
    using assms seg_size_pos [OF assms(2)]
    by (simp add: writer_inv_def writer_holds_def writer_at_def writer_new_def writer_segment_size_def
        partial_file_def)
qed

lemma resume_scan_windows:
  assumes L: "pool_lib_ok L" and h: "wf_header h" and n: "n * seg_size h \<le> length xs" and r: "n \<le> records"
    and i: "i \<le> n"
  shows "resume_scan L (partial_file L key h xs n @ g) records i (writer_at key h name xs i) =
     resume_scan L (partial_file L key h xs n @ g) records n (writer_at key h name xs n)"
  using i
proof (induction i rule: inc_induct)
  case base
  then show ?case ..
next
  case (step m)
  have "n \<le> ceil_div (length xs) (seg_size h)" using n by (intro full_windows seg_size_pos h)
  then have seg: "open_segment L key h (partial_file L key h xs n @ g) m =
     Inr \<lparr>os_plain = segment_plain h (window (seg_size h) xs m), os_len = length (window (seg_size h) xs m)\<rparr>"
    using step.hyps by (intro open_window L h)
  have "(m + 1) * seg_size h \<le> n * seg_size h" using step.hyps by (intro mult_le_mono1) simp
  then have m: "Suc m * seg_size h \<le> length xs" using n by simp
  then have full: "length (window (seg_size h) xs m) = seg_size h" by (simp add: window_full)
  have "opened_data \<lparr>os_plain = segment_plain h (window (seg_size h) xs m), os_len = seg_size h\<rparr> =
      Inr (window (seg_size h) xs m)"
    using opened_data_sealed [OF window_bound, of h xs m] by (simp only: full)
  with seg full step.hyps r show ?case
    by (subst resume_scan.simps) (simp add: writer_at_Suc [OF m] step.IH)
qed

lemma records_cut:
  assumes "pool_lib_ok L" "wf_header h" "n * seg_size h \<le> length xs"
  shows "(length (partial_file L key h xs n @ g) - HEADER_LEN) div record_len h = n + length g div record_len h"
proof -
  have "n \<le> ceil_div (length xs) (seg_size h)" using assms by (intro full_windows seg_size_pos)
  then have "length (partial_file L key h xs n) = HEADER_LEN + n * record_len h"
    using assms by (simp add: length_partial_file segment_offset_def)
  then show ?thesis using record_len_pos [of h] by simp
qed

lemma truncate_partial:
  assumes "pool_lib_ok L" "wf_header (pw_header w)" "n * seg_size (pw_header w) \<le> length xs"
    and "pw_segments_written w = n"
  shows "truncate_to_written (partial_file L key (pw_header w) xs n @ g) w = partial_file L key (pw_header w) xs n"
proof -
  have "n \<le> ceil_div (length xs) (seg_size (pw_header w))" using assms by (intro full_windows seg_size_pos)
  with assms show ?thesis
    by (simp add: truncate_to_written_def file_set_len_prefix length_partial_file)
qed

text \<open>What a crash can leave after the complete segments: less than a record, or one that does not open.\<close>

definition broken_tail :: "pool_lib \<Rightarrow> bytes \<Rightarrow> header \<Rightarrow> bytes \<Rightarrow> nat \<Rightarrow> bytes \<Rightarrow> bool" where
  "broken_tail L key h xs n g \<longleftrightarrow>
     length g < record_len h \<or> (\<exists>e. open_segment L key h (partial_file L key h xs n @ g) n = Inl e)"

lemma partial_file_header: "partial_file L key h xs n @ g = encode_header h @ (pool_body L key h xs n @ g)"
  by (simp add: partial_file_def)

lemma resume_broken:
  assumes L: "pool_lib_ok L" and nb: "length nonce_base = POOL_NONCE_BASE_LEN"
    and h_def: "h = pool_header L nonce_base mxc" and n: "n * seg_size h \<le> length xs"
    and broken: "broken_tail L key h xs n g"
  shows "resume_pending L key (Some (partial_file L key h xs n @ g)) name mxc =
     Inr (partial_file L key h xs n, writer_at key h name xs n)"
proof -
  let ?f = "partial_file L key h xs n @ g"
  have h: "wf_header h" using nb by (simp add: h_def wf_pool_header)
  have hd: "read_header ?f = Inr h"
    unfolding partial_file_header by (rule read_encoded_header [OF h])
  have own: "hd_segment_size h = SEGMENT_SIZE" "hd_owner h = owner_of L mxc"
    by (simp_all add: h_def pool_header_def)
  let ?records = "n + length g div record_len h"
  have "resume_scan L ?f ?records 0 (writer_new key h name) = resume_scan L ?f ?records n (writer_at key h name xs n)"
    using resume_scan_windows [OF L h n, of ?records 0 key g name] by (simp add: writer_at_0)
  also have "\<dots> = Inr (writer_at key h name xs n)"
    using broken by (subst resume_scan.simps) (auto simp: broken_tail_def)
  finally have scan: "resume_scan L ?f ?records 0 (writer_new key h name) = Inr (writer_at key h name xs n)" .
  have "truncate_to_written ?f (writer_at key h name xs n) = partial_file L key h xs n"
    using truncate_partial [of L "writer_at key h name xs n" n xs key g] L h n by simp
  with hd own scan records_cut [OF L h n, of key g] show ?thesis
    by (simp add: resume_pending_def Let_def del: length_append)
qed

text \<open>
  C6. A crash cannot change the stored file: whatever number of complete segments it left, and
  whatever broken tail (half a record, or a record that does not decrypt), \<open>resume_pending\<close> keeps
  exactly those segments, and writing the rest of the plaintext in any pieces and finishing gives
  the same file and the same hashes as an uninterrupted write; so a segment number is never
  sealed with two different plaintexts.
\<close>

theorem resume_completes_identically:
  assumes "pool_lib_ok L" and "length nonce_base = POOL_NONCE_BASE_LEN"
    and "h = pool_header L nonce_base mxc" and "n * seg_size h \<le> length xs" and "xs \<noteq> []"
    and "broken_tail L key h xs n g" and "concat pieces = drop (n * seg_size h) xs"
  shows "\<exists>f0 w0 f w. resume_pending L key (Some (partial_file L key h xs n @ g)) name mxc = Inr (f0, w0)
     \<and> pw_plain_len w0 = n * seg_size h
     \<and> write_pieces L f0 w0 pieces = Some (Inr (f, w))
     \<and> writer_finish L f w = Inr (pool_file L key h xs, finished_of L h xs)"
proof -
  let ?f = "partial_file L key h xs n" and ?w = "writer_at key h name xs n"
  have h: "wf_header h" using assms(2,3) by (simp add: wf_pool_header)
  have "writer_inv L ?f ?w (take (n * seg_size h) xs)"
    using assms(1,4) h by (intro writer_at_inv)
  then obtain f w where wr: "write_pieces L ?f ?w pieces = Some (Inr (f, w))"
    and inv: "writer_inv L f w (take (n * seg_size h) xs @ concat pieces)" and same: "same_pool ?w w"
    using write_pieces_inv by (metis writer_at_sel(6))
  have "pw_key w = key" "pw_header w = h" using same by (simp_all add: same_pool_def)
  then have "writer_finish L f w = Inr (pool_file L key h xs, finished_of L h xs)"
    using writer_finish_holds [OF inv] assms(5,7) by simp
  with wr resume_broken [OF assms(1-4,6)] show ?thesis by simp
qed

lemma pool_file_last:
  assumes "length xs mod seg_size h \<noteq> 0" and "n = length xs div seg_size h" and "wf_header h"
  shows "pool_file L key h xs =
     partial_file L key h xs n @ sealed_record L key h n (window (seg_size h) xs n)"
  using assms seg_size_pos [OF assms(3)]
  by (simp add: pool_file_def ceil_div_alt partial_file_def pool_body_Suc)

text \<open>
  Resuming a file that was already finished with a short last segment loads that segment
  back: the writer counts the whole plaintext, refuses every further byte (the same segment number
  would be sealed again) and finishing rewrites the identical file.
\<close>

lemma resume_finished_file:
  assumes "pool_lib_ok L" and "length nonce_base = POOL_NONCE_BASE_LEN"
    and "h = pool_header L nonce_base mxc" and "length xs mod seg_size h \<noteq> 0"
  shows "\<exists>f w. resume_pending L key (Some (pool_file L key h xs)) name mxc = Inr (f, w)
     \<and> pw_plain_len w = length xs
     \<and> (\<forall>d. writer_write L f w d = (if d = [] then Some (Inr (f, w)) else Some (Inl Io)))
     \<and> writer_finish L f w = Inr (pool_file L key h xs, finished_of L h xs)"
proof -
  define n where "n = length xs div seg_size h"
  let ?d = "window (seg_size h) xs n" and ?f = "pool_file L key h xs"
  let ?w = "(writer_hash (writer_at key h name xs n) ?d)\<lparr>pw_buffer := ?d, pw_holds_final_segment := True\<rparr>"
  note L = assms(1) and h_def = assms(3) and short = assms(4)
  have h: "wf_header h" using assms(2) by (simp add: h_def wf_pool_header)
  have split: "n * seg_size h + length xs mod seg_size h = length xs" by (simp add: n_def)
  then have n: "n * seg_size h \<le> length xs" and n_less: "n * seg_size h < length xs"
    using short by linarith+
  have rest: "length xs - n * seg_size h < seg_size h"
    using split seg_size_pos [OF h] mod_less_divisor [of "seg_size h" "length xs"] by linarith
  have d: "?d = drop (n * seg_size h) xs" "?d \<noteq> []" "length ?d < seg_size h"
    using rest n_less by (simp_all add: window_def)
  have f: "?f = partial_file L key h xs n @ sealed_record L key h n ?d"
    using short h by (intro pool_file_last) (simp_all add: n_def)
  have sealed: "length (sealed_record L key h n ?d) = record_len h"
    using d by (intro seal_segment_ok(2) L) auto
  have c: "ceil_div (length xs) (seg_size h) = Suc n" using n_less rest by (intro ceil_div_between) auto
  have seg: "open_segment L key h ?f n = Inr \<lparr>os_plain = segment_plain h ?d, os_len = length ?d\<rparr>"
    unfolding pool_file_partial c by (intro open_window L h) (simp_all add: c)
  have data: "opened_data \<lparr>os_plain = segment_plain h ?d, os_len = length ?d\<rparr> = Inr ?d"
    by (simp add: window_bound)
  have "resume_scan L ?f (Suc n) 0 (writer_new key h name) = resume_scan L ?f (Suc n) n (writer_at key h name xs n)"
    using resume_scan_windows [OF L h n, of "Suc n" 0 key "sealed_record L key h n ?d" name]
    by (simp add: writer_at_0 f)
  also have "\<dots> = Inr ?w"
    using seg data d(3) by (subst resume_scan.simps) (simp add: Let_def)
  finally have scan: "resume_scan L ?f (Suc n) 0 (writer_new key h name) = Inr ?w" .
  have hd: "read_header ?f = Inr h"
    unfolding f partial_file_header by (rule read_encoded_header [OF h])
  have own: "hd_segment_size h = SEGMENT_SIZE" "hd_owner h = owner_of L mxc"
    by (simp_all add: h_def pool_header_def)
  have records: "(length ?f - HEADER_LEN) div record_len h = Suc n"
    using records_cut [OF L h n, of key "sealed_record L key h n ?d"] sealed record_len_pos [of h]
    by (simp only: f) simp
  have trunc: "truncate_to_written ?f ?w = partial_file L key h xs n"
    using truncate_partial [of L ?w n xs key "sealed_record L key h n ?d"] L h n by (simp add: f)
  have resume: "resume_pending L key (Some ?f) name mxc = Inr (partial_file L key h xs n, ?w)"
    using hd own scan records trunc by (simp add: resume_pending_def Let_def)
  have inv: "writer_inv L (partial_file L key h xs n) ?w xs"
    using writer_at_inv [OF L h n, of key name] d rest n
    by (simp add: writer_inv_def writer_holds_def writer_at_def writer_new_def writer_hash_def
        writer_segment_size_def)
  have "xs \<noteq> []" using n_less by auto
  from writer_finish_holds [OF inv this] resume inv show ?thesis
    by (auto simp: writer_write_def write_loop.simps writer_inv_def writer_holds_def)
qed

text \<open>Now any file at all, whoever damaged it.\<close>

definition open_data :: "pool_lib \<Rightarrow> bytes \<Rightarrow> header \<Rightarrow> bytes \<Rightarrow> nat \<Rightarrow> sdk_error + bytes" where
  "open_data L key h f i = rbind (open_segment L key h f i) opened_data"

definition kept_segments :: "pool_lib \<Rightarrow> bytes \<Rightarrow> header \<Rightarrow> bytes \<Rightarrow> nat \<Rightarrow> bytes \<Rightarrow> bool" where
  "kept_segments L key h f n xs \<longleftrightarrow>
     length xs = n * seg_size h \<and> (\<forall>i<n. open_data L key h f i = Inr (window (seg_size h) xs i))"

lemma open_segment_data:
  assumes L: "pool_lib_ok L" and s: "open_segment L key h f i = Inr s"
  obtains d where "opened_data s = Inr d" "length d = os_len s" "0 < os_len s" "os_len s \<le> seg_size h"
proof -
  from s obtain sealed m where sealed: "file_read_exact f (segment_offset h i) (record_len h) = Some sealed"
    and m: "x_decrypt L key (fst (nonce_and_aad h i)) (snd (nonce_and_aad h i)) sealed = Some m"
    and len: "os_plain s = m" "0 < os_len s" "os_len s \<le> seg_size h"
    by (auto simp: open_segment_def case_prod_unfold Let_def rbind_eq_Inr split: if_splits)
  have "length sealed = record_len h" using sealed by (auto simp: file_read_exact_def split: if_splits)
  moreover have "length sealed = length m + 16" using L m unfolding pool_lib_ok_def by blast
  ultimately have "length m = LEN_FIELD + seg_size h" by (simp add: record_len_def pool_consts)
  with len show ?thesis
    by (intro that [of "take (os_len s) (drop LEN_FIELD m)"]) (auto simp: opened_data_def get_range_def)
qed

lemma kept_segments_0 [simp]: "kept_segments L key h f 0 xs \<longleftrightarrow> xs = []"
  by (simp add: kept_segments_def)

lemma kept_segments_Suc:
  assumes "kept_segments L key h f n xs" and "open_data L key h f n = Inr d" and "length d = seg_size h"
  shows "kept_segments L key h f (Suc n) (xs @ d)"
proof -
  have len: "length xs = n * seg_size h" using assms(1) by (simp add: kept_segments_def)
  have "open_data L key h f i = Inr (window (seg_size h) (xs @ d) i)" if "i < Suc n" for i
  proof (cases "i = n")
    case True
    then have "window (seg_size h) (xs @ d) i = d" using len assms(3) by (simp add: window_def)
    with True assms(2) show ?thesis by simp
  next
    case False
    with that have "i < n" by simp
    then have "(i + 1) * seg_size h \<le> n * seg_size h" by (intro mult_le_mono1) simp
    with len have "window (seg_size h) (xs @ d) i = window (seg_size h) xs i" by (intro window_append) simp
    with \<open>i < n\<close> assms(1) show ?thesis by (simp add: kept_segments_def)
  qed
  with len assms(3) show ?thesis by (simp add: kept_segments_def)
qed

lemma rehash_kept:
  assumes kept: "kept_segments L (pw_key w) (pw_header w) f n xs"
  shows "rehash_up_to L f w n =
     Inr (w\<lparr>pw_blake3 := xs, pw_sha256 := xs, pw_plain_len := length xs, pw_segments_written := n\<rparr>)"
proof -
  let ?c = "seg_size (pw_header w)"
  let ?w = "\<lambda>i. w\<lparr>pw_blake3 := take (i * ?c) xs, pw_sha256 := take (i * ?c) xs,
     pw_plain_len := i * ?c, pw_segments_written := n\<rparr>"
  have "fold (rehash_step L f) [0..<i] (Inr (?w 0)) = Inr (?w i)" if "i \<le> n" for i
    using that
  proof (induction i)
    case 0
    then show ?case by simp
  next
    case (Suc i)
    have "open_data L (pw_key w) (pw_header w) f i = Inr (window ?c xs i)"
      using kept Suc.prems by (simp add: kept_segments_def)
    then obtain s where s: "open_segment L (pw_key w) (pw_header w) f i = Inr s"
      "opened_data s = Inr (window ?c xs i)" by (auto simp: open_data_def rbind_eq_Inr)
    have "Suc i * ?c \<le> n * ?c" using Suc.prems by (rule mult_le_mono1)
    then have "Suc i * ?c \<le> length xs" using kept by (simp add: kept_segments_def)
    then have "writer_hash (?w i) (window ?c xs i) = ?w (Suc i)"
      using take_window [of i ?c xs] by (simp add: writer_hash_def window_full)
    with Suc s show ?case by (simp add: rehash_step_def)
  qed
  from this [of n] kept show ?thesis by (simp add: rehash_up_to_def kept_segments_def)
qed

text \<open>What a scan over any file ends with.\<close>

definition scanned :: "pool_lib \<Rightarrow> bytes \<Rightarrow> nat \<Rightarrow> pool_writer \<Rightarrow> bytes \<Rightarrow> bool" where
  "scanned L f records w xs \<longleftrightarrow>
     kept_segments L (pw_key w) (pw_header w) f (pw_segments_written w) xs
     \<and> pw_segments_written w \<le> records
     \<and> pw_blake3 w = xs @ pw_buffer w \<and> pw_sha256 w = xs @ pw_buffer w
     \<and> pw_plain_len w = length xs + length (pw_buffer w)
     \<and> (pw_holds_final_segment w \<longleftrightarrow> pw_buffer w \<noteq> [])
     \<and> (pw_buffer w \<noteq> [] \<longrightarrow> pw_segments_written w + 1 = records
          \<and> length (pw_buffer w) < writer_segment_size w
          \<and> open_data L (pw_key w) (pw_header w) f (pw_segments_written w) = Inr (pw_buffer w))"

lemma resume_scan_any:
  assumes L: "pool_lib_ok L"
  shows "scanned L f records w xs \<Longrightarrow> pw_buffer w = [] \<Longrightarrow> pw_segments_written w = index \<Longrightarrow>
     \<exists>w' ys. resume_scan L f records index w = Inr w' \<and> scanned L f records w' ys
        \<and> pw_key w' = pw_key w \<and> pw_header w' = pw_header w"
proof (induction "records - index" arbitrary: index w xs rule: less_induct)
  case less
  let ?open = "open_segment L (pw_key w) (pw_header w) f index"
  consider (stop) "\<not> index < records \<or> (\<exists>e. ?open = Inl e)" | (go) s where "index < records" "?open = Inr s"
    by (cases ?open) auto
  then show ?case
  proof cases
    case stop
    then have "resume_scan L f records index w = Inr w" by (subst resume_scan.simps) auto
    with less.prems show ?thesis by blast
  next
    case go
    obtain d where d: "opened_data s = Inr d" "length d = os_len s" "0 < os_len s"
      "os_len s \<le> seg_size (pw_header w)"
      using open_segment_data [OF L go(2)] by blast
    then have data: "open_data L (pw_key w) (pw_header w) f index = Inr d" and "d \<noteq> []"
      using go(2) by (auto simp: open_data_def)
    have kept: "kept_segments L (pw_key w) (pw_header w) f index xs"
      using less.prems by (simp add: scanned_def)
    let ?w1 = "writer_hash w d"
    consider (full) "os_len s = writer_segment_size w"
      | (final) "os_len s < writer_segment_size w" "index + 1 = records"
      | (short) "os_len s < writer_segment_size w" "index + 1 \<noteq> records"
      using d(4) by (fastforce simp: writer_segment_size_def)
    then show ?thesis
    proof cases
      case full
      let ?w2 = "?w1\<lparr>pw_segments_written := index + 1\<rparr>"
      have "kept_segments L (pw_key w) (pw_header w) f (Suc index) (xs @ d)"
        using kept data full d(2) by (intro kept_segments_Suc) (simp_all add: writer_segment_size_def)
      then have "scanned L f records ?w2 (xs @ d)"
        using less.prems go(1) by (simp add: scanned_def writer_hash_def)
      with go(1) less.hyps [of "index + 1" ?w2 "xs @ d"] less.prems
      have "\<exists>w' ys. resume_scan L f records (index + 1) ?w2 = Inr w' \<and> scanned L f records w' ys
        \<and> pw_key w' = pw_key w \<and> pw_header w' = pw_header w" by simp
      then show ?thesis
        by (subst resume_scan.simps) (simp add: go d(1) full Let_def)
    next
      case final
      let ?w2 = "?w1\<lparr>pw_buffer := pw_buffer w @ d, pw_holds_final_segment := True\<rparr>"
      have "scanned L f records ?w2 xs"
        using less.prems final data \<open>d \<noteq> []\<close> d(2) by (simp add: scanned_def writer_hash_def writer_segment_size_def)
      moreover have "resume_scan L f records index w = Inr ?w2"
        using final by (subst resume_scan.simps) (simp add: go d(1) Let_def)
      ultimately show ?thesis by (intro exI [of _ ?w2] exI [of _ xs]) simp
    next
      case short
      let ?w2 = "?w1\<lparr>pw_blake3 := xs, pw_sha256 := xs, pw_plain_len := length xs, pw_segments_written := index\<rparr>"
      have "rehash_up_to L f ?w1 index = Inr ?w2" using kept by (intro rehash_kept) simp
      then have "resume_scan L f records index w = Inr ?w2"
        using short by (subst resume_scan.simps) (simp add: go d(1) Let_def)
      moreover have "scanned L f records ?w2 xs" using less.prems by (simp add: scanned_def writer_hash_def)
      ultimately show ?thesis by (intro exI [of _ ?w2] exI [of _ xs]) simp
    qed
  qed
qed

text \<open>
  Resuming never fails on damage behind a good header, and never trusts it: for any bytes
  whose header is this version's and names this media, \<open>resume_pending\<close> returns a writer whose
  hashes and length are those of segments that all decrypt as full segments of the file (plus, in
  the buffer, a short one only when it is the very last record), and the file is cut right after
  the last full one; a short segment in the middle ends the file before it.
\<close>

lemma resume_any_file:
  assumes "pool_lib_ok L" and "read_header f = Inr h"
    and "hd_segment_size h = SEGMENT_SIZE" and "hd_owner h = owner_of L mxc"
  shows "\<exists>w xs. resume_pending L key (Some f) name mxc = Inr (take (segment_offset h (pw_segments_written w)) f, w)
     \<and> pw_key w = key \<and> pw_header w = h
     \<and> scanned L f ((length f - HEADER_LEN) div record_len h) w xs"
proof -
  let ?records = "(length f - HEADER_LEN) div record_len h"
  have "scanned L f ?records (writer_new key h name) []" by (simp add: scanned_def writer_new_def)
  from resume_scan_any [OF assms(1) this, of 0]
  obtain w xs where w: "resume_scan L f ?records 0 (writer_new key h name) = Inr w"
    "scanned L f ?records w xs" "pw_key w = key" "pw_header w = h"
    by (auto simp: writer_new_def)
  have "HEADER_LEN \<le> length f"
    using assms(2) by (auto simp: read_header_def rbind_eq_Inr file_read_exact_def split: if_splits)
  moreover have "pw_segments_written w * record_len h \<le> ?records * record_len h"
    using w(2) unfolding scanned_def by (intro mult_le_mono1) blast
  moreover have "?records * record_len h \<le> length f - HEADER_LEN" by simp
  ultimately have "segment_offset h (pw_segments_written w) \<le> length f"
    unfolding segment_offset_def by linarith
  then have "truncate_to_written f w = take (segment_offset h (pw_segments_written w)) f"
    by (simp add: truncate_to_written_def file_set_len_def w(4))
  with w assms(2-4) show ?thesis
    by (intro exI [of _ w] exI [of _ xs]) (simp add: resume_pending_def Let_def)
qed

section \<open>The properties at concrete inputs\<close>

text \<open>A stand-in library: the tag is the second half of the nonce.\<close>

definition demo_tag :: "bytes \<Rightarrow> bytes" where
  "demo_tag n = take 16 (drop 8 n @ replicate 16 0)"

definition demo_pool :: pool_lib where
  "demo_pool =
     \<lparr>x_encrypt = (\<lambda>k n a m. Some (m @ demo_tag n)),
      x_decrypt = (\<lambda>k n a s.
        if 16 \<le> length s \<and> drop (length s - 16) s = demo_tag n then Some (take (length s - 16) s) else None),
      h_blake3 = (\<lambda>m. take 32 (m @ replicate 32 0)), h_sha256 = (\<lambda>m. take 32 (m @ replicate 32 1)),
      to_hex = (\<lambda>m. replicate (2 * length m) CHR ''a'')\<rparr>"

lemma demo_pool_ok: "pool_lib_ok demo_pool"
proof -
  have tag: "length (demo_tag n) = 16" for n by (simp add: demo_tag_def)
  have "x_decrypt demo_pool k n a s = Some m \<longleftrightarrow> x_encrypt demo_pool k n a m = Some s" for k n a s m
  proof
    assume "x_decrypt demo_pool k n a s = Some m"
    then show "x_encrypt demo_pool k n a m = Some s"
      using append_take_drop_id [of "length s - 16" s]
      by (auto simp: demo_pool_def simp del: append_take_drop_id split: if_splits)
  qed (auto simp: demo_pool_def tag)
  then show ?thesis
    by (auto simp: pool_lib_ok_def) (auto simp: demo_pool_def tag)
qed

definition demo_header :: header where
  "demo_header = pool_header demo_pool (replicate 16 3) [4]"

definition demo_small_header :: header where
  "demo_small_header = \<lparr>hd_segment_size = 2, hd_nonce_base = replicate 16 3, hd_owner = 0\<rparr>"

definition demo_dir :: pool_dir where
  "demo_dir =
     \<lparr>pd_complete = [''abcd'' \<mapsto> pool_file demo_pool [1] demo_small_header [1, 2, 3]],
      pd_pending = Map.empty, pd_seek = Map.empty, pd_open_readers = (\<lambda>_. 0)\<rparr>"

lemma demo_header_facts:
  "length (replicate 16 3 :: bytes) = POOL_NONCE_BASE_LEN" "seg_size demo_header = 65536"
  "hd_segment_size demo_header = SEGMENT_SIZE" "hd_owner demo_header = owner_of demo_pool [4]"
  by (simp_all add: POOL_NONCE_BASE_LEN_def demo_header_def pool_header_def SEGMENT_SIZE_def)

theorem store_any_splitting_witness:
  "\<exists>f0 w0 f w. create_pending demo_pool [1] (Inr (replicate 16 3)) ''m1'' [4] = Inr (f0, w0)
     \<and> write_pieces demo_pool f0 w0 [[1, 2], [], [3]] = Some (Inr (f, w))
     \<and> writer_finish demo_pool f w =
         Inr (pool_file demo_pool [1] (pool_header demo_pool (replicate 16 3) [4]) (concat [[1, 2], [], [3]]),
              finished_of demo_pool (pool_header demo_pool (replicate 16 3) [4]) (concat [[1, 2], [], [3]]))"
  by (rule store_any_splitting [OF demo_pool_ok]) (simp_all add: POOL_NONCE_BASE_LEN_def)


theorem resume_completes_identically_witness:
  "\<exists>f0 w0 f w. resume_pending demo_pool [1]
         (Some (partial_file demo_pool [1] demo_header (replicate 65537 9) 1 @ [7, 7])) ''m1'' [4] = Inr (f0, w0)
     \<and> pw_plain_len w0 = 1 * seg_size demo_header
     \<and> write_pieces demo_pool f0 w0 [[9]] = Some (Inr (f, w))
     \<and> writer_finish demo_pool f w =
         Inr (pool_file demo_pool [1] demo_header (replicate 65537 9),
              finished_of demo_pool demo_header (replicate 65537 9))"
  by (rule resume_completes_identically [OF demo_pool_ok demo_header_facts(1) demo_header_def])
     (simp_all add: demo_header_facts(2) broken_tail_def record_len_def pool_consts)

theorem resume_finished_file_witness:
  "\<exists>f w. resume_pending demo_pool [1] (Some (pool_file demo_pool [1] demo_header [5, 6, 7])) ''m1'' [4] = Inr (f, w)
     \<and> writer_write demo_pool f w [8] = Some (Inl Io)"
proof -
  have "length [5, 6, 7 :: byte] mod seg_size demo_header \<noteq> 0" by (simp add: demo_header_facts(2))
  from resume_finished_file [OF demo_pool_ok demo_header_facts(1) demo_header_def this, of "[1]" "''m1''"]
  obtain f w where resumed:
    "resume_pending demo_pool [1] (Some (pool_file demo_pool [1] demo_header [5, 6, 7])) ''m1'' [4] = Inr (f, w)"
    and "\<forall>d. writer_write demo_pool f w d = (if d = [] then Some (Inr (f, w)) else Some (Inl Io))" by blast
  then have "writer_write demo_pool f w [8] = (if [8] = ([] :: bytes) then Some (Inr (f, w)) else Some (Inl Io))"
    by blast
  with resumed show ?thesis by auto
qed

theorem resume_any_file_witness:
  "\<exists>w. resume_pending demo_pool [1] (Some (encode_header demo_header @ [1, 2])) ''m1'' [4]
     = Inr (take (segment_offset demo_header (pw_segments_written w)) (encode_header demo_header @ [1, 2]), w)"
proof -
  have "wf_header demo_header" by (simp add: demo_header_def wf_pool_header POOL_NONCE_BASE_LEN_def)
  then have "read_header (encode_header demo_header @ [1, 2]) = Inr demo_header" by (rule read_encoded_header)
  then show ?thesis
    using resume_any_file [OF demo_pool_ok _ demo_header_facts(3,4)] by blast
qed

end
