(* ===== verification/Seek_Store.thy ===== *)
theory Seek_Store
  imports Media_Pool
begin

text \<open>
  \<open>crates/wbf-sdk/src/seek_store.rs\<close>: the append-only file of chunks fetched out of order.  As in
  the pool, the operations take the file's bytes and return them changed.  A write that fails
  half way (disk full) is an input: how many bytes of the cell reached the file.
\<close>

definition SEEK_MAGIC :: bytes where "SEEK_MAGIC = map (of_nat \<circ> of_char) ''WBFS''"
definition SEEK_VERSION :: byte where "SEEK_VERSION = 1"
definition SEEK_HEADER_LEN :: nat where "SEEK_HEADER_LEN = 32"
definition SEEK_NONCE_BASE_LEN :: nat where "SEEK_NONCE_BASE_LEN = 16"
definition INDEX_FIELD :: nat where "INDEX_FIELD = 4"
definition SEEK_LEN_FIELD :: nat where "SEEK_LEN_FIELD = 4"
definition SEEK_TAG_LEN :: nat where "SEEK_TAG_LEN = 16"
definition SEEK_AAD_PREFIX :: bytes where "SEEK_AAD_PREFIX = map (of_nat \<circ> of_char) ''wbf-media-seek v1''"
definition MAX_SEEK_CHUNKS :: nat where "MAX_SEEK_CHUNKS = 2 ^ 26"
definition U32_MAX :: nat where "U32_MAX = 2 ^ 32 - 1"

text \<open>\<open>slots ! i = s + 1\<close> when chunk \<open>i\<close> is in cell \<open>s\<close>, \<open>0\<close> when there is none.\<close>

record seek_store =
  ss_key :: bytes
  ss_nonce_base :: bytes
  ss_chunk_size :: u32
  ss_mxc :: bytes
  ss_slots :: "nat list"
  ss_cells :: nat

definition cell_len :: "seek_store \<Rightarrow> nat" where
  "cell_len st = INDEX_FIELD + SEEK_LEN_FIELD + unat (ss_chunk_size st) + SEEK_TAG_LEN"

definition cell_offset :: "seek_store \<Rightarrow> nat \<Rightarrow> nat" where
  "cell_offset st slot = SEEK_HEADER_LEN + slot * cell_len st"

definition cell_nonce_and_aad :: "seek_store \<Rightarrow> nat \<Rightarrow> u32 \<Rightarrow> bytes \<times> bytes" where
  "cell_nonce_and_aad st slot index =
     (ss_nonce_base st @ u64_to_le (of_nat slot),
      SEEK_AAD_PREFIX @ ss_nonce_base st @ u64_to_le (of_nat slot) @ u32_to_le index
      @ u32_to_le (ss_chunk_size st) @ ss_mxc st)"

definition seek_encode_header :: "u32 \<Rightarrow> u32 \<Rightarrow> bytes \<Rightarrow> bytes" where
  "seek_encode_header chunk_size chunk_count nonce_base =
     SEEK_MAGIC @ [SEEK_VERSION] @ [0, 0, 0] @ u32_to_le chunk_size @ u32_to_le chunk_count @ nonce_base"

definition has :: "seek_store \<Rightarrow> u32 \<Rightarrow> bool" where
  "has st index \<longleftrightarrow>
     (if unat index < length (ss_slots st) then ss_slots st ! unat index \<noteq> 0 else False)"

text \<open>\<open>read_cell\<close>: the stored index and the plaintext.\<close>

definition read_cell :: "pool_lib \<Rightarrow> bytes \<Rightarrow> seek_store \<Rightarrow> nat \<Rightarrow> sdk_error + u32 \<times> bytes" where
  "read_cell L f st slot =
     rbind (ok_or Io (file_read_exact f (cell_offset st slot) (cell_len st))) (\<lambda>cell.
     if length cell < 4 then Inl Io
     else
       let index = u32_from_le (take 4 cell);
           sealed = drop 4 cell;
           (nonce, aad) = cell_nonce_and_aad st slot index
       in rbind (ok_or Io (x_decrypt L (ss_key st) nonce aad sealed)) (\<lambda>padded.
          rbind (ok_or Io (map_option (unat \<circ> u32_from_le) (first_chunk 4 padded))) (\<lambda>len.
          if len = 0 \<or> len > unat (ss_chunk_size st) then Inl Io
          else
            rbind (ok_or Io (get_range padded SEEK_LEN_FIELD (SEEK_LEN_FIELD + len))) (\<lambda>plain.
            Inr (index, plain)))))"

text \<open>The loop of \<open>reopen\<close> over one cell: out-of-range indices are skipped, the first cell of a
  chunk wins.\<close>

definition scan_slot :: "bytes \<Rightarrow> seek_store \<Rightarrow> nat \<Rightarrow> sdk_error + seek_store" where
  "scan_slot f st slot =
     rbind (ok_or Io (file_read_exact f (cell_offset st slot) INDEX_FIELD)) (\<lambda>field.
     let index = unat (u32_from_le field) in
     if \<not> index < length (ss_slots st) then Inr st
     else if ss_slots st ! index = 0 then Inr (st\<lparr>ss_slots := (ss_slots st)[index := slot + 1]\<rparr>)
     else Inr st)"

definition scan_slots :: "bytes \<Rightarrow> seek_store \<Rightarrow> nat \<Rightarrow> sdk_error + seek_store" where
  "scan_slots f st n = fold (\<lambda>slot r. rbind r (\<lambda>st'. scan_slot f st' slot)) [0..<n] (Inr st)"

definition reopen ::
    "pool_lib \<Rightarrow> bytes \<Rightarrow> bytes \<Rightarrow> bytes \<Rightarrow> u32 \<Rightarrow> u32 \<Rightarrow> sdk_error + seek_store option" where
  "reopen L key f mxc chunk_size chunk_count =
     (case file_read_exact f 0 SEEK_HEADER_LEN of
        None \<Rightarrow> Inr None
      | Some header \<Rightarrow>
          if take 4 header \<noteq> SEEK_MAGIC \<or> header ! 4 \<noteq> SEEK_VERSION
             \<or> u32_from_le (take 4 (drop 8 header)) \<noteq> chunk_size
             \<or> u32_from_le (take 4 (drop 12 header)) \<noteq> chunk_count
          then Inr None
          else
            let st = \<lparr>ss_key = key, ss_nonce_base = take SEEK_NONCE_BASE_LEN (drop 16 header),
                      ss_chunk_size = chunk_size, ss_mxc = mxc,
                      ss_slots = replicate (unat chunk_count) 0, ss_cells = 0\<rparr>;
                body = length f - SEEK_HEADER_LEN;
                whole_cells = min (body div cell_len st) U32_MAX;
                used_cells = min (ceil_div body (cell_len st)) U32_MAX
            in rbind (scan_slots f st whole_cells) (\<lambda>st1.
               let st2 = st1\<lparr>ss_cells := used_cells\<rparr> in
               if whole_cells > 0 \<and> (case read_cell L f st2 0 of Inl _ \<Rightarrow> True | Inr _ \<Rightarrow> False)
               then Inr None
               else Inr (Some st2)))"

text \<open>\<open>SeekStore::open\<close>; \<open>existing\<close> is the file when there is one that opens.\<close>

definition seek_open ::
    "pool_lib \<Rightarrow> bytes \<Rightarrow> bytes option \<Rightarrow> sdk_error + bytes \<Rightarrow> bytes \<Rightarrow> u32 \<Rightarrow> u32
      \<Rightarrow> sdk_error + bytes \<times> seek_store" where
  "seek_open L key existing nonce_draw mxc chunk_size chunk_count =
     (if chunk_size = 0 \<or> chunk_count = 0 \<or> unat chunk_count > MAX_SEEK_CHUNKS then Inl Usage
      else
        let fresh = rbind nonce_draw (\<lambda>nonce_base.
              Inr (seek_encode_header chunk_size chunk_count nonce_base,
                   \<lparr>ss_key = key, ss_nonce_base = nonce_base, ss_chunk_size = chunk_size, ss_mxc = mxc,
                    ss_slots = replicate (unat chunk_count) 0, ss_cells = 0\<rparr>))
        in case existing of
             None \<Rightarrow> fresh
           | Some f \<Rightarrow>
               rbind (reopen L key f mxc chunk_size chunk_count) (\<lambda>r.
               case r of Some st \<Rightarrow> Inr (f, st) | None \<Rightarrow> fresh))"

section \<open>Appending and reading\<close>

datatype write_outcome = Wrote_All | Failed_After nat

definition seal_cell :: "pool_lib \<Rightarrow> seek_store \<Rightarrow> nat \<Rightarrow> u32 \<Rightarrow> bytes \<Rightarrow> sdk_error + bytes" where
  "seal_cell L st slot index plain =
     (let padded = u32_to_le (of_nat (length plain)) @ plain
                   @ replicate (unat (ss_chunk_size st) - length plain) 0;
          (nonce, aad) = cell_nonce_and_aad st slot index
      in rbind (ok_or Io (x_encrypt L (ss_key st) nonce aad padded)) (\<lambda>sealed.
         Inr (u32_to_le index @ sealed)))"

text \<open>The result together with the file and the store, which change also when the write fails.\<close>

definition append_chunk ::
    "pool_lib \<Rightarrow> bytes \<Rightarrow> seek_store \<Rightarrow> u32 \<Rightarrow> bytes \<Rightarrow> write_outcome
      \<Rightarrow> (sdk_error + unit) \<times> bytes \<times> seek_store" where
  "append_chunk L f st index plain outcome =
     (if \<not> unat index < length (ss_slots st) then (Inl Usage, f, st)
      else if has st index then (Inr (), f, st)
      else if plain = [] \<or> length plain > unat (ss_chunk_size st) then (Inl Usage, f, st)
      else if ss_cells st + 1 > U32_MAX then (Inl Usage, f, st)
      else
        let slot = ss_cells st;
            st1 = st\<lparr>ss_cells := slot + 1\<rparr>
        in case seal_cell L st1 slot index plain of
             Inl e \<Rightarrow> (Inl e, f, st1)
           | Inr cell \<Rightarrow>
               (case outcome of
                  Failed_After n \<Rightarrow>
                    (Inl Io, (if n = 0 then f else file_write_at f (cell_offset st1 slot) (take n cell)), st1)
                | Wrote_All \<Rightarrow>
                    (Inr (), file_write_at f (cell_offset st1 slot) cell,
                     st1\<lparr>ss_slots := (ss_slots st1)[unat index := slot + 1]\<rparr>)))"

definition read_chunk_of :: "pool_lib \<Rightarrow> bytes \<Rightarrow> seek_store \<Rightarrow> u32 \<Rightarrow> seek_store \<times> bytes option" where
  "read_chunk_of L f st index =
     (if \<not> has st index then (st, None)
      else
        let slot = ss_slots st ! unat index;
            gone = (st\<lparr>ss_slots := (ss_slots st)[unat index := 0]\<rparr>, None)
        in case read_cell L f st (slot - 1) of
             Inr (stored_index, plain) \<Rightarrow> if stored_index = index then (st, Some plain) else gone
           | Inl _ \<Rightarrow> gone)"

end
