(* ===== verification/Seek_Correct.thy ===== *)
theory Seek_Correct
  imports Seek_Store Pool_Correct
begin

text \<open>
  What the seek file promises: it behaves as a map from chunk numbers to chunks in which the
  first write of a chunk wins, it only ever grows (so no cell number, hence no nonce, is used for
  two contents), and reopening after a torn write finds every chunk again.
\<close>

definition wf_seek :: "seek_store \<Rightarrow> bool" where
  "wf_seek st \<longleftrightarrow> ss_chunk_size st \<noteq> 0 \<and> length (ss_nonce_base st) = SEEK_NONCE_BASE_LEN
     \<and> length (ss_slots st) \<le> MAX_SEEK_CHUNKS"

lemmas seek_consts = SEEK_HEADER_LEN_def INDEX_FIELD_def SEEK_LEN_FIELD_def SEEK_TAG_LEN_def
  SEEK_NONCE_BASE_LEN_def

abbreviation valid_plain :: "seek_store \<Rightarrow> bytes \<Rightarrow> bool" where
  "valid_plain st d \<equiv> d \<noteq> [] \<and> length d \<le> unat (ss_chunk_size st)"

section \<open>One cell\<close>

definition cell_plain :: "seek_store \<Rightarrow> bytes \<Rightarrow> bytes" where
  "cell_plain st d = u32_to_le (of_nat (length d)) @ d @ replicate (unat (ss_chunk_size st) - length d) 0"

definition cell_of :: "pool_lib \<Rightarrow> seek_store \<Rightarrow> nat \<Rightarrow> u32 \<Rightarrow> bytes \<Rightarrow> bytes" where
  "cell_of L st slot index d = (case seal_cell L st slot index d of Inr c \<Rightarrow> c | Inl _ \<Rightarrow> [])"

lemma seal_cell_ok:
  assumes L: "pool_lib_ok L" and d: "valid_plain st d"
  obtains s where "x_encrypt L (ss_key st) (fst (cell_nonce_and_aad st slot index))
      (snd (cell_nonce_and_aad st slot index)) (cell_plain st d) = Some s"
    "seal_cell L st slot index d = Inr (u32_to_le index @ s)"
    "cell_of L st slot index d = u32_to_le index @ s" "length (u32_to_le index @ s) = cell_len st"
proof -
  let ?n = "fst (cell_nonce_and_aad st slot index)" and ?a = "snd (cell_nonce_and_aad st slot index)"
  have len: "length (cell_plain st d) = 4 + unat (ss_chunk_size st)"
    using d by (simp add: cell_plain_def)
  then have "length (cell_plain st d) < 2 ^ 32 + 8" using u32_lt [of "ss_chunk_size st"] by simp
  with L obtain s where s: "x_encrypt L (ss_key st) ?n ?a (cell_plain st d) = Some s"
    unfolding pool_lib_ok_def by blast
  then have "length s = length (cell_plain st d) + 16" using L unfolding pool_lib_ok_def by blast
  moreover from s have "seal_cell L st slot index d = Inr (u32_to_le index @ s)"
    by (simp add: seal_cell_def case_prod_unfold Let_def cell_plain_def)
  ultimately show ?thesis using s
    by (intro that [of s]) (simp_all add: cell_of_def len cell_len_def seek_consts)
qed

lemma read_cell_ok:
  assumes L: "pool_lib_ok L" and d: "valid_plain st d"
    and f: "file_read_exact f (cell_offset st slot) (cell_len st) = Some (cell_of L st slot index d)"
  shows "read_cell L f st slot = Inr (index, d)"
proof -
  obtain s where s: "x_encrypt L (ss_key st) (fst (cell_nonce_and_aad st slot index))
      (snd (cell_nonce_and_aad st slot index)) (cell_plain st d) = Some s"
    "cell_of L st slot index d = u32_to_le index @ s"
    using seal_cell_ok [OF L d] by metis
  from s(1) L have "x_decrypt L (ss_key st) (fst (cell_nonce_and_aad st slot index))
      (snd (cell_nonce_and_aad st slot index)) s = Some (cell_plain st d)"
    unfolding pool_lib_ok_def by blast
  moreover have "first_chunk 4 (cell_plain st d) = Some (u32_to_le (of_nat (length d)))"
    by (simp add: first_chunk_def cell_plain_def)
  moreover have "unat (of_nat (length d) :: u32) = length d"
    using d u32_lt [of "ss_chunk_size st"] by (simp add: unat_of_nat take_bit_nat_eq_self)
  moreover have "get_range (cell_plain st d) SEEK_LEN_FIELD (SEEK_LEN_FIELD + length d) = Some d"
    by (simp add: get_range_def cell_plain_def seek_consts)
  ultimately show ?thesis
    using d f s(2) by (simp add: read_cell_def case_prod_unfold Let_def)
qed

text \<open>What a cell that opens must have been: the sealing of that chunk, in that cell, of that media.\<close>

lemma read_cell_sound:
  assumes L: "pool_lib_ok L" and r: "read_cell L f st slot = Inr (index, d)"
  shows "\<exists>cell sealed padded. file_read_exact f (cell_offset st slot) (cell_len st) = Some cell
     \<and> cell = u32_to_le index @ sealed
     \<and> x_encrypt L (ss_key st) (fst (cell_nonce_and_aad st slot index))
         (snd (cell_nonce_and_aad st slot index)) padded = Some sealed
     \<and> take (4 + length d) padded = u32_to_le (of_nat (length d)) @ d \<and> valid_plain st d"
proof -
  from r obtain cell padded where cell: "file_read_exact f (cell_offset st slot) (cell_len st) = Some cell"
    and "index = u32_from_le (take 4 cell)" and "4 \<le> length cell"
    and p: "x_decrypt L (ss_key st) (fst (cell_nonce_and_aad st slot index))
       (snd (cell_nonce_and_aad st slot index)) (drop 4 cell) = Some padded"
    and len: "4 \<le> length padded" "0 < unat (u32_from_le (take 4 padded))"
      "unat (u32_from_le (take 4 padded)) \<le> unat (ss_chunk_size st)"
    and rest: "get_range padded SEEK_LEN_FIELD (SEEK_LEN_FIELD + unat (u32_from_le (take 4 padded))) = Some d"
    by (auto simp: read_cell_def case_prod_unfold Let_def rbind_eq_Inr first_chunk_def split: if_splits)
  then have "cell = u32_to_le index @ drop 4 cell" by (simp add: le32.enc_dec)
  moreover have "x_encrypt L (ss_key st) (fst (cell_nonce_and_aad st slot index))
       (snd (cell_nonce_and_aad st slot index)) padded = Some (drop 4 cell)"
    using L p unfolding pool_lib_ok_def by blast
  moreover have d: "length d = unat (u32_from_le (take 4 padded))" "d = take (length d) (drop 4 padded)"
    using rest by (auto simp: get_range_def seek_consts split: if_splits)
  moreover have "take (4 + length d) padded = take 4 padded @ take (length d) (drop 4 padded)"
    by (rule take_add)
  moreover have "take 4 padded = u32_to_le (of_nat (length d))" using d(1) len(1) by (simp add: le32.enc_dec)
  ultimately show ?thesis using cell len by (intro exI conjI) auto
qed

section \<open>The store as a list of chunks\<close>

definition cells_body :: "pool_lib \<Rightarrow> seek_store \<Rightarrow> (u32 \<times> bytes) list \<Rightarrow> bytes" where
  "cells_body L st ps = concat (map (\<lambda>s. cell_of L st s (fst (ps ! s)) (snd (ps ! s))) [0..<length ps])"

definition seek_file :: "pool_lib \<Rightarrow> seek_store \<Rightarrow> (u32 \<times> bytes) list \<Rightarrow> bytes" where
  "seek_file L st ps =
     seek_encode_header (ss_chunk_size st) (of_nat (length (ss_slots st))) (ss_nonce_base st) @ cells_body L st ps"

definition valid_chunks :: "seek_store \<Rightarrow> (u32 \<times> bytes) list \<Rightarrow> bool" where
  "valid_chunks st ps \<longleftrightarrow>
     distinct (map fst ps) \<and> (\<forall>p\<in>set ps. unat (fst p) < length (ss_slots st) \<and> valid_plain st (snd p))"

definition slot_table :: "(u32 \<times> bytes) list \<Rightarrow> nat list \<Rightarrow> bool" where
  "slot_table ps slots \<longleftrightarrow>
     (\<forall>s<length ps. slots ! unat (fst (ps ! s)) = s + 1)
     \<and> (\<forall>i<length slots. slots ! i \<noteq> 0 \<longrightarrow> (\<exists>s<length ps. unat (fst (ps ! s)) = i))"

text \<open>The state after appending \<open>ps\<close> without a failure.\<close>

definition seek_inv :: "pool_lib \<Rightarrow> bytes \<Rightarrow> seek_store \<Rightarrow> (u32 \<times> bytes) list \<Rightarrow> bool" where
  "seek_inv L f st ps \<longleftrightarrow> pool_lib_ok L \<and> wf_seek st \<and> valid_chunks st ps
     \<and> f = seek_file L st ps \<and> ss_cells st = length ps \<and> slot_table ps (ss_slots st)"

lemma nonce_update [simp]:
  "cell_nonce_and_aad (st\<lparr>ss_slots := x\<rparr>) s i = cell_nonce_and_aad st s i"
  "cell_nonce_and_aad (st\<lparr>ss_cells := n\<rparr>) s i = cell_nonce_and_aad st s i"
  by (simp_all add: cell_nonce_and_aad_def)

lemma seal_cell_update [simp]:
  "seal_cell L (st\<lparr>ss_slots := x\<rparr>) s i d = seal_cell L st s i d"
  "seal_cell L (st\<lparr>ss_cells := n\<rparr>) s i d = seal_cell L st s i d"
  by (simp_all add: seal_cell_def)

lemma cell_of_update [simp]:
  "cell_of L (st\<lparr>ss_slots := x\<rparr>) s i d = cell_of L st s i d"
  "cell_of L (st\<lparr>ss_cells := n\<rparr>) s i d = cell_of L st s i d"
  by (simp_all add: cell_of_def)

lemma cell_len_update [simp]:
  "cell_len (st\<lparr>ss_slots := x\<rparr>) = cell_len st" "cell_len (st\<lparr>ss_cells := n\<rparr>) = cell_len st"
  "cell_offset (st\<lparr>ss_slots := x\<rparr>) s = cell_offset st s" "cell_offset (st\<lparr>ss_cells := n\<rparr>) s = cell_offset st s"
  by (simp_all add: cell_len_def cell_offset_def)

lemma cells_body_update [simp]:
  "cells_body L (st\<lparr>ss_slots := x\<rparr>) ps = cells_body L st ps"
  "cells_body L (st\<lparr>ss_cells := n\<rparr>) ps = cells_body L st ps"
  by (simp_all add: cells_body_def)

lemma length_seek_header:
  "length nb = SEEK_NONCE_BASE_LEN \<Longrightarrow> length (seek_encode_header cs cc nb) = SEEK_HEADER_LEN"
  by (simp add: seek_encode_header_def SEEK_MAGIC_def seek_consts)

lemma cells_blocks:
  assumes "pool_lib_ok L" "valid_chunks st ps" "s < length ps"
  shows "length (cell_of L st s (fst (ps ! s)) (snd (ps ! s))) = cell_len st"
proof -
  have "valid_plain st (snd (ps ! s))" using assms(2,3) by (simp add: valid_chunks_def)
  from seal_cell_ok [OF assms(1) this] show ?thesis by metis
qed

lemma length_cells_body:
  assumes "pool_lib_ok L" "valid_chunks st ps"
  shows "length (cells_body L st ps) = length ps * cell_len st"
proof -
  let ?blocks = "map (\<lambda>s. cell_of L st s (fst (ps ! s)) (snd (ps ! s))) [0..<length ps]"
  have "length (concat ?blocks) = length ?blocks * cell_len st"
    using assms by (intro length_blocks) (auto simp: cells_blocks)
  then show ?thesis by (simp add: cells_body_def)
qed

lemma length_seek_file:
  assumes "pool_lib_ok L" "wf_seek st" "valid_chunks st ps"
  shows "length (seek_file L st ps) = cell_offset st (length ps)"
  using assms by (simp add: seek_file_def length_seek_header wf_seek_def length_cells_body cell_offset_def)

lemma cells_body_snoc:
  "cells_body L st (ps @ [(i, d)]) = cells_body L st ps @ cell_of L st (length ps) i d"
proof -
  have "map (\<lambda>s. cell_of L st s (fst ((ps @ [(i, d)]) ! s)) (snd ((ps @ [(i, d)]) ! s))) [0..<length ps]
      = map (\<lambda>s. cell_of L st s (fst (ps ! s)) (snd (ps ! s))) [0..<length ps]"
    by (rule map_cong) (simp_all add: nth_append)
  then show ?thesis by (simp add: cells_body_def del: map_eq_conv)
qed

lemma read_cell_bytes:
  assumes "pool_lib_ok L" "wf_seek st" "valid_chunks st ps" "s < length ps"
  shows "file_read_exact (seek_file L st ps @ g) (cell_offset st s) (cell_len st)
           = Some (cell_of L st s (fst (ps ! s)) (snd (ps ! s)))"
proof -
  let ?blocks = "map (\<lambda>s. cell_of L st s (fst (ps ! s)) (snd (ps ! s))) [0..<length ps]"
  have "(s + 1) * cell_len st \<le> length ps * cell_len st" using assms(4) by (intro mult_le_mono1) simp
  then have fits: "s * cell_len st + cell_len st \<le> length (cells_body L st ps)"
    using assms by (simp add: length_cells_body)
  have "take (cell_len st) (drop (s * cell_len st) (concat ?blocks)) = ?blocks ! s"
    using assms by (intro take_block) (auto simp: cells_blocks)
  with fits assms(2,4) show ?thesis
    by (simp add: file_read_exact_def seek_file_def length_seek_header wf_seek_def cell_offset_def cells_body_def)
qed

lemma read_stored_cell:
  assumes "pool_lib_ok L" "wf_seek st" "valid_chunks st ps" "s < length ps"
  shows "read_cell L (seek_file L st ps @ g) st s = Inr (ps ! s)"
  using read_cell_ok [OF assms(1) _ read_cell_bytes [OF assms]] assms(3,4)
  by (simp add: valid_chunks_def)

text \<open>Reading finds exactly the chunks of the list.\<close>

lemma slot_table_absent:
  assumes "slot_table ps slots" "unat i < length slots" "i \<notin> fst ` set ps"
  shows "slots ! unat i = 0"
proof (rule ccontr)
  assume "slots ! unat i \<noteq> 0"
  then obtain s where "s < length ps" "unat (fst (ps ! s)) = unat i"
    using assms(1,2) by (auto simp: slot_table_def)
  then have "fst (ps ! s) = i" by (simp add: word_unat_eq_iff)
  with \<open>s < length ps\<close> assms(3) show False by force
qed

lemma read_chunk_map:
  assumes L: "pool_lib_ok L" and st: "wf_seek st" and ps: "valid_chunks st ps"
    and slots: "slot_table ps (ss_slots st)"
  shows "has st i \<longleftrightarrow> i \<in> fst ` set ps"
    and "read_chunk_of L (seek_file L st ps @ g) st i = (st, map_of ps i)"
proof -
  have "has st i \<and> read_chunk_of L (seek_file L st ps @ g) st i = (st, map_of ps i)" if "i \<in> fst ` set ps"
  proof -
    from that obtain s where s: "s < length ps" "fst (ps ! s) = i" by (auto simp: in_set_conv_nth)
    then have i: "unat i < length (ss_slots st)" "ss_slots st ! unat i = s + 1"
      using ps slots nth_mem [OF s(1)] by (auto simp: valid_chunks_def slot_table_def)
    have "map_of ps i = Some (snd (ps ! s))"
      using ps s by (intro map_of_is_SomeI) (auto simp: valid_chunks_def dest!: nth_mem)
    then show ?thesis
      using i s read_stored_cell [OF L st ps s(1), of g]
      by (cases "ps ! s") (simp add: has_def read_chunk_of_def)
  qed
  moreover have "\<not> has st i \<and> read_chunk_of L (seek_file L st ps @ g) st i = (st, map_of ps i)"
    if "i \<notin> fst ` set ps"
    using that slot_table_absent [OF slots _ that]
    by (auto simp: has_def read_chunk_of_def eq_commute [of None] map_of_eq_None_iff)
  ultimately show "has st i \<longleftrightarrow> i \<in> fst ` set ps"
    "read_chunk_of L (seek_file L st ps @ g) st i = (st, map_of ps i)" by blast+
qed

text \<open>Appending.\<close>

lemma chunks_bounded:
  assumes "valid_chunks st ps"
  shows "length ps \<le> length (ss_slots st)"
proof -
  have "distinct (map (unat \<circ> fst) ps)"
    using assms by (auto simp: valid_chunks_def distinct_map inj_on_def word_unat_eq_iff)
  then have "length ps = card (set (map (unat \<circ> fst) ps))" using distinct_card by fastforce
  also have "\<dots> \<le> card {..<length (ss_slots st)}"
    using assms by (intro card_mono) (auto simp: valid_chunks_def)
  finally show ?thesis by simp
qed

definition first_wins :: "(u32 \<times> bytes) list \<Rightarrow> u32 \<Rightarrow> bytes \<Rightarrow> (u32 \<times> bytes) list" where
  "first_wins ps i d = (if i \<in> fst ` set ps then ps else ps @ [(i, d)])"

lemma slot_table_snoc:
  assumes "slot_table ps slots" "unat i < length slots" "i \<notin> fst ` set ps"
    and "\<forall>p\<in>set ps. unat (fst p) < length slots"
  shows "slot_table (ps @ [(i, d)]) (slots[unat i := length ps + 1])"
proof -
  have "slots[unat i := length ps + 1] ! unat (fst ((ps @ [(i, d)]) ! s)) = s + 1" if "s < Suc (length ps)" for s
  proof (cases "s = length ps")
    case True
    then show ?thesis using assms(2) by simp
  next
    case False
    with that have s: "s < length ps" by simp
    then have "fst (ps ! s) \<noteq> i" using assms(3) nth_mem by fastforce
    with s assms show ?thesis by (simp add: nth_append slot_table_def nth_list_update word_unat_eq_iff)
  qed
  moreover have "\<exists>s<Suc (length ps). unat (fst ((ps @ [(i, d)]) ! s)) = j"
    if "j < length slots" "slots[unat i := length ps + 1] ! j \<noteq> 0" for j
  proof (cases "j = unat i")
    case True
    then show ?thesis by (intro exI [of _ "length ps"]) simp
  next
    case False
    with that assms(1) obtain s where "s < length ps" "unat (fst (ps ! s)) = j"
      by (auto simp: slot_table_def)
    then show ?thesis by (intro exI [of _ s]) (simp add: nth_append)
  qed
  ultimately show ?thesis by (simp add: slot_table_def)
qed

lemma append_chunk_ok:
  assumes inv: "seek_inv L f st ps" and i: "unat i < length (ss_slots st)" and d: "valid_plain st d"
  obtains f' st' where "append_chunk L f st i d Wrote_All = (Inr (), f', st')"
    "seek_inv L f' st' (first_wins ps i d)" "length (ss_slots st') = length (ss_slots st)"
    "ss_chunk_size st' = ss_chunk_size st"
proof (cases "i \<in> fst ` set ps")
  case True
  then have "has st i" using inv read_chunk_map(1) [of L st ps i] by (simp add: seek_inv_def)
  with True inv i show ?thesis
    by (intro that [of f st]) (simp_all add: append_chunk_def first_wins_def)
next
  case False
  have L: "pool_lib_ok L" and st: "wf_seek st" and ps: "valid_chunks st ps" and f: "f = seek_file L st ps"
    and cells: "ss_cells st = length ps" and slots: "slot_table ps (ss_slots st)"
    using inv by (simp_all add: seek_inv_def)
  let ?st = "st\<lparr>ss_cells := length ps + 1, ss_slots := (ss_slots st)[unat i := length ps + 1]\<rparr>"
  let ?f = "f @ cell_of L st (length ps) i d"
  have "\<not> has st i" using False read_chunk_map(1) [OF L st ps slots] by simp
  moreover have "\<not> ss_cells st + 1 > U32_MAX"
    using chunks_bounded [OF ps] st by (simp add: cells wf_seek_def MAX_SEEK_CHUNKS_def U32_MAX_def)
  moreover have "seal_cell L st (length ps) i d = Inr (cell_of L st (length ps) i d)"
    using seal_cell_ok [OF L d] by metis
  moreover have "file_write_at f (cell_offset st (length ps)) c = f @ c" for c
    using length_seek_file [OF L st ps] file_write_at_end f by metis
  ultimately have "append_chunk L f st i d Wrote_All = (Inr (), ?f, ?st)"
    using i d cells by (simp add: append_chunk_def Let_def)
  moreover have "seek_inv L ?f ?st (first_wins ps i d)"
  proof -
    have "valid_chunks ?st (ps @ [(i, d)])"
      using ps i d False by (auto simp: valid_chunks_def)
    moreover have "slot_table (ps @ [(i, d)]) (ss_slots ?st)"
      using slot_table_snoc [OF slots i False] ps by (simp add: valid_chunks_def)
    moreover have "?f = seek_file L ?st (ps @ [(i, d)])"
      by (simp add: f seek_file_def cells_body_snoc)
    ultimately show ?thesis
      using L st False by (simp add: seek_inv_def first_wins_def wf_seek_def)
  qed
  ultimately show ?thesis by (rule that) simp_all
qed

section \<open>A session\<close>

datatype seek_op = Sk_Append u32 bytes | Sk_Read u32
datatype seek_result = Sk_Done | Sk_Refused | Sk_Found bytes | Sk_Missing

primrec run_seek :: "pool_lib \<Rightarrow> bytes \<Rightarrow> seek_store \<Rightarrow> seek_op list \<Rightarrow> seek_result list" where
  "run_seek L f st [] = []"
| "run_seek L f st (op # ops) =
     (case op of
        Sk_Append i d \<Rightarrow>
          (case append_chunk L f st i d Wrote_All of
             (r, f', st') \<Rightarrow> (case r of Inr _ \<Rightarrow> Sk_Done | Inl _ \<Rightarrow> Sk_Refused) # run_seek L f' st' ops)
      | Sk_Read i \<Rightarrow>
          (case read_chunk_of L f st i of
             (st', r) \<Rightarrow> (case r of Some d \<Rightarrow> Sk_Found d | None \<Rightarrow> Sk_Missing) # run_seek L f st' ops))"

text \<open>The abstract store: a finite map in which the first write of a chunk wins.\<close>

primrec chunk_map_session :: "nat \<Rightarrow> nat \<Rightarrow> (u32 \<Rightarrow> bytes option) \<Rightarrow> seek_op list \<Rightarrow> seek_result list" where
  "chunk_map_session count limit m [] = []"
| "chunk_map_session count limit m (op # ops) =
     (case op of
        Sk_Append i d \<Rightarrow>
          (if unat i < count \<and> (m i \<noteq> None \<or> d \<noteq> [] \<and> length d \<le> limit)
           then Sk_Done # chunk_map_session count limit (case m i of None \<Rightarrow> m(i \<mapsto> d) | Some _ \<Rightarrow> m) ops
           else Sk_Refused # chunk_map_session count limit m ops)
      | Sk_Read i \<Rightarrow>
          (case m i of Some d \<Rightarrow> Sk_Found d | None \<Rightarrow> Sk_Missing) # chunk_map_session count limit m ops)"

lemma append_chunk_refused:
  assumes "seek_inv L f st ps"
    and "\<not> (unat i < length (ss_slots st) \<and> (map_of ps i \<noteq> None \<or> valid_plain st d))"
  shows "append_chunk L f st i d Wrote_All = (Inl Usage, f, st)"
proof -
  have "has st i \<longleftrightarrow> i \<in> fst ` set ps"
    using assms(1) by (intro read_chunk_map(1) [of L]) (simp_all add: seek_inv_def)
  with assms(2) show ?thesis by (auto simp: append_chunk_def map_of_eq_None_iff)
qed

lemma append_chunk_again:
  assumes "seek_inv L f st ps" and "unat i < length (ss_slots st)" and "map_of ps i \<noteq> None"
  shows "append_chunk L f st i d out = (Inr (), f, st)"
proof -
  have "has st i \<longleftrightarrow> i \<in> fst ` set ps"
    using assms(1) by (intro read_chunk_map(1) [of L]) (simp_all add: seek_inv_def)
  with assms(2,3) show ?thesis by (auto simp: append_chunk_def map_of_eq_None_iff)
qed

lemma map_of_snoc: "map_of ps i = None \<Longrightarrow> map_of (ps @ [(i, d)]) = (map_of ps)(i \<mapsto> d)"
  by (auto simp: map_add_def fun_eq_iff split: option.split)

lemma run_seek_session:
  "seek_inv L f st ps \<Longrightarrow>
     run_seek L f st ops = chunk_map_session (length (ss_slots st)) (unat (ss_chunk_size st)) (map_of ps) ops"
proof (induction ops arbitrary: f st ps)
  case Nil
  then show ?case by simp
next
  case (Cons op ops)
  show ?case
  proof (cases op)
    case (Sk_Append i d)
    consider (again) "unat i < length (ss_slots st)" "map_of ps i \<noteq> None"
      | (fresh) "unat i < length (ss_slots st)" "map_of ps i = None" "valid_plain st d"
      | (refused) "\<not> (unat i < length (ss_slots st) \<and> (map_of ps i \<noteq> None \<or> valid_plain st d))"
      by blast
    then show ?thesis
    proof cases
      case again
      with append_chunk_again [OF Cons.prems again] Cons.IH [OF Cons.prems] Sk_Append
      show ?thesis by auto
    next
      case fresh
      obtain f' st' where "append_chunk L f st i d Wrote_All = (Inr (), f', st')"
        "seek_inv L f' st' (first_wins ps i d)" "length (ss_slots st') = length (ss_slots st)"
        "ss_chunk_size st' = ss_chunk_size st"
        using append_chunk_ok [OF Cons.prems fresh(1,3)] by blast
      moreover have "map_of (first_wins ps i d) = (map_of ps)(i \<mapsto> d)"
        using fresh(2) map_of_snoc [OF fresh(2)] by (simp add: first_wins_def map_of_eq_None_iff)
      ultimately show ?thesis
        using Cons.IH [of f' st' "first_wins ps i d"] fresh by (simp add: Sk_Append fun_upd_def)
    next
      case refused
      with append_chunk_refused [OF Cons.prems refused] Cons.IH [OF Cons.prems] Sk_Append
      show ?thesis by auto
    qed
  next
    case (Sk_Read i)
    have "read_chunk_of L (seek_file L st ps @ []) st i = (st, map_of ps i)"
      using Cons.prems by (intro read_chunk_map(2)) (simp_all add: seek_inv_def)
    then have "read_chunk_of L f st i = (st, map_of ps i)"
      using Cons.prems by (simp add: seek_inv_def)
    then show ?thesis using Cons.IH [OF Cons.prems] by (simp add: Sk_Read)
  qed
qed

text \<open>
  C8. A new seek file is a map from chunk numbers to chunks: in every sequence of appends and
  reads, an append succeeds exactly for a chunk number below \<open>chunk_count\<close> that is already stored
  (then nothing changes) or comes with 1 to \<open>chunk_size\<close> bytes, and a read returns exactly what
  the first successful append of that chunk stored.
\<close>

theorem seek_store_is_a_map:
  assumes "pool_lib_ok L" and "length nb = SEEK_NONCE_BASE_LEN"
    and "chunk_size \<noteq> 0" and "chunk_count \<noteq> 0" and "unat chunk_count \<le> MAX_SEEK_CHUNKS"
  shows "\<exists>f st. seek_open L key None (Inr nb) mxc chunk_size chunk_count = Inr (f, st)
     \<and> (\<forall>ops. run_seek L f st ops =
           chunk_map_session (unat chunk_count) (unat chunk_size) Map.empty ops)"
proof -
  let ?st = "\<lparr>ss_key = key, ss_nonce_base = nb, ss_chunk_size = chunk_size, ss_mxc = mxc,
     ss_slots = replicate (unat chunk_count) 0, ss_cells = 0\<rparr>"
  let ?f = "seek_encode_header chunk_size chunk_count nb"
  have "seek_inv L ?f ?st []"
    using assms by (simp add: seek_inv_def wf_seek_def valid_chunks_def seek_file_def cells_body_def slot_table_def)
  from run_seek_session [OF this] assms(3-5) show ?thesis
    by (intro exI [of _ ?f] exI [of _ ?st]) (simp add: seek_open_def)
qed

section \<open>Reopening\<close>

lemma slot_table_unique:
  assumes "slot_table ps a" "slot_table ps b" "length a = length b"
  shows "a = b"
proof (rule nth_equalityI)
  fix i
  assume i: "i < length a"
  show "a ! i = b ! i"
  proof (cases "\<exists>s<length ps. unat (fst (ps ! s)) = i")
    case True
    with assms show ?thesis by (auto simp: slot_table_def)
  next
    case False
    with assms i have "a ! i = 0" "b ! i = 0" by (auto simp: slot_table_def)
    then show ?thesis by simp
  qed
qed (use assms in simp)

lemma file_read_exact_prefix:
  "file_read_exact f off n = Some c \<Longrightarrow> m \<le> n \<Longrightarrow> take m c = d \<Longrightarrow> file_read_exact f off m = Some d"
  by (auto simp: file_read_exact_def min_def split: if_splits)

lemma scan_written_slots:
  assumes L: "pool_lib_ok L" and st: "wf_seek st" and ps: "valid_chunks st ps"
    and st0: "st0 = st\<lparr>ss_slots := replicate (length (ss_slots st)) 0, ss_cells := 0\<rparr>" and n: "n \<le> length ps"
  shows "\<exists>slots. scan_slots (seek_file L st ps @ torn) st0 n = Inr (st0\<lparr>ss_slots := slots\<rparr>)
     \<and> length slots = length (ss_slots st) \<and> slot_table (take n ps) slots"
  using n
proof (induction n)
  case 0
  show ?case
    by (rule exI [of _ "replicate (length (ss_slots st)) 0"]) (simp add: scan_slots_def st0 slot_table_def)
next
  case (Suc n)
  let ?f = "seek_file L st ps @ torn"
  from Suc obtain slots where IH: "scan_slots ?f st0 n = Inr (st0\<lparr>ss_slots := slots\<rparr>)"
    and slots: "length slots = length (ss_slots st)" "slot_table (take n ps) slots" by auto
  have n: "n < length ps" using Suc.prems by simp
  obtain i d where p: "ps ! n = (i, d)" by (cases "ps ! n")
  then have i: "unat i < length slots" and d: "valid_plain st d"
    using ps nth_mem [OF n] slots(1) by (auto simp: valid_chunks_def)
  have fresh: "i \<notin> fst ` set (take n ps)"
  proof
    assume "i \<in> fst ` set (take n ps)"
    then obtain k where "k < n" "fst (ps ! k) = i" by (auto simp: in_set_conv_nth)
    with ps n p have "k < length ps" "k \<noteq> n" "map fst ps ! k = map fst ps ! n" "distinct (map fst ps)"
      by (auto simp: valid_chunks_def)
    with n show False using nth_eq_iff_index_eq [of "map fst ps" k n] by simp
  qed
  have bytes: "file_read_exact ?f (cell_offset st n) (cell_len st) = Some (cell_of L st n i d)"
    using read_cell_bytes [OF L st ps n, of torn] by (simp add: p)
  obtain s where "cell_of L st n i d = u32_to_le i @ s" using seal_cell_ok [OF L d] by metis
  then have "take 4 (cell_of L st n i d) = u32_to_le i" by simp
  with bytes have "file_read_exact ?f (cell_offset st n) INDEX_FIELD = Some (u32_to_le i)"
    by - (erule file_read_exact_prefix, simp_all add: cell_len_def seek_consts)
  then have "scan_slot ?f (st0\<lparr>ss_slots := slots\<rparr>) n = Inr (st0\<lparr>ss_slots := slots[unat i := n + 1]\<rparr>)"
    using i slot_table_absent [OF slots(2) i fresh] by (simp add: scan_slot_def st0)
  then have "scan_slots ?f st0 (Suc n) = Inr (st0\<lparr>ss_slots := slots[unat i := n + 1]\<rparr>)"
    using IH by (simp add: scan_slots_def)
  moreover have "slot_table (take (Suc n) ps) (slots[unat i := n + 1])"
  proof -
    have "slot_table (take n ps @ [(i, d)]) (slots[unat i := length (take n ps) + 1])"
      using slots(2) i fresh
    proof (rule slot_table_snoc)
      show "\<forall>p\<in>set (take n ps). unat (fst p) < length slots"
        using ps slots(1) by (auto simp: valid_chunks_def dest: in_set_takeD)
    qed
    then show ?thesis using n p by (simp add: take_Suc_conv_app_nth min_def)
  qed
  ultimately show ?case using slots(1) by (intro exI [of _ "slots[unat i := n + 1]"]) simp
qed

lemma read_cell_update [simp]:
  "read_cell L f (st\<lparr>ss_cells := m\<rparr>) s = read_cell L f st s"
  by (simp add: read_cell_def cong: if_cong)

lemma seek_header_fields:
  assumes "length nb = SEEK_NONCE_BASE_LEN" and "file_read_exact (seek_encode_header cs cc nb @ g) 0 SEEK_HEADER_LEN = Some hb"
  shows "take 4 hb = SEEK_MAGIC" "hb ! 4 = SEEK_VERSION" "u32_from_le (take 4 (drop 8 hb)) = cs"
    "u32_from_le (take 4 (drop 12 hb)) = cc" "take SEEK_NONCE_BASE_LEN (drop 16 hb) = nb"
proof -
  have hb: "hb = seek_encode_header cs cc nb"
    using assms length_seek_header [OF assms(1), of cs cc] by (auto simp: file_read_exact_def split: if_splits)
  have m: "length SEEK_MAGIC = 4" by (simp add: SEEK_MAGIC_def)
  then show "take 4 hb = SEEK_MAGIC" "hb ! 4 = SEEK_VERSION"
    by (simp_all add: hb seek_encode_header_def nth_append)
  have "hb = (SEEK_MAGIC @ [SEEK_VERSION] @ [0, 0, 0]) @ u32_to_le cs @ u32_to_le cc @ nb" (is "_ = ?a @ ?b @ ?c @ ?d")
    by (simp add: hb seek_encode_header_def)
  moreover have "length ?a = 8" "length ?b = 4" "length ?c = 4" using m by simp_all
  ultimately show "u32_from_le (take 4 (drop 8 hb)) = cs" "u32_from_le (take 4 (drop 12 hb)) = cc"
    "take SEEK_NONCE_BASE_LEN (drop 16 hb) = nb"
    using assms(1) by (simp_all add: drop_append_exact take_append_exact)
qed

lemma read_header_bytes:
  "length nb = SEEK_NONCE_BASE_LEN \<Longrightarrow>
     \<exists>hb. file_read_exact (seek_encode_header cs cc nb @ g) 0 SEEK_HEADER_LEN = Some hb"
  by (simp add: file_read_exact_def length_seek_header)

lemma ceil_div_torn: "t < c \<Longrightarrow> ceil_div (n * c + t) c = n + (if t = 0 then 0 else 1)" for c :: nat
  by (cases "t = 0") (auto simp: ceil_div_exact intro: ceil_div_between)

lemma reopen_written:
  assumes inv: "seek_inv L f st ps" and slots: "ss_slots st \<noteq> []" and torn: "length torn < cell_len st"
  shows "reopen L (ss_key st) (f @ torn) (ss_mxc st) (ss_chunk_size st) (of_nat (length (ss_slots st))) =
     Inr (Some (st\<lparr>ss_cells := length ps + (if torn = [] then 0 else 1)\<rparr>))"
proof -
  have L: "pool_lib_ok L" and st: "wf_seek st" and ps: "valid_chunks st ps" and f: "f = seek_file L st ps"
    and table: "slot_table ps (ss_slots st)"
    using inv by (simp_all add: seek_inv_def)
  let ?n = "length ps" and ?cc = "of_nat (length (ss_slots st)) :: u32"
  let ?st0 = "st\<lparr>ss_slots := replicate (length (ss_slots st)) 0, ss_cells := 0\<rparr>"
  have cc: "unat ?cc = length (ss_slots st)"
    using st by (simp add: wf_seek_def MAX_SEEK_CHUNKS_def unat_of_nat take_bit_nat_eq_self)
  have small: "?n \<le> 2 ^ 26" using chunks_bounded [OF ps] st by (simp add: wf_seek_def MAX_SEEK_CHUNKS_def)
  have nb: "length (ss_nonce_base st) = SEEK_NONCE_BASE_LEN" using st by (simp add: wf_seek_def)
  have ft: "f @ torn = seek_encode_header (ss_chunk_size st) ?cc (ss_nonce_base st) @ (cells_body L st ps @ torn)"
    by (simp add: f seek_file_def)
  obtain hb where hb: "file_read_exact (f @ torn) 0 SEEK_HEADER_LEN = Some hb"
    unfolding ft using read_header_bytes [OF nb] by blast
  note fields = seek_header_fields [OF nb hb [unfolded ft]]
  have body: "length (f @ torn) - SEEK_HEADER_LEN = ?n * cell_len st + length torn"
    by (simp add: f length_seek_file [OF L st ps] cell_offset_def)
  have whole: "min ((?n * cell_len st + length torn) div cell_len st) U32_MAX = ?n"
    using torn small by (simp add: U32_MAX_def)
  have used: "min (ceil_div (?n * cell_len st + length torn) (cell_len st)) U32_MAX
      = ?n + (if torn = [] then 0 else 1)"
    using small by (simp add: ceil_div_torn [OF torn] U32_MAX_def)
  obtain slots' where scan: "scan_slots (f @ torn) ?st0 ?n = Inr (?st0\<lparr>ss_slots := slots'\<rparr>)"
    and "length slots' = length (ss_slots st)" "slot_table ps slots'"
    using scan_written_slots [OF L st ps refl, of ?n torn] by (auto simp: f)
  then have slots': "slots' = ss_slots st" using slot_table_unique [OF _ table] by blast
  have first: "read_cell L (f @ torn) st' 0 = Inr (ps ! 0)" if "ps \<noteq> []" "st' = st\<lparr>ss_cells := m\<rparr>" for st' m
  proof -
    have "read_cell L (f @ torn) st 0 = Inr (ps ! 0)"
      unfolding f using that by (intro read_stored_cell L st ps) simp
    then show ?thesis by (simp add: that)
  qed
  have st0: "\<lparr>ss_key = ss_key st, ss_nonce_base = take SEEK_NONCE_BASE_LEN (drop 16 hb),
      ss_chunk_size = ss_chunk_size st, ss_mxc = ss_mxc st,
      ss_slots = replicate (unat ?cc) 0, ss_cells = 0\<rparr> = ?st0"
    by (simp add: fields cc)
  have len0: "cell_len ?st0 = cell_len st" by simp
  have final: "?st0\<lparr>ss_slots := slots', ss_cells := m\<rparr> = st\<lparr>ss_cells := m\<rparr>" for m
    by (simp add: slots')
  show ?thesis
    unfolding reopen_def hb option.case Let_def st0 body len0 whole used scan rbind_simps final
    using fields first [OF _ refl] by (cases "ps = []") (simp_all add: final)
qed

text \<open>Several appends; the first error ends them.\<close>

primrec append_all :: "pool_lib \<Rightarrow> bytes \<Rightarrow> seek_store \<Rightarrow> (u32 \<times> bytes) list \<Rightarrow> sdk_error + bytes \<times> seek_store" where
  "append_all L f st [] = Inr (f, st)"
| "append_all L f st (p # ps) =
     (case append_chunk L f st (fst p) (snd p) Wrote_All of
        (Inl e, _, _) \<Rightarrow> Inl e
      | (Inr _, f', st') \<Rightarrow> append_all L f' st' ps)"

lemma map_of_first_wins: "map_of (first_wins ps i d) = map_of (ps @ [(i, d)])"
proof (cases "i \<in> fst ` set ps")
  case True
  then obtain y where "map_of ps i = Some y" by (cases "map_of ps i") (auto simp: map_of_eq_None_iff)
  with True show ?thesis by (auto simp: first_wins_def map_add_def fun_eq_iff split: option.split)
qed (simp add: first_wins_def)

lemma append_all_ok:
  assumes "seek_inv L f st qs" and "\<forall>p\<in>set ps. unat (fst p) < length (ss_slots st) \<and> valid_plain st (snd p)"
  shows "\<exists>f' st' rs. append_all L f st ps = Inr (f', st') \<and> seek_inv L f' st' rs
     \<and> map_of rs = map_of (qs @ ps) \<and> length (ss_slots st') = length (ss_slots st)
     \<and> ss_key st' = ss_key st \<and> ss_mxc st' = ss_mxc st \<and> ss_chunk_size st' = ss_chunk_size st"
  using assms
proof (induction ps arbitrary: f st qs)
  case Nil
  then show ?case by auto
next
  case (Cons p ps)
  obtain f1 st1 where 1: "append_chunk L f st (fst p) (snd p) Wrote_All = (Inr (), f1, st1)"
    "seek_inv L f1 st1 (first_wins qs (fst p) (snd p))" "length (ss_slots st1) = length (ss_slots st)"
    "ss_chunk_size st1 = ss_chunk_size st"
    using append_chunk_ok [OF Cons.prems(1)] Cons.prems(2) by (metis list.set_intros(1))
  have same: "ss_key st1 = ss_key st" "ss_mxc st1 = ss_mxc st"
    using 1(1) by (auto simp: append_chunk_def Let_def split: if_splits sum.splits)
  have "map_of (first_wins qs (fst p) (snd p) @ ps) = map_of (qs @ p # ps)"
    using map_of_first_wins [of qs "fst p" "snd p"] by (simp add: map_add_def fun_eq_iff split: option.split)
  with Cons.IH [OF 1(2)] Cons.prems(2) 1 same show ?case by fastforce
qed

text \<open>
  Chunks survive a crash: after any appends to a new seek file, a reopen that finds the file
  with an unfinished cell at its end (fewer bytes than a cell) recovers every chunk, and skips the
  number of the unfinished cell.
\<close>

lemma reopen_recovers_chunks:
  assumes "pool_lib_ok L" and "length nb = SEEK_NONCE_BASE_LEN"
    and "chunk_size \<noteq> 0" and "chunk_count \<noteq> 0" and "unat chunk_count \<le> MAX_SEEK_CHUNKS"
    and "\<forall>p\<in>set ps. unat (fst p) < unat chunk_count \<and> snd p \<noteq> [] \<and> length (snd p) \<le> unat chunk_size"
    and "length torn < 24 + unat chunk_size"
  shows "\<exists>f0 st0 f st st'. seek_open L key None (Inr nb) mxc chunk_size chunk_count = Inr (f0, st0)
     \<and> append_all L f0 st0 ps = Inr (f, st)
     \<and> seek_open L key (Some (f @ torn)) draw mxc chunk_size chunk_count = Inr (f @ torn, st')
     \<and> ss_cells st' = ss_cells st + (if torn = [] then 0 else 1)
     \<and> (\<forall>i. read_chunk_of L (f @ torn) st' i = (st', map_of ps i))"
proof -
  let ?st0 = "\<lparr>ss_key = key, ss_nonce_base = nb, ss_chunk_size = chunk_size, ss_mxc = mxc,
     ss_slots = replicate (unat chunk_count) 0, ss_cells = 0\<rparr>"
  let ?f0 = "seek_encode_header chunk_size chunk_count nb"
  have inv0: "seek_inv L ?f0 ?st0 []"
    using assms(1-5) by (simp add: seek_inv_def wf_seek_def valid_chunks_def seek_file_def cells_body_def slot_table_def)
  have open0: "seek_open L key None (Inr nb) mxc chunk_size chunk_count = Inr (?f0, ?st0)"
    using assms(3-5) by (simp add: seek_open_def)
  have valid: "\<forall>p\<in>set ps. unat (fst p) < length (ss_slots ?st0) \<and> valid_plain ?st0 (snd p)"
    using assms(6) by simp
  from append_all_ok [OF inv0 valid]
  obtain f st rs where appended: "append_all L ?f0 ?st0 ps = Inr (f, st)" "seek_inv L f st rs"
    "map_of rs = map_of ps" "length (ss_slots st) = unat chunk_count"
    "ss_key st = key" "ss_mxc st = mxc" "ss_chunk_size st = chunk_size" by auto
  let ?st = "st\<lparr>ss_cells := length rs + (if torn = [] then 0 else 1)\<rparr>"
  have inv: "pool_lib_ok L" "wf_seek st" "valid_chunks st rs" "f = seek_file L st rs" "ss_cells st = length rs"
    "slot_table rs (ss_slots st)" using appended(2) by (simp_all add: seek_inv_def)
  have "ss_slots st \<noteq> []" using appended(4) assms(4) by (auto simp: unat_gt_0 simp flip: length_greater_0_conv)
  moreover have "length torn < cell_len st" using assms(7) by (simp add: appended cell_len_def seek_consts)
  ultimately have "reopen L key (f @ torn) mxc chunk_size chunk_count = Inr (Some ?st)"
    using reopen_written [OF appended(2), of torn] appended by simp
  then have reopened: "seek_open L key (Some (f @ torn)) draw mxc chunk_size chunk_count = Inr (f @ torn, ?st)"
    using assms(3-5) by (simp add: seek_open_def)
  have "read_chunk_of L (f @ torn) ?st i = (?st, map_of ps i)" for i
  proof -
    have "f = seek_file L ?st rs" using inv(4) by (simp add: seek_file_def)
    moreover have "wf_seek ?st" "valid_chunks ?st rs" "slot_table rs (ss_slots ?st)"
      using inv by (simp_all add: wf_seek_def valid_chunks_def)
    ultimately show ?thesis
      using read_chunk_map(2) [OF inv(1), of ?st rs torn i] appended(3) by metis
  qed
  then have reads: "\<forall>i. read_chunk_of L (f @ torn) ?st i = (?st, map_of ps i)" ..
  have "ss_cells ?st = ss_cells st + (if torn = [] then 0 else 1)" using inv(5) by simp
  with open0 appended(1) reopened reads show ?thesis by blast
qed

section \<open>Cell numbers\<close>

text \<open>
  A life of a seek file: appends, some failing part-way through their write, and reopenings.  The
  log holds the number of every cell of which some byte reached the file.
\<close>

datatype seek_event = Ev_Append u32 bytes write_outcome | Ev_Reopen

primrec written_cells :: "pool_lib \<Rightarrow> bytes \<Rightarrow> seek_store \<Rightarrow> seek_event list \<Rightarrow> nat list" where
  "written_cells L f st [] = []"
| "written_cells L f st (ev # evs) =
     (case ev of
        Ev_Append i d outcome \<Rightarrow>
          (case append_chunk L f st i d outcome of
             (r, f', st') \<Rightarrow> (if f' = f then [] else [ss_cells st]) @ written_cells L f' st' evs)
      | Ev_Reopen \<Rightarrow>
          (case reopen L (ss_key st) f (ss_mxc st) (ss_chunk_size st) (of_nat (length (ss_slots st))) of
             Inr (Some st') \<Rightarrow> written_cells L f st' evs
           | _ \<Rightarrow> []))"

definition touched :: "bytes \<Rightarrow> seek_store \<Rightarrow> nat" where
  "touched f st = ceil_div (length f - SEEK_HEADER_LEN) (cell_len st)"

definition numbers_safe :: "bytes \<Rightarrow> seek_store \<Rightarrow> bool" where
  "numbers_safe f st \<longleftrightarrow> SEEK_HEADER_LEN \<le> length f \<and> (touched f st \<le> ss_cells st \<or> U32_MAX \<le> ss_cells st)"

lemma cell_len_pos: "0 < cell_len st"
  by (simp add: cell_len_def seek_consts)

lemma touched_le:
  assumes "touched f st \<le> n" "SEEK_HEADER_LEN \<le> length f"
  shows "length f \<le> cell_offset st n"
proof -
  have "length f - SEEK_HEADER_LEN \<le> touched f st * cell_len st"
    unfolding touched_def by (rule le_ceil_div_mult) (rule cell_len_pos)
  also have "\<dots> \<le> n * cell_len st" using assms(1) by (rule mult_le_mono1)
  finally show ?thesis using assms(2) by (simp add: cell_offset_def)
qed

lemma append_chunk_numbers:
  assumes "pool_lib_ok L" and safe: "numbers_safe f st" and app: "append_chunk L f st i d out = (r, f', st')"
  shows "numbers_safe f' st'" and "take (length f) f' = f" and "touched f st \<le> touched f' st'"
    and "f' \<noteq> f \<Longrightarrow> touched f st \<le> ss_cells st \<and> touched f' st' = ss_cells st + 1"
    and "cell_len st' = cell_len st"
proof -
  let ?s = "ss_cells st"
  consider (same) "f' = f" "st' = st"
    | (number) "f' = f" "st' = st\<lparr>ss_cells := ?s + 1\<rparr>"
    | (wrote) c where "f' = file_write_at f (cell_offset st ?s) c" "c \<noteq> []" "length c \<le> cell_len st"
        "?s + 1 \<le> U32_MAX" "ss_cells st' = ?s + 1" "cell_len st' = cell_len st"
  proof (cases "\<not> unat i < length (ss_slots st) \<or> has st i \<or> \<not> valid_plain st d \<or> ?s + 1 > U32_MAX")
    case True
    then show ?thesis using app same by (auto simp: append_chunk_def split: if_splits)
  next
    case False
    then have d: "valid_plain st d" by blast
    obtain s where c: "seal_cell L st ?s i d = Inr (u32_to_le i @ s)" "length (u32_to_le i @ s) = cell_len st"
      using seal_cell_ok [OF assms(1) d] by metis
    let ?c = "u32_to_le i @ s"
    have ne: "?c \<noteq> []" using c(2) cell_len_pos [of st] by (metis length_greater_0_conv)
    show ?thesis
    proof (cases out)
      case Wrote_All
      with app False c(1) have "f' = file_write_at f (cell_offset st ?s) ?c"
        "st' = st\<lparr>ss_cells := ?s + 1, ss_slots := (ss_slots st)[unat i := ?s + 1]\<rparr>"
        by (simp_all add: append_chunk_def Let_def)
      with ne c(2) False show ?thesis by (intro wrote [of ?c]) simp_all
    next
      case (Failed_After n)
      then have "f' = (if n = 0 then f else file_write_at f (cell_offset st ?s) (take n ?c))"
        "st' = st\<lparr>ss_cells := ?s + 1\<rparr>"
        using app False c(1) by (auto simp: append_chunk_def Let_def simp del: take_append)
      with ne c(2) False number show ?thesis
        by (cases "n = 0") (auto intro!: wrote [of "take n ?c"] simp del: take_append)
    qed
  qed
  then have "numbers_safe f' st' \<and> take (length f) f' = f \<and> touched f st \<le> touched f' st'
    \<and> (f' \<noteq> f \<longrightarrow> touched f st \<le> ?s \<and> touched f' st' = ?s + 1) \<and> cell_len st' = cell_len st"
  proof cases
    case same
    with safe show ?thesis by simp
  next
    case number
    then have "touched f' st' = touched f st" by (simp add: touched_def)
    with number safe show ?thesis by (auto simp: numbers_safe_def)
  next
    case wrote
    have le: "touched f st \<le> ?s" and head: "SEEK_HEADER_LEN \<le> length f"
      using safe wrote(4) by (auto simp: numbers_safe_def)
    then have off: "length f \<le> cell_offset st ?s" by (rule touched_le)
    then have f': "f' = f @ replicate (cell_offset st ?s - length f) 0 @ c"
      by (simp add: wrote(1) file_write_at_def)
    then have "length f' = cell_offset st ?s + length c" using off by simp
    then have "length f' - SEEK_HEADER_LEN = ?s * cell_len st + length c" by (simp add: cell_offset_def)
    moreover have "0 < length c" using wrote(2) by simp
    ultimately have "touched f' st' = ?s + 1"
      unfolding touched_def wrote(6) using wrote(3) by (subst ceil_div_between [of ?s]) auto
    moreover have "take (length f) f' = f" "SEEK_HEADER_LEN \<le> length f'" using f' head by simp_all
    ultimately show ?thesis using le wrote(5,6) by (simp add: numbers_safe_def)
  qed
  then show "numbers_safe f' st'" "take (length f) f' = f" "touched f st \<le> touched f' st'"
    "f' \<noteq> f \<Longrightarrow> touched f st \<le> ss_cells st \<and> touched f' st' = ss_cells st + 1" "cell_len st' = cell_len st"
    by blast+
qed

lemma scan_slots_same:
  "scan_slots f st n = Inr st' \<Longrightarrow> \<exists>slots. st' = st\<lparr>ss_slots := slots\<rparr>"
proof (induction n arbitrary: st')
  case 0
  then show ?case by (intro exI [of _ "ss_slots st"]) (simp add: scan_slots_def)
next
  case (Suc n)
  then obtain st1 where "scan_slots f st n = Inr st1" "scan_slot f st1 n = Inr st'"
    by (auto simp: scan_slots_def rbind_eq_Inr)
  with Suc.IH obtain slots where "st1 = st\<lparr>ss_slots := slots\<rparr>" by blast
  with \<open>scan_slot f st1 n = Inr st'\<close> show ?case
    by (auto simp: scan_slot_def rbind_eq_Inr Let_def split: if_splits)
qed

lemma reopen_numbers:
  assumes "reopen L key f mxc cs cc = Inr (Some st)"
  shows "numbers_safe f st" and "ss_chunk_size st = cs"
proof -
  from assms obtain hb where hb: "file_read_exact f 0 SEEK_HEADER_LEN = Some hb"
    by (auto simp: reopen_def split: option.splits)
  let ?st0 = "\<lparr>ss_key = key, ss_nonce_base = take SEEK_NONCE_BASE_LEN (drop 16 hb), ss_chunk_size = cs,
    ss_mxc = mxc, ss_slots = replicate (unat cc) 0, ss_cells = 0\<rparr>"
  let ?body = "length f - SEEK_HEADER_LEN"
  from assms hb obtain st1 where st1: "scan_slots f ?st0 (min (?body div cell_len ?st0) U32_MAX) = Inr st1"
    and st: "st = st1\<lparr>ss_cells := min (ceil_div ?body (cell_len ?st0)) U32_MAX\<rparr>"
    by (auto simp: reopen_def Let_def rbind_eq_Inr split: if_splits)
  obtain slots where "st1 = ?st0\<lparr>ss_slots := slots\<rparr>" using scan_slots_same [OF st1] by blast
  then have "cell_len st = cell_len ?st0" "ss_chunk_size st = cs" by (simp_all add: st cell_len_def)
  moreover have "SEEK_HEADER_LEN \<le> length f" using hb by (simp add: file_read_exact_def split: if_splits)
  ultimately show "numbers_safe f st" "ss_chunk_size st = cs"
    by (auto simp: numbers_safe_def touched_def st min_def)
qed

lemma written_cells_increase:
  assumes L: "pool_lib_ok L"
  shows "numbers_safe f st \<Longrightarrow>
     sorted_wrt (<) (written_cells L f st evs) \<and> (\<forall>s\<in>set (written_cells L f st evs). touched f st \<le> s)"
proof (induction evs arbitrary: f st)
  case Nil
  then show ?case by simp
next
  case (Cons ev evs)
  show ?case
  proof (cases ev)
    case (Ev_Append i d out)
    obtain r f' st' where app: "append_chunk L f st i d out = (r, f', st')" by (metis prod_cases3)
    note facts = append_chunk_numbers [OF L Cons.prems app]
    show ?thesis
    proof (cases "f' = f")
      case True
      with Cons.IH [OF facts(1)] facts(3) show ?thesis by (auto simp: Ev_Append app)
    next
      case False
      with Cons.IH [OF facts(1)] facts(4) show ?thesis by (auto simp: Ev_Append app Suc_le_eq)
    qed
  next
    case Ev_Reopen
    show ?thesis
    proof (cases "reopen L (ss_key st) f (ss_mxc st) (ss_chunk_size st) (of_nat (length (ss_slots st)))")
      case (Inl e)
      then show ?thesis by (simp add: Ev_Reopen)
    next
      case (Inr m)
      show ?thesis
      proof (cases m)
        case None
        with Inr show ?thesis by (simp add: Ev_Reopen)
      next
        case (Some st')
        with Inr have "reopen L (ss_key st) f (ss_mxc st) (ss_chunk_size st) (of_nat (length (ss_slots st))) = Inr (Some st')"
          by simp
        note facts = reopen_numbers [OF this]
        have "touched f st' = touched f st" using facts(2) by (simp add: touched_def cell_len_def)
        with Cons.IH [OF facts(1)] Inr Some show ?thesis by (simp add: Ev_Reopen)
      qed
    qed
  qed
qed


text \<open>
  A chunk that is read was stored for exactly this place: whatever bytes the file holds, if
  reading chunk \<open>i\<close> gives \<open>d\<close>, then the cell it came from is the AEAD sealing, under the nonce of
  its cell number, of \<open>d\<close>, with the chunk number, the chunk size and the \<open>mxc\<close> bound as associated
  data; anything else is a missing chunk, and is dropped from the table.
\<close>

lemma read_chunk_authentic:
  assumes "pool_lib_ok L"
  shows "case read_chunk_of L f st i of
     (st', Some d) \<Rightarrow> st' = st \<and> has st i \<and>
       (\<exists>cell sealed padded.
          file_read_exact f (cell_offset st (ss_slots st ! unat i - 1)) (cell_len st) = Some cell
          \<and> cell = u32_to_le i @ sealed
          \<and> x_encrypt L (ss_key st) (fst (cell_nonce_and_aad st (ss_slots st ! unat i - 1) i))
              (snd (cell_nonce_and_aad st (ss_slots st ! unat i - 1) i)) padded = Some sealed
          \<and> take (4 + length d) padded = u32_to_le (of_nat (length d)) @ d \<and> valid_plain st d)
   | (st', None) \<Rightarrow> \<not> has st' i"
proof (cases "has st i")
  case False
  then show ?thesis by (simp add: read_chunk_of_def)
next
  case True
  let ?cell = "read_cell L f st (ss_slots st ! unat i - 1)"
  show ?thesis
  proof (cases "\<exists>d. ?cell = Inr (i, d)")
    case found: True
    then obtain d where "?cell = Inr (i, d)" by blast
    with True read_cell_sound [OF assms this] show ?thesis
      by (simp add: read_chunk_of_def Let_def)
  next
    case False
    then have "read_chunk_of L f st i = (st\<lparr>ss_slots := (ss_slots st)[unat i := 0]\<rparr>, None)"
      using True by (auto simp: read_chunk_of_def Let_def split: sum.split)
    then show ?thesis by (simp add: has_def)
  qed
qed

section \<open>The properties at concrete inputs\<close>

theorem seek_store_is_a_map_witness:
  "\<exists>f st. seek_open demo_pool [1] None (Inr (replicate 16 3)) [4] 2 5 = Inr (f, st)
     \<and> run_seek demo_pool f st [Sk_Append 3 [7, 8], Sk_Append 3 [9], Sk_Append 5 [1], Sk_Read 3, Sk_Read 0]
         = [Sk_Done, Sk_Done, Sk_Refused, Sk_Found [7, 8], Sk_Missing]"
proof -
  obtain f st where f: "seek_open demo_pool [1] None (Inr (replicate 16 3)) [4] 2 5 = Inr (f, st)"
    "\<And>ops. run_seek demo_pool f st ops = chunk_map_session (unat (5 :: u32)) (unat (2 :: u32)) Map.empty ops"
    using seek_store_is_a_map [OF demo_pool_ok, of "replicate 16 3" 2 5 "[1]" "[4]"]
    by (auto simp: SEEK_NONCE_BASE_LEN_def MAX_SEEK_CHUNKS_def)
  have "run_seek demo_pool f st [Sk_Append 3 [7, 8], Sk_Append 3 [9], Sk_Append 5 [1], Sk_Read 3, Sk_Read 0]
      = [Sk_Done, Sk_Done, Sk_Refused, Sk_Found [7, 8], Sk_Missing]"
    unfolding f(2) by simp
  with f(1) show ?thesis by blast
qed

theorem reopen_recovers_chunks_witness:
  "\<exists>f0 st0 f st st'. seek_open demo_pool [1] None (Inr (replicate 16 3)) [4] 2 5 = Inr (f0, st0)
     \<and> append_all demo_pool f0 st0 [(3, [7, 8]), (0, [9])] = Inr (f, st)
     \<and> seek_open demo_pool [1] (Some (f @ [5, 5])) (Inl Io) [4] 2 5 = Inr (f @ [5, 5], st')
     \<and> ss_cells st' = ss_cells st + (if [5, 5] = ([] :: bytes) then 0 else 1)
     \<and> (\<forall>i. read_chunk_of demo_pool (f @ [5, 5]) st' i = (st', map_of [(3, [7, 8]), (0, [9])] i))"
  by (rule reopen_recovers_chunks [OF demo_pool_ok])
     (simp_all add: SEEK_NONCE_BASE_LEN_def MAX_SEEK_CHUNKS_def)


theorem read_chunk_authentic_witness:
  "\<not> has (fst (read_chunk_of demo_pool [1, 2, 3]
     \<lparr>ss_key = [1], ss_nonce_base = replicate 16 3, ss_chunk_size = 2, ss_mxc = [4],
      ss_slots = [0, 1], ss_cells = 1\<rparr> 1)) 1"
  using read_chunk_authentic [OF demo_pool_ok, where f = "[1, 2, 3]" and i = 1 and st =
     "\<lparr>ss_key = [1], ss_nonce_base = replicate 16 3, ss_chunk_size = 2, ss_mxc = [4],
      ss_slots = [0, 1], ss_cells = 1\<rparr>"]
  by (simp add: read_chunk_of_def has_def read_cell_def file_read_exact_def cell_offset_def cell_len_def seek_consts)

end
