(* ===== verification/Download_Verify.thy ===== *)
theory Download_Verify
  imports Chunk_Crypto Sdk_Error
begin

text \<open>
  \<open>crates/wbf-sdk/src/download.rs\<close> with the parts of \<open>manifest.rs\<close> and \<open>protocol.rs\<close> it uses:
  the checks of the chunk convention on a download, the whole-file loop and the ranged read.  The
  server is a parameter: what it answers to \<open>Info\<close> and to the \<open>Read\<close> of each chunk.
\<close>

record manifest =
  mf_server :: string
  mf_mxc :: string
  mf_block :: chunked_block

definition manifest_from_json :: "(bytes \<Rightarrow> manifest option) \<Rightarrow> bytes \<Rightarrow> sdk_error + manifest" where
  "manifest_from_json parse json =
     rbind (ok_or Usage (parse json)) (\<lambda>m.
     rbind (map_err sdk_of_block_error (check_as_event_block (mf_block m))) (\<lambda>_. Inr m))"

definition manifest_file_cipher :: "manifest \<Rightarrow> sdk_error + file_cipher" where
  "manifest_file_cipher m = map_err sdk_of_block_error (from_event_block (mf_block m))"

definition manifest_file_size :: "manifest \<Rightarrow> u64" where
  "manifest_file_size m = (case cb_file_size (mf_block m) of Some n \<Rightarrow> n | None \<Rightarrow> 0)"

record upload_state =
  us_server :: string
  us_user_id :: string
  us_upload_id :: u64
  us_mxc :: string
  us_chunk_max_bytes :: u64
  us_block :: chunked_block

definition upload_state_from_json :: "(bytes \<Rightarrow> upload_state option) \<Rightarrow> bytes \<Rightarrow> sdk_error + upload_state" where
  "upload_state_from_json parse json =
     rbind (ok_or Usage (parse json)) (\<lambda>s.
     case check_as_description (us_block s) of
       Inr _ \<Rightarrow> Inr s
     | Inl _ \<Rightarrow> rbind (map_err sdk_of_block_error (check_as_event_block (us_block s))) (\<lambda>_. Inr s))"

definition upload_state_file_cipher :: "upload_state \<Rightarrow> sdk_error + file_cipher" where
  "upload_state_file_cipher s =
     (let b = us_block s;
          b' = (if cb_file_size b = None then b\<lparr>cb_file_size := Some 0\<rparr> else b)
      in map_err sdk_of_block_error (from_event_block b'))"

section \<open>What the server answers\<close>

record info_ack =
  ia_total_len :: u64
  ia_file_size :: "u64 option"
  ia_chunk_size :: "u32 option"
  ia_chunk_count :: "u32 option"
  ia_truncated :: "bool option"

record read_ack =
  ra_chunk :: u32
  ra_pos :: u64
  ra_len :: u64

definition read_reply :: "read_ack \<Rightarrow> bytes \<Rightarrow> u32 \<Rightarrow> sdk_error + read_ack \<times> bytes" where
  "read_reply read ack_data index =
     (if ra_len read \<noteq> of_nat (length ack_data) then Inl Protocol
      else if ra_chunk read \<noteq> index then Inl Protocol
      else Inr (read, ack_data))"

record server =
  sv_info :: "sdk_error + info_ack \<times> bytes"
  sv_read :: "u32 \<Rightarrow> sdk_error + read_ack \<times> bytes"

definition read_chunk :: "server \<Rightarrow> u32 \<Rightarrow> sdk_error + bytes" where
  "read_chunk S index =
     rbind (sv_read S index) (\<lambda>(read, ack_data).
     rbind (read_reply read ack_data index) (\<lambda>(_, got). Inr got))"

section \<open>The checks\<close>

record verified_target =
  vt_cipher :: file_cipher
  vt_file_size :: u64
  vt_chunk_count :: u32

record download_lib =
  dl_aead :: aead_lib
  dl_json :: block_json
  dl_sha256_hex :: "bytes \<Rightarrow> string"

definition check_info_against_block :: "info_ack \<Rightarrow> chunked_block \<Rightarrow> u32 \<Rightarrow> sdk_error + unit" where
  "check_info_against_block info b expected_count =
     (case (ia_chunk_size info, ia_chunk_count info) of
        (Some info_chunk_size, Some info_chunk_count) \<Rightarrow>
          if info_chunk_size \<noteq> cb_chunk_size b then Inl Integrity
          else if info_chunk_count \<noteq> expected_count then Inl Integrity
          else
            rbind (case (ia_file_size info, cb_file_size b) of
                     (Some x, Some y) \<Rightarrow> if x \<noteq> y then Inl Integrity else Inr ()
                   | _ \<Rightarrow> Inr ()) (\<lambda>_.
            if ia_truncated info = Some True then Inl Integrity else Inr ())
      | _ \<Rightarrow> Inl Integrity)"

definition check_description ::
    "download_lib \<Rightarrow> file_cipher \<Rightarrow> chunked_block \<Rightarrow> bytes \<Rightarrow> sdk_error + unit" where
  "check_description D fc b description_data =
     (if description_data = [] then Inl Integrity
      else
        let opened = (case open_description (dl_aead D) fc Slot_Seal description_data of
                        Inr json \<Rightarrow> Inr json
                      | Inl _ \<Rightarrow> open_description (dl_aead D) fc Slot_Create description_data)
        in rbind (map_err (\<lambda>_. Integrity) opened) (\<lambda>json.
           rbind (map_err (\<lambda>_. Integrity) (from_description_json (dl_json D) json)) (\<lambda>description.
           if is_consistent_with_description b description then Inr () else Inl Integrity)))"

definition verify_info ::
    "download_lib \<Rightarrow> manifest \<Rightarrow> info_ack \<Rightarrow> bytes \<Rightarrow> sdk_error + verified_target" where
  "verify_info D m info description_data =
     rbind (manifest_file_cipher m) (\<lambda>fc.
     let file_size = manifest_file_size m in
     rbind (ok_or Integrity (chunk_count file_size (cb_chunk_size (mf_block m)))) (\<lambda>expected_count.
     rbind (check_info_against_block info (mf_block m) expected_count) (\<lambda>_.
     rbind (check_description D fc (mf_block m) description_data) (\<lambda>_.
     Inr \<lparr>vt_cipher = fc, vt_file_size = file_size, vt_chunk_count = expected_count\<rparr>))))"

definition verify_target :: "download_lib \<Rightarrow> server \<Rightarrow> manifest \<Rightarrow> sdk_error + verified_target" where
  "verify_target D S m = rbind (sv_info S) (\<lambda>(info, description_data). verify_info D m info description_data)"

definition open_chunk_data ::
    "download_lib \<Rightarrow> manifest \<Rightarrow> verified_target \<Rightarrow> u32 \<Rightarrow> bytes \<Rightarrow> sdk_error + bytes" where
  "open_chunk_data D m t index sealed =
     rbind (ok_or Integrity (expected_plain_len (vt_file_size t) (cb_chunk_size (mf_block m)) index)) (\<lambda>expected.
     map_err sdk_of_crypto_error (open_chunk (dl_aead D) (vt_cipher t) index sealed expected))"

definition read_and_open_chunk ::
    "download_lib \<Rightarrow> server \<Rightarrow> manifest \<Rightarrow> verified_target \<Rightarrow> u32 \<Rightarrow> sdk_error + bytes" where
  "read_and_open_chunk D S m t index =
     rbind (read_chunk S index) (\<lambda>sealed. open_chunk_data D m t index sealed)"

definition is_lower_hex_64 :: "string \<Rightarrow> bool" where
  "is_lower_hex_64 s \<longleftrightarrow> length s = 64 \<and> list_all (\<lambda>c. let n = of_char c :: nat in
     48 \<le> n \<and> n \<le> 57 \<or> 97 \<le> n \<and> n \<le> 102) s"

definition parse_sha256_field :: "chunked_block \<Rightarrow> sdk_error + string option" where
  "parse_sha256_field b =
     (case cb_sha256 b of
        None \<Rightarrow> Inr None
      | Some s \<Rightarrow> if is_lower_hex_64 s then Inr (Some s) else Inl Integrity)"

section \<open>The whole file\<close>

record download_report =
  dr_chunks :: u32
  dr_bytes :: nat
  dr_sha256_verified :: bool

text \<open>One turn of the loop; the state is what has been written to \<open>out\<close> (and hashed).\<close>

definition download_step ::
    "download_lib \<Rightarrow> server \<Rightarrow> manifest \<Rightarrow> verified_target \<Rightarrow> nat \<Rightarrow> sdk_error + bytes \<Rightarrow> sdk_error + bytes" where
  "download_step D S m t index written =
     rbind written (\<lambda>out.
     rbind (read_and_open_chunk D S m t (of_nat index)) (\<lambda>plain. Inr (out @ plain)))"

definition download :: "download_lib \<Rightarrow> server \<Rightarrow> manifest \<Rightarrow> sdk_error + bytes \<times> download_report" where
  "download D S m =
     rbind (verify_target D S m) (\<lambda>t.
     rbind (parse_sha256_field (mf_block m)) (\<lambda>expected_sha256.
     rbind (fold (download_step D S m t) [0..<unat (vt_chunk_count t)] (Inr [])) (\<lambda>out.
     if length out \<noteq> unat (vt_file_size t) then Inl Integrity
     else
       rbind (case expected_sha256 of
                Some expected \<Rightarrow> if dl_sha256_hex D out \<noteq> expected then Inl Integrity else Inr True
              | None \<Rightarrow> Inr False) (\<lambda>sha256_verified.
       Inr (out, \<lparr>dr_chunks = vt_chunk_count t, dr_bytes = length out,
                  dr_sha256_verified = sha256_verified\<rparr>)))))"

section \<open>A range\<close>

record seek_result_of =
  sr_bytes :: bytes
  sr_chunks_read :: "u32 list"
  sr_truncated :: bool

definition U64_MAX :: nat where "U64_MAX = 2 ^ 64 - 1"

definition seek_end :: "nat \<Rightarrow> nat \<Rightarrow> nat \<Rightarrow> nat option \<Rightarrow> nat \<Rightarrow> nat \<times> bool" where
  "seek_end chunk_size file_size pos len start_index =
     (case len of
        None \<Rightarrow> (min ((start_index + 1) * chunk_size) file_size, False)
      | Some l \<Rightarrow>
          let wanted_end = min (pos + l) U64_MAX
          in (min wanted_end file_size, wanted_end > file_size))"

text \<open>The loop; \<open>None\<close> is a loop that never ends.\<close>

partial_function (option) seek_loop ::
    "download_lib \<Rightarrow> server \<Rightarrow> manifest \<Rightarrow> verified_target \<Rightarrow> nat \<Rightarrow> nat \<Rightarrow> nat \<Rightarrow> bytes \<Rightarrow> u32 list
      \<Rightarrow> (sdk_error + bytes \<times> u32 list) option" where
  "seek_loop D S m t pos end_pos index out chunks_read =
     (let chunk_size = unat (cb_chunk_size (mf_block m)) in
      if index * chunk_size < end_pos then
        (case read_and_open_chunk D S m t (of_nat index) of
           Inl e \<Rightarrow> Some (Inl e)
         | Inr plain \<Rightarrow>
             let chunk_start = index * chunk_size;
                 from_off = pos - chunk_start;
                 to_off = min (end_pos - chunk_start) (length plain)
             in case get_range plain from_off to_off of
                  None \<Rightarrow> Some (Inl Integrity)
                | Some wanted \<Rightarrow>
                    seek_loop D S m t pos end_pos (index + 1) (out @ wanted) (chunks_read @ [of_nat index]))
      else Some (Inr (out, chunks_read)))"

definition seek_read ::
    "download_lib \<Rightarrow> server \<Rightarrow> manifest \<Rightarrow> u64 \<Rightarrow> u64 option \<Rightarrow> (sdk_error + seek_result_of) option" where
  "seek_read D S m pos len =
     (case verify_target D S m of
        Inl e \<Rightarrow> Some (Inl e)
      | Inr t \<Rightarrow>
          if pos \<ge> vt_file_size t then Some (Inl Usage)
          else
            (case locate pos (cb_chunk_size (mf_block m)) of
               None \<Rightarrow> Some (Inl Usage)
             | Some start \<Rightarrow>
                 let (end_pos, truncated) =
                   seek_end (unat (cb_chunk_size (mf_block m))) (unat (vt_file_size t)) (unat pos)
                     (map_option unat len) (unat (st_index start))
                 in map_option
                      (\<lambda>r. rbind r (\<lambda>(out, chunks_read).
                         Inr \<lparr>sr_bytes = out, sr_chunks_read = chunks_read, sr_truncated = truncated\<rparr>))
                      (seek_loop D S m t (unat pos) end_pos (unat (st_index start)) [] [])))"

end
