(* ===== verification/Download_Correct.thy ===== *)
theory Download_Correct
  imports Download_Verify
begin

text \<open>
  What a download promises: an accepted download is, chunk by chunk, the only plaintext the
  server's bytes can be the sealing of, has the declared length and hash; and the bytes a correct
  uploader stored are always accepted, as a whole and as any range.
\<close>

section \<open>Acceptance\<close>

definition target_ok :: "manifest \<Rightarrow> verified_target \<Rightarrow> bool" where
  "target_ok m t \<longleftrightarrow> from_event_block (mf_block m) = Inr (vt_cipher t)
     \<and> cb_file_size (mf_block m) = Some (vt_file_size t)
     \<and> chunk_count (vt_file_size t) (cb_chunk_size (mf_block m)) = Some (vt_chunk_count t)"

definition info_agrees :: "info_ack \<Rightarrow> chunked_block \<Rightarrow> u32 \<Rightarrow> bool" where
  "info_agrees info b n \<longleftrightarrow> ia_chunk_size info = Some (cb_chunk_size b) \<and> ia_chunk_count info = Some n
     \<and> both_or_absent (ia_file_size info) (cb_file_size b) \<and> ia_truncated info \<noteq> Some True"

lemma check_info_Inr: "check_info_against_block info b n = Inr () \<longleftrightarrow> info_agrees info b n"
  by (auto simp: check_info_against_block_def info_agrees_def both_or_absent_def rbind_eq_Inr
      split: option.splits if_splits)

definition description_agrees :: "download_lib \<Rightarrow> file_cipher \<Rightarrow> chunked_block \<Rightarrow> bytes \<Rightarrow> bool" where
  "description_agrees D fc b s \<longleftrightarrow> s \<noteq> [] \<and>
     (case open_description (dl_aead D) fc Slot_Seal s of
        Inr json \<Rightarrow> (\<exists>d. from_description_json (dl_json D) json = Inr d \<and> is_consistent_with_description b d)
      | Inl _ \<Rightarrow> (\<exists>json d. open_description (dl_aead D) fc Slot_Create s = Inr json
                    \<and> from_description_json (dl_json D) json = Inr d \<and> is_consistent_with_description b d))"

lemma check_description_Inr: "check_description D fc b s = Inr () \<longleftrightarrow> description_agrees D fc b s"
  by (auto simp: check_description_def description_agrees_def rbind_eq_Inr split: sum.splits if_splits)

lemma from_event_block_file_size:
  "from_event_block b = Inr fc \<Longrightarrow> cb_file_size b \<noteq> None \<and> fc_chunk_size fc = cb_chunk_size b"
  by (auto simp: from_event_block_def rbind_eq_Inr check_as_event_block_Inr)

lemma verify_info_iff:
  "verify_info D m info s = Inr t \<longleftrightarrow>
     target_ok m t \<and> info_agrees info (mf_block m) (vt_chunk_count t)
     \<and> description_agrees D (vt_cipher t) (mf_block m) s"
proof -
  have "verify_info D m info s = Inr t \<longleftrightarrow>
     (\<exists>fc n. from_event_block (mf_block m) = Inr fc
        \<and> chunk_count (manifest_file_size m) (cb_chunk_size (mf_block m)) = Some n
        \<and> info_agrees info (mf_block m) n \<and> description_agrees D fc (mf_block m) s
        \<and> t = \<lparr>vt_cipher = fc, vt_file_size = manifest_file_size m, vt_chunk_count = n\<rparr>)"
    by (auto simp: verify_info_def rbind_eq_Inr manifest_file_cipher_def Let_def
        check_info_Inr [symmetric] check_description_Inr [symmetric])
  also have "\<dots> \<longleftrightarrow> target_ok m t \<and> info_agrees info (mf_block m) (vt_chunk_count t)
     \<and> description_agrees D (vt_cipher t) (mf_block m) s"
    by (cases t) (auto simp: target_ok_def manifest_file_size_def dest: from_event_block_file_size)
  finally show ?thesis .
qed

section \<open>The chunks of a target\<close>

lemma of_nat_u32: "i < unat (n :: u32) \<Longrightarrow> unat (of_nat i :: u32) = i"
proof -
  assume "i < unat n"
  then have "i < 4294967296" using u32_lt [of n] by linarith
  then show ?thesis by (simp add: unat_of_nat take_bit_nat_eq_self)
qed

lemma from_event_block_wf:
  "from_event_block b = Inr fc \<Longrightarrow> wf_block b \<Longrightarrow> wf_file_cipher fc \<and> fc_chunk_size fc = cb_chunk_size b"
  by (auto simp: from_event_block_def rbind_eq_Inr wf_file_cipher_def wf_block_def is_encrypting_def
      split: cipher.splits option.splits)

lemma target_facts:
  assumes "target_ok m t" and "wf_block (mf_block m)"
  shows "wf_file_cipher (vt_cipher t)" and "fc_chunk_size (vt_cipher t) = cb_chunk_size (mf_block m)"
    and "0 < unat (cb_chunk_size (mf_block m))"
    and "unat (vt_chunk_count t) = ceil_div (unat (vt_file_size t)) (unat (cb_chunk_size (mf_block m)))"
proof -
  have fb: "from_event_block (mf_block m) = Inr (vt_cipher t)"
    and n: "chunk_count (vt_file_size t) (cb_chunk_size (mf_block m)) = Some (vt_chunk_count t)"
    using assms(1) by (simp_all add: target_ok_def)
  from fb assms(2) show "wf_file_cipher (vt_cipher t)" "fc_chunk_size (vt_cipher t) = cb_chunk_size (mf_block m)"
    using from_event_block_wf by blast+
  from n show "0 < unat (cb_chunk_size (mf_block m))"
    "unat (vt_chunk_count t) = ceil_div (unat (vt_file_size t)) (unat (cb_chunk_size (mf_block m)))"
    by (auto simp: chunk_count_Some unat_gt_0)
qed

lemma open_chunk_data_iff:
  assumes A: "aead_ok (dl_aead D)" and t: "target_ok m t" "wf_block (mf_block m)"
    and i: "i < unat (vt_chunk_count t)"
  shows "open_chunk_data D m t (of_nat i) s = Inr p \<longleftrightarrow>
     seal_chunk (dl_aead D) (vt_cipher t) (of_nat i) p = Inr s
     \<and> length p = min (unat (cb_chunk_size (mf_block m))) (unat (vt_file_size t) - i * unat (cb_chunk_size (mf_block m)))"
proof -
  let ?cs = "cb_chunk_size (mf_block m)"
  have "expected_plain_len (vt_file_size t) ?cs (of_nat i)
      = Some (min (unat ?cs) (unat (vt_file_size t) - i * unat ?cs))"
    using t(1) i of_nat_u32 [OF i] by (auto simp: expected_plain_len_Some target_ok_def)
  then show ?thesis
    using open_chunk_seal_chunk [OF A target_facts(1) [OF t], of _ "of_nat i" s p] target_facts(2) [OF t]
    by (simp add: open_chunk_data_def)
qed

lemma read_and_open_chunk_Inr:
  assumes "aead_ok (dl_aead D)" "target_ok m t" "wf_block (mf_block m)" "i < unat (vt_chunk_count t)"
  shows "read_and_open_chunk D S m t (of_nat i) = Inr p \<longleftrightarrow>
     (\<exists>s. read_chunk S (of_nat i) = Inr s \<and> seal_chunk (dl_aead D) (vt_cipher t) (of_nat i) p = Inr s)
     \<and> length p = min (unat (cb_chunk_size (mf_block m))) (unat (vt_file_size t) - i * unat (cb_chunk_size (mf_block m)))"
  by (auto simp: read_and_open_chunk_def rbind_eq_Inr open_chunk_data_iff [OF assms])

section \<open>The whole file\<close>

definition chunks_sealed :: "download_lib \<Rightarrow> server \<Rightarrow> manifest \<Rightarrow> verified_target \<Rightarrow> nat \<Rightarrow> bytes \<Rightarrow> bool" where
  "chunks_sealed D S m t n out \<longleftrightarrow>
     (\<forall>i<n. \<exists>s. read_chunk S (of_nat i) = Inr s
        \<and> seal_chunk (dl_aead D) (vt_cipher t) (of_nat i) (window (unat (cb_chunk_size (mf_block m))) out i) = Inr s)"

lemma download_loop_sound:
  assumes A: "aead_ok (dl_aead D)" and t: "target_ok m t" "wf_block (mf_block m)"
  shows "n \<le> unat (vt_chunk_count t) \<Longrightarrow> fold (download_step D S m t) [0..<n] (Inr []) = Inr out \<Longrightarrow>
     length out = min (n * unat (cb_chunk_size (mf_block m))) (unat (vt_file_size t)) \<and> chunks_sealed D S m t n out"
proof (induction n arbitrary: out)
  case 0
  then show ?case by (simp add: chunks_sealed_def)
next
  case (Suc n)
  let ?cs = "unat (cb_chunk_size (mf_block m))" and ?fs = "unat (vt_file_size t)"
  have n: "n < unat (vt_chunk_count t)" using Suc.prems(1) by simp
  note facts = target_facts [OF t]
  have below: "n * ?cs < ?fs" using n facts(3,4) by (simp add: ceil_div_less_iff)
  from Suc.prems(2) have "download_step D S m t n (fold (download_step D S m t) [0..<n] (Inr [])) = Inr out"
    by simp
  then obtain prev p where prev: "fold (download_step D S m t) [0..<n] (Inr []) = Inr prev"
    and p: "read_and_open_chunk D S m t (of_nat n) = Inr p" and out: "out = prev @ p"
    by (simp only: download_step_def rbind_eq_Inr) blast
  from Suc.IH [OF _ prev] Suc.prems(1) below
  have len: "length prev = n * ?cs" and sealed: "chunks_sealed D S m t n prev" by auto
  have p_len: "length p = min ?cs (?fs - n * ?cs)"
    and p_sealed: "\<exists>s. read_chunk S (of_nat n) = Inr s \<and> seal_chunk (dl_aead D) (vt_cipher t) (of_nat n) p = Inr s"
    using p read_and_open_chunk_Inr [OF A t n] by auto
  have "window ?cs out n = p" using len p_len by (simp add: out window_def)
  moreover have "window ?cs out i = window ?cs prev i" if "i < n" for i
  proof -
    have "(i + 1) * ?cs \<le> n * ?cs" using that by (intro mult_le_mono1) simp
    with len show ?thesis unfolding out by (intro window_append) simp
  qed
  ultimately have "chunks_sealed D S m t (Suc n) out"
    using sealed p_sealed by (auto simp: chunks_sealed_def less_Suc_eq)
  moreover have "length out = min (Suc n * ?cs) ?fs" using len p_len below by (simp add: out)
  ultimately show ?case by simp
qed


text \<open>A server that stored what a correct uploader sealed.\<close>

definition serves :: "download_lib \<Rightarrow> server \<Rightarrow> manifest \<Rightarrow> verified_target \<Rightarrow> bytes \<Rightarrow> bool" where
  "serves D S m t file \<longleftrightarrow> length file = unat (vt_file_size t)
     \<and> chunks_sealed D S m t (unat (vt_chunk_count t)) file"

lemma served_chunk:
  assumes "aead_ok (dl_aead D)" "target_ok m t" "wf_block (mf_block m)" "serves D S m t f"
    and "i < unat (vt_chunk_count t)"
  shows "read_and_open_chunk D S m t (of_nat i) = Inr (window (unat (cb_chunk_size (mf_block m))) f i)"
  using assms read_and_open_chunk_Inr [OF assms(1-3,5)]
  by (simp add: serves_def chunks_sealed_def length_window)

lemma download_loop_served:
  assumes "aead_ok (dl_aead D)" "target_ok m t" "wf_block (mf_block m)" "serves D S m t f"
  shows "n \<le> unat (vt_chunk_count t) \<Longrightarrow>
     fold (download_step D S m t) [0..<n] (Inr []) = Inr (take (n * unat (cb_chunk_size (mf_block m))) f)"
proof (induction n)
  case 0
  then show ?case by simp
next
  case (Suc n)
  with served_chunk [OF assms, of n] show ?case
    using take_window [of n "unat (cb_chunk_size (mf_block m))" f] by (simp add: download_step_def)
qed

text \<open>
  A correct server's file is always downloaded: when \<open>Info\<close> verifies, the server serves the
  sealed chunks of \<open>file\<close> and the block's SHA-256, if any, is that of \<open>file\<close>, \<open>download\<close> returns
  exactly \<open>file\<close>, with its number of chunks and its hash verified.
\<close>

lemma served_file_downloads:
  assumes "aead_ok (dl_aead D)" and "wf_block (mf_block m)" and "verify_target D S m = Inr t"
    and "serves D S m t f"
    and "case cb_sha256 (mf_block m) of None \<Rightarrow> True | Some h \<Rightarrow> is_lower_hex_64 h \<and> dl_sha256_hex D f = h"
  shows "download D S m = Inr (f, \<lparr>dr_chunks = vt_chunk_count t, dr_bytes = length f,
     dr_sha256_verified = (cb_sha256 (mf_block m) \<noteq> None)\<rparr>)"
proof -
  have t: "target_ok m t" using assms(3) by (auto simp: verify_target_def rbind_eq_Inr verify_info_iff)
  have "length f \<le> unat (vt_chunk_count t) * unat (cb_chunk_size (mf_block m))"
    using target_facts(3,4) [OF t assms(2)] assms(4) by (simp add: serves_def le_ceil_div_mult)
  then have "fold (download_step D S m t) [0..<unat (vt_chunk_count t)] (Inr []) = Inr f"
    using download_loop_served [OF assms(1) t assms(2,4) order_refl] by simp
  with assms(3-5) show ?thesis
    by (auto simp: download_def serves_def parse_sha256_field_def split: option.splits)
qed

section \<open>A range\<close>

lemma seek_loop_served:
  assumes A: "aead_ok (dl_aead D)" "target_ok m t" "wf_block (mf_block m)" "serves D S m t f"
    and c: "c = unat (cb_chunk_size (mf_block m))" and e: "p \<le> e" "e \<le> length f"
  shows "p div c \<le> i \<Longrightarrow>
     seek_loop D S m t p e i out read = Some (Inr (out @ cut_out f (max p (i * c)) e, read @ map of_nat [i..<ceil_div e c]))"
proof (induction "ceil_div e c - i" arbitrary: i out read)
  case 0
  note pos = target_facts(3) [OF A(2,3), folded c]
  have "\<not> i * c < e" using 0 ceil_div_less_iff [OF pos, of i e] by simp
  then show ?case using 0 by (subst seek_loop.simps) (simp add: c Let_def cut_out_empty)
next
  case (Suc k)
  note pos = target_facts(3) [OF A(2,3), folded c]
  have i: "i < ceil_div e c" using Suc.hyps(2) by simp
  then have below: "i * c < e" using ceil_div_less_iff [OF pos] by blast
  then have "i < unat (vt_chunk_count t)"
    using target_facts(4) [OF A(2,3)] A(4) e(2) pos by (simp add: serves_def ceil_div_less_iff c)
  then have chunk: "read_and_open_chunk D S m t (of_nat i) = Inr (window c f i)"
    using served_chunk [OF A] c by simp
  have "(p div c + 1) * c \<le> (i + 1) * c" using Suc.prems by (intro mult_le_mono1) simp
  then have p: "p < (i + 1) * c" using next_multiple [OF pos, of p] by linarith
  note piece = window_range [OF p e(1) below e(2)]
  have "max p ((i + 1) * c) = (i + 1) * c" using p by simp
  moreover have "cut_out f (max p (i * c)) (min e ((i + 1) * c)) @ cut_out f ((i + 1) * c) e = cut_out f (max p (i * c)) e"
  proof (cases "(i + 1) * c \<le> e")
    case True
    then show ?thesis using p by (simp add: cut_out_append)
  qed (simp add: cut_out_empty)
  moreover have "[i..<ceil_div e c] = i # [i + 1..<ceil_div e c]" using i by (simp add: upt_conv_Cons)
  ultimately show ?case
    using Suc.hyps(1) [of "i + 1"] Suc.hyps(2) Suc.prems below piece
    by (subst seek_loop.simps) (simp add: c [symmetric] Let_def chunk del: mult_Suc)
qed

lemma unat_locate:
  assumes "unat pos div unat cs < 2 ^ 32 - 2" "0 < unat cs"
  shows "\<exists>s. locate pos cs = Some s \<and> unat (st_index s) = unat pos div unat cs"
proof -
  have q: "unat (pos div ucast cs) = unat pos div unat cs" by (simp add: unat_div_distrib)
  then have "\<not> pos div ucast cs > ucast MAX_CHUNK_INDEX"
    using assms(1) by (simp add: MAX_CHUNK_INDEX_def word_less_nat_alt)
  moreover have "cs \<noteq> 0" using assms(2) by auto
  moreover have "unat (ucast (pos div ucast cs) :: u32) = unat pos div unat cs"
    using assms(1) by (simp only: unat_narrow q) simp
  ultimately show ?thesis by (simp add: locate_def)
qed

text \<open>
  A ranged read of a correct server's file returns (its loop ends) exactly the requested
  bytes, stopping at the end of the file (and saying so) or, without a length, at the end of the
  chunk that holds the position; it asks the server for exactly the chunks that overlap the range,
  each once and in order, and refuses a position at or past the end.
\<close>

lemma seek_read_returns_range:
  assumes "aead_ok (dl_aead D)" and "wf_block (mf_block m)" and "verify_target D S m = Inr t"
    and "serves D S m t f" and "c = unat (cb_chunk_size (mf_block m))"
    and "(e, short) = seek_end c (length f) (unat pos) (map_option unat len) (unat pos div c)"
  shows "seek_read D S m pos len =
     (if length f \<le> unat pos then Some (Inl Usage)
      else Some (Inr \<lparr>sr_bytes = cut_out f (unat pos) e,
                      sr_chunks_read = map of_nat [unat pos div c..<ceil_div e c], sr_truncated = short\<rparr>))"
proof -
  have t: "target_ok m t" using assms(3) by (auto simp: verify_target_def rbind_eq_Inr verify_info_iff)
  have len: "length f = unat (vt_file_size t)" using assms(4) by (simp add: serves_def)
  note pos_c = target_facts(3) [OF t assms(2), folded assms(5)]
  note count = target_facts(4) [OF t assms(2), folded assms(5)]
  show ?thesis
  proof (cases "length f \<le> unat pos")
    case True
    then show ?thesis by (simp add: seek_read_def assms(3) word_le_nat_alt len)
  next
    case False
    then have inside: "unat pos < unat (vt_file_size t)" by (simp add: len)
    have split: "unat pos div c * c + unat pos mod c = unat pos" by simp
    then have "unat pos div c * c < unat (vt_file_size t)" using inside by linarith
    then have "unat pos div c < unat (vt_chunk_count t)" using pos_c by (simp add: count ceil_div_less_iff)
    moreover have "unat (vt_chunk_count t) \<le> 0xFFFFFFFE" using t by (auto simp: target_ok_def chunk_count_Some)
    ultimately have "unat pos div c < 2 ^ 32 - 2" by simp
    then obtain s where s: "locate pos (cb_chunk_size (mf_block m)) = Some s" "unat (st_index s) = unat pos div c"
      using unat_locate [of pos "cb_chunk_size (mf_block m)"] pos_c assms(5) by auto
    have rem: "unat pos < (unat pos div c + 1) * c" using pos_c by (rule next_multiple)
    have e: "unat pos \<le> e" "e \<le> length f"
      using assms(6) inside len split rem u64_lt [of pos]
      by (auto simp: seek_end_def U64_MAX_def Let_def min_def split: option.splits if_splits)
    have "max (unat pos) (unat pos div c * c) = unat pos" using split by linarith
    then have "seek_loop D S m t (unat pos) e (unat pos div c) [] [] =
        Some (Inr (cut_out f (unat pos) e, map of_nat [unat pos div c..<ceil_div e c]))"
      using seek_loop_served [OF assms(1) t assms(2,4,5) e, of "unat pos div c" "[]" "[]"] by simp
    then show ?thesis
      using False s inside assms(6) [symmetric, unfolded len]
      by (simp add: seek_read_def assms(3) word_le_nat_alt len assms(5) [symmetric])
  qed
qed

section \<open>The properties at concrete inputs\<close>

definition demo_block :: chunked_block where
  "demo_block = to_event_block demo_cipher 6"

definition demo_manifest :: manifest where
  "demo_manifest = \<lparr>mf_server = ''s'', mf_mxc = ''mxc://s/1'', mf_block = demo_block\<rparr>"

definition demo_tag_of :: "u32 \<Rightarrow> bytes" where
  "demo_tag_of i = [1, 2, 3, 4, 5, 6, 7, 8] @ u32_to_be i @ [7, 7, 7, 7]"

definition demo_lib :: download_lib where
  "demo_lib = \<lparr>dl_aead = demo_aead,
     dl_json = \<lparr>json_write = (\<lambda>b. Some [42]), json_read = (\<lambda>j. if j = [42] then Some (to_description demo_block) else None)\<rparr>,
     dl_sha256_hex = (\<lambda>_. ''00'')\<rparr>"

definition demo_server :: server where
  "demo_server = \<lparr>
     sv_info = Inr (\<lparr>ia_total_len = 0, ia_file_size = Some 6, ia_chunk_size = Some 4, ia_chunk_count = Some 2,
                     ia_truncated = None\<rparr>, [42] @ demo_tag_of SEAL_DESCRIPTION_INDEX),
     sv_read = (\<lambda>i. let p = (if i = 0 then [10, 11, 12, 13] else [14, 15]) in
        Inr (\<lparr>ra_chunk = i, ra_pos = 0, ra_len = of_nat (length p + 16)\<rparr>, p @ demo_tag_of i))\<rparr>"

definition demo_target :: verified_target where
  "demo_target = \<lparr>vt_cipher = demo_cipher, vt_file_size = 6, vt_chunk_count = 2\<rparr>"

lemma demo_block_simps:
  "cb_chunk_size demo_block = 4" "cb_file_size demo_block = Some 6" "cb_sha256 demo_block = None"
  "mf_block demo_manifest = demo_block" "dl_aead demo_lib = demo_aead"
  by (simp_all add: demo_block_def to_event_block_def demo_cipher_def with_fixed_def is_encrypting_def
      Let_def demo_manifest_def demo_lib_def)

lemma demo_seal:
  "seal_with_index demo_aead demo_cipher i aad p = Inr (p @ demo_tag_of i)"
  by (simp add: seal_with_index_def demo_cipher_def with_fixed_def is_encrypting_def cipher_seal_def
      demo_aead_def build_nonce_def demo_tag_of_def replicate_numeral)

lemma demo_block_ok: "from_event_block demo_block = Inr demo_cipher" "wf_block demo_block"
  by (simp_all add: from_event_block_def check_as_event_block_def check_shared_rules_def demo_block_def
      to_event_block_def demo_cipher_def with_fixed_def is_encrypting_def CONVENTION_V_def wf_block_def
      KEY_LEN_def BLOCK_NONCE_BASE_LEN_def)

lemma demo_target_ok: "target_ok demo_manifest demo_target"
  by (simp add: target_ok_def demo_block_simps demo_target_def demo_block_ok chunk_count_Some ceil_div_def)

lemma demo_verified: "verify_target demo_lib demo_server demo_manifest = Inr demo_target"
proof -
  have "open_with_index demo_aead demo_cipher SEAL_DESCRIPTION_INDEX DESCRIPTION_AAD
      ([42] @ demo_tag_of SEAL_DESCRIPTION_INDEX) = Some [42]"
    by (simp only: open_with_index_iff [OF demo_aead_ok] demo_seal)
  then have desc: "open_description demo_aead demo_cipher Slot_Seal ([42] @ demo_tag_of SEAL_DESCRIPTION_INDEX) = Inr [42]"
    by (simp add: open_description_def)
  have "check_as_description (to_description demo_block) = Inr ()"
    by (simp add: check_as_description_Inr to_description_def demo_block_def to_event_block_def demo_cipher_def
        with_fixed_def is_encrypting_def CONVENTION_V_def)
  then have "from_description_json (dl_json demo_lib) [42] = Inr (to_description demo_block)"
    by (simp add: from_description_json_def demo_lib_def)
  then have "description_agrees demo_lib demo_cipher demo_block ([42] @ demo_tag_of SEAL_DESCRIPTION_INDEX)"
    using desc is_consistent_to_description [of demo_block]
    by (simp add: description_agrees_def demo_block_simps)
  moreover have "info_agrees \<lparr>ia_total_len = 0, ia_file_size = Some 6, ia_chunk_size = Some 4,
      ia_chunk_count = Some 2, ia_truncated = None\<rparr> demo_block 2"
    by (simp add: info_agrees_def demo_block_simps both_or_absent_def)
  ultimately show ?thesis
    using demo_target_ok
    by (simp add: verify_target_def demo_server_def verify_info_iff demo_block_simps)
       (simp add: demo_target_def)
qed

lemma demo_serves: "serves demo_lib demo_server demo_manifest demo_target [10, 11, 12, 13, 14, 15]"
proof -
  have len: "length (demo_tag_of i) = 16" for i by (simp add: demo_tag_of_def)
  have "chunks_sealed demo_lib demo_server demo_manifest demo_target 2 [10, 11, 12, 13, 14, 15]"
    unfolding chunks_sealed_def
  proof (intro allI impI)
    fix i :: nat
    assume "i < 2"
    then have "i = 0 \<or> i = 1" by auto
    then show "\<exists>s. read_chunk demo_server (of_nat i) = Inr s
        \<and> seal_chunk (dl_aead demo_lib) (vt_cipher demo_target) (of_nat i)
            (window (unat (cb_chunk_size (mf_block demo_manifest))) [10, 11, 12, 13, 14, 15] i) = Inr s"
      by (auto simp: read_chunk_def demo_server_def read_reply_def Let_def len demo_block_simps demo_target_def
          seal_chunk_def demo_seal window_def MAX_CHUNK_INDEX_def)
  qed
  then show ?thesis by (simp add: serves_def) (simp add: demo_target_def)
qed

lemma demo_download:
  "download demo_lib demo_server demo_manifest =
     Inr ([10, 11, 12, 13, 14, 15], \<lparr>dr_chunks = 2, dr_bytes = 6, dr_sha256_verified = False\<rparr>)"
proof -
  have "fold (download_step demo_lib demo_server demo_manifest demo_target) [0..<2] (Inr []) = Inr [10, 11, 12, 13, 14, 15]"
    using download_loop_served [of demo_lib demo_manifest demo_target demo_server "[10, 11, 12, 13, 14, 15]" 2]
      demo_aead_ok demo_target_ok demo_block_ok(2) demo_serves
    by (simp add: demo_block_simps) (simp add: demo_target_def)
  then show ?thesis
    by (simp add: download_def demo_verified parse_sha256_field_def demo_block_simps) (simp add: demo_target_def)
qed


theorem served_file_downloads_witness:
  "download demo_lib demo_server demo_manifest =
     Inr ([10, 11, 12, 13, 14, 15], \<lparr>dr_chunks = 2, dr_bytes = 6, dr_sha256_verified = False\<rparr>)"
  using served_file_downloads [OF _ _ demo_verified demo_serves] demo_aead_ok demo_block_ok(2)
  by (simp add: demo_block_simps) (simp add: demo_target_def)

theorem seek_read_returns_range_witness:
  "seek_read demo_lib demo_server demo_manifest 3 (Some 9) =
     Some (Inr \<lparr>sr_bytes = [13, 14, 15], sr_chunks_read = [0, 1], sr_truncated = True\<rparr>)"
proof -
  have "(6, True) = seek_end 4 (length [10, 11, 12, 13, 14, 15 :: byte]) (unat (3 :: u64)) (map_option unat (Some (9 :: u64)))
      (unat (3 :: u64) div 4)"
    by (simp add: seek_end_def U64_MAX_def)
  from seek_read_returns_range [OF _ _ demo_verified demo_serves _ this] demo_aead_ok demo_block_ok(2)
  show ?thesis by (simp add: demo_block_simps cut_out_def ceil_div_def upt_conv_Cons)
qed

end
