(* ===== verification/Media_Download.thy ===== *)
theory Media_Download
  imports Pool_Correct Seek_Correct Download_Correct
begin

text \<open>
  \<open>MediaDownload\<close> of \<open>crates/wbf-sdk/src/media.rs\<close>: one file being downloaded, that is its main
  file (a pool writer with the bytes of the pending file), its seek file and the parameters
  \<open>Info\<close> verified.  A loop that would never end shows as \<open>None\<close>; the correctness theory proves it
  does not happen.
\<close>

text \<open>A string as its bytes (the names and identifiers of the program are ASCII).\<close>

definition as_bytes :: "string \<Rightarrow> bytes" where
  "as_bytes = map (of_nat \<circ> of_char)"

record media_download =
  md_manifest :: manifest
  md_pending_name :: string
  md_writer :: pool_writer
  md_file :: bytes
  md_seek :: "(bytes \<times> seek_store) option"
  md_target :: "verified_target option"
  md_file_size :: u64
  md_chunk_size :: u32
  md_chunk_count :: u32

text \<open>\<open>open\<close>: the draws of the CSPRNG for a new main file and a new seek file are arguments.\<close>

definition md_open ::
    "pool_lib \<Rightarrow> bytes \<Rightarrow> pool_dir \<Rightarrow> string \<Rightarrow> sdk_error + bytes \<Rightarrow> sdk_error + bytes \<Rightarrow> manifest
      \<Rightarrow> sdk_error + media_download" where
  "md_open L key d pending_name main_draw seek_draw m =
     (let file_size = manifest_file_size m;
          chunk_size = cb_chunk_size (mf_block m);
          mxc = as_bytes (mf_mxc m)
      in case chunk_count file_size chunk_size of
           None \<Rightarrow> Inl Integrity
         | Some count \<Rightarrow>
             if count = 0 then Inl Integrity
             else
               rbind (case resume_pending L key (pd_pending d pending_name) pending_name mxc of
                        Inr (f, w) \<Rightarrow>
                          if pw_plain_len w \<le> unat file_size then Inr (f, w)
                          else create_pending L key main_draw pending_name mxc
                      | Inl _ \<Rightarrow> create_pending L key main_draw pending_name mxc) (\<lambda>(f, w).
               let seek = (case pd_seek d pending_name of
                             None \<Rightarrow> None
                           | Some s \<Rightarrow> (case seek_open L key (Some s) seek_draw mxc chunk_size count of
                                         Inr fs \<Rightarrow> Some fs | Inl _ \<Rightarrow> None))
               in Inr \<lparr>md_manifest = m, md_pending_name = pending_name, md_writer = w, md_file = f,
                       md_seek = seek, md_target = None, md_file_size = file_size,
                       md_chunk_size = chunk_size, md_chunk_count = count\<rparr>))"

definition next_chunk :: "media_download \<Rightarrow> u32" where
  "next_chunk md =
     (case u32_try_from (pw_plain_len (md_writer md) div unat (md_chunk_size md)) of
        Some i \<Rightarrow> i | None \<Rightarrow> of_nat U32_MAX)"

definition is_written :: "media_download \<Rightarrow> bool" where
  "is_written md \<longleftrightarrow> pw_plain_len (md_writer md) = unat (md_file_size md)"

definition needs_info :: "media_download \<Rightarrow> bool" where
  "needs_info md \<longleftrightarrow> md_target md = None"

definition accept_info ::
    "download_lib \<Rightarrow> media_download \<Rightarrow> info_ack \<Rightarrow> bytes \<Rightarrow> sdk_error + media_download" where
  "accept_info D md info description_data =
     rbind (verify_info D (md_manifest md) info description_data) (\<lambda>t. Inr (md\<lparr>md_target := Some t\<rparr>))"

definition md_open_chunk ::
    "download_lib \<Rightarrow> media_download \<Rightarrow> u32 \<Rightarrow> bytes \<Rightarrow> sdk_error + bytes" where
  "md_open_chunk D md index sealed =
     (case md_target md of
        None \<Rightarrow> Inl Usage
      | Some t \<Rightarrow> open_chunk_data D (md_manifest md) t index sealed)"

definition chunk_range :: "media_download \<Rightarrow> u32 \<Rightarrow> sdk_error + nat \<times> nat" where
  "chunk_range md index =
     rbind (ok_or Integrity (expected_plain_len (md_file_size md) (md_chunk_size md) index)) (\<lambda>len.
     let start = unat index * unat (md_chunk_size md) in Inr (start, start + len))"

definition land_chunk ::
    "pool_lib \<Rightarrow> media_download \<Rightarrow> u32 \<Rightarrow> bytes \<Rightarrow> (sdk_error + media_download) option" where
  "land_chunk L md index plain =
     (case chunk_range md index of
        Inl e \<Rightarrow> Some (Inl e)
      | Inr (start, end_pos) \<Rightarrow>
          if length plain \<noteq> end_pos - start then Some (Inl Integrity)
          else
            let already = pw_plain_len (md_writer md) in
            if already < start \<or> already \<ge> end_pos then Some (Inl Usage)
            else
              (case get_from plain (already - start) of
                 None \<Rightarrow> Some (Inl Usage)
               | Some rest \<Rightarrow>
                   map_option
                     (\<lambda>r. rbind r (\<lambda>(f, w). Inr (md\<lparr>md_file := f, md_writer := w\<rparr>)))
                     (writer_write L (md_file md) (md_writer md) rest)))"

text \<open>The result together with the download, whose seek table may have dropped a broken cell.\<close>

definition advance_from_seek_store ::
    "pool_lib \<Rightarrow> media_download \<Rightarrow> ((sdk_error + bool) \<times> media_download) option" where
  "advance_from_seek_store L md =
     (let index = next_chunk md in
      case md_seek md of
        None \<Rightarrow> Some (Inr False, md)
      | Some (sf, st) \<Rightarrow>
          (case read_chunk_of L sf st index of
             (st', None) \<Rightarrow> Some (Inr False, md\<lparr>md_seek := Some (sf, st')\<rparr>)
           | (st', Some plain) \<Rightarrow>
               let md1 = md\<lparr>md_seek := Some (sf, st')\<rparr> in
               map_option (\<lambda>r. case r of Inl e \<Rightarrow> (Inl e, md1) | Inr md2 \<Rightarrow> (Inr True, md2))
                 (land_chunk L md1 index plain)))"

definition read_local_chunk ::
    "pool_lib \<Rightarrow> media_download \<Rightarrow> u32 \<Rightarrow> ((sdk_error + bytes option) \<times> media_download) option" where
  "read_local_chunk L md index =
     (case chunk_range md index of
        Inl e \<Rightarrow> Some (Inl e, md)
      | Inr (start, end_pos) \<Rightarrow>
          if end_pos \<le> sealed_plain_len (md_writer md) then
            map_option (\<lambda>r. (rbind r (\<lambda>plain. Inr (Some plain)), md))
              (read_sealed L (md_file md) (md_writer md) start end_pos)
          else
            (case md_seek md of
               None \<Rightarrow> Some (Inr None, md)
             | Some (sf, st) \<Rightarrow>
                 (case read_chunk_of L sf st index of
                    (st', r) \<Rightarrow> Some (Inr r, md\<lparr>md_seek := Some (sf, st')\<rparr>))))"

definition store_seek_chunk ::
    "pool_lib \<Rightarrow> bytes \<Rightarrow> pool_dir \<Rightarrow> sdk_error + bytes \<Rightarrow> media_download \<Rightarrow> u32 \<Rightarrow> bytes \<Rightarrow> write_outcome
      \<Rightarrow> (sdk_error + unit) \<times> media_download" where
  "store_seek_chunk L key d seek_draw md index plain outcome =
     (case (case md_seek md of
              Some fs \<Rightarrow> Inr fs
            | None \<Rightarrow> seek_open L key (pd_seek d (md_pending_name md)) seek_draw
                        (as_bytes (mf_mxc (md_manifest md))) (md_chunk_size md) (md_chunk_count md)) of
        Inl e \<Rightarrow> (Inl e, md)
      | Inr (sf, st) \<Rightarrow>
          (case append_chunk L sf st index plain outcome of
             (r, sf', st') \<Rightarrow> (r, md\<lparr>md_seek := Some (sf', st')\<rparr>)))"

definition discard :: "pool_dir \<Rightarrow> string \<Rightarrow> pool_dir" where
  "discard d pending_name = discard_seek (discard_pending d pending_name) pending_name"

definition md_discard :: "pool_dir \<Rightarrow> media_download \<Rightarrow> pool_dir" where
  "md_discard d md = discard d (md_pending_name md)"

text \<open>The pending files of the directory while the download is open are those it holds.\<close>

definition md_flush :: "pool_dir \<Rightarrow> media_download \<Rightarrow> pool_dir" where
  "md_flush d md =
     d\<lparr>pd_pending := (pd_pending d)(md_pending_name md := Some (md_file md)),
       pd_seek := (case md_seek md of
                     None \<Rightarrow> pd_seek d
                   | Some (sf, _) \<Rightarrow> (pd_seek d)(md_pending_name md := Some sf))\<rparr>"

definition md_finish ::
    "pool_lib \<Rightarrow> bytes \<Rightarrow> pool_dir \<Rightarrow> media_download \<Rightarrow> pool_dir \<times> (sdk_error + finished \<times> verification)" where
  "md_finish L key d md =
     (let d0 = md_flush d md; name = md_pending_name md in
      if pw_plain_len (md_writer md) \<noteq> unat (md_file_size md) then (discard d0 name, Inl Integrity)
      else
        (case writer_finish L (md_file md) (md_writer md) of
           Inl e \<Rightarrow> (d0, Inl e)
         | Inr (f, fin) \<Rightarrow>
             let d1 = d0\<lparr>pd_pending := (pd_pending d0)(name := Some f)\<rparr>;
                 verified = verification_of_hex (cb_sha256 (mf_block (md_manifest md))) (fin_sha256_hex fin)
             in case adopt L key d1 name (fin_hash_hex fin) of
                  Inl e \<Rightarrow> (d1, Inl e)
                | Inr (d2, _) \<Rightarrow> (discard_seek d2 name, Inr (fin, verified))))"

end
