(* ===== verification/Media_Correct.thy ===== *)
theory Media_Correct
  imports Media_Download
begin

text \<open>
  What a download in progress promises: its main file and its seek file only ever hold pieces of
  the one plaintext, chunks land exactly in order from wherever the main file stopped, local reads
  are exact, and a crashed download that is continued ends in a pool file that reads back the
  plaintext.
\<close>

section \<open>Reading sealed segments of a writer\<close>

lemma sealed_segment_opens:
  assumes inv: "writer_inv L f w xs" and i: "i < pw_segments_written w"
  shows "open_segment L (pw_key w) (pw_header w) f i =
     Inr \<lparr>os_plain = segment_plain (pw_header w) (window (writer_segment_size w) xs i), os_len = writer_segment_size w\<rparr>"
    and "opened_data \<lparr>os_plain = segment_plain (pw_header w) (window (writer_segment_size w) xs i),
            os_len = writer_segment_size w\<rparr> = Inr (window (writer_segment_size w) xs i)"
proof -
  have holds: "writer_holds L f w xs" using inv by (simp add: writer_inv_def)
  then have L: "pool_lib_ok L" and h: "wf_header (pw_header w)"
    and f: "f = partial_file L (pw_key w) (pw_header w) xs (pw_segments_written w) @ []"
    and le: "pw_segments_written w * writer_segment_size w \<le> length xs"
    by (simp_all add: writer_holds_def)
  have "(i + 1) * writer_segment_size w \<le> pw_segments_written w * writer_segment_size w"
    using i by (intro mult_le_mono1) simp
  then have full: "length (window (writer_segment_size w) xs i) = writer_segment_size w"
    using le by (intro window_full) simp
  show "open_segment L (pw_key w) (pw_header w) f i =
     Inr \<lparr>os_plain = segment_plain (pw_header w) (window (writer_segment_size w) xs i), os_len = writer_segment_size w\<rparr>"
    unfolding f using open_window [OF L h segments_in_range [OF holds] i, of "pw_key w" "[]"] full
    by (simp add: writer_segment_size_def)
  show "opened_data \<lparr>os_plain = segment_plain (pw_header w) (window (writer_segment_size w) xs i),
            os_len = writer_segment_size w\<rparr> = Inr (window (writer_segment_size w) xs i)"
    using opened_data_sealed [of "window (writer_segment_size w) xs i" "pw_header w"]
    unfolding full by (simp add: writer_segment_size_def)
qed

lemma read_sealed_loop_inv:
  assumes inv: "writer_inv L f w xs" and e: "e \<le> sealed_plain_len w"
  shows "p \<le> e \<Longrightarrow> read_sealed_loop L f w p e out = Some (Inr (out @ cut_out xs p e))"
proof (induction "e - p" arbitrary: p out rule: less_induct)
  case less
  let ?c = "writer_segment_size w" and ?i = "p div writer_segment_size w"
  have pos: "0 < ?c" using inv by (simp add: writer_inv_def)
  have le: "sealed_plain_len w \<le> length xs"
    using inv by (simp add: writer_inv_def writer_holds_def sealed_plain_len_def)
  show ?case
  proof (cases "p < e")
    case False
    with less.prems show ?thesis by (subst read_sealed_loop.simps) (simp add: cut_out_empty)
  next
    case True
    have ip: "?i * ?c \<le> p" by simp
    then have below: "?i * ?c < e" using True by linarith
    have p: "p < (?i + 1) * ?c" using pos by (rule next_multiple)
    have i: "?i < pw_segments_written w"
    proof -
      have "?i * ?c < pw_segments_written w * ?c" using below e unfolding sealed_plain_len_def by linarith
      then show ?thesis by simp
    qed
    note seg = sealed_segment_opens [OF inv i]
    have "(?i + 1) * ?c \<le> pw_segments_written w * ?c" using i by (intro mult_le_mono1) simp
    then have "(?i + 1) * ?c \<le> length xs" using le by (simp add: sealed_plain_len_def)
    then have full: "length (window ?c xs ?i) = ?c" by (rule window_full)
    let ?q = "min e ((?i + 1) * ?c)"
    have piece: "get_range (window ?c xs ?i) (p - ?i * ?c) (min (e - ?i * ?c) ?c) = Some (cut_out xs p ?q)"
    proof -
      have "e \<le> length xs" using e le by linarith
      moreover have "max p (?i * ?c) = p" using ip by (rule max_absorb1)
      ultimately show ?thesis using window_range [OF p less.prems below, of xs] by (simp only: full)
    qed
    have next_pos: "?i * ?c + min (e - ?i * ?c) ?c = ?q"
    proof -
      have "a < b \<Longrightarrow> a + min (b - a) k = min b (a + k)" for a b k :: nat by simp
      from this [OF below, of ?c] show ?thesis by (simp add: add.commute)
    qed
    have step: "p < ?q" "?q \<le> e" using True p by simp_all
    have "read_sealed_loop L f w p e out = read_sealed_loop L f w ?q e (out @ cut_out xs p ?q)"
      using True seg piece next_pos by (subst read_sealed_loop.simps) (simp add: Let_def)
    also have "\<dots> = Some (Inr ((out @ cut_out xs p ?q) @ cut_out xs ?q e))"
      using step True by (intro less.hyps) auto
    finally show ?thesis using step cut_out_append [of p ?q e xs] by simp
  qed
qed

lemma read_sealed_inv:
  assumes "writer_inv L f w xs" "e \<le> sealed_plain_len w" "p \<le> e"
  shows "read_sealed L f w p e = Some (Inr (cut_out xs p e))"
  using assms read_sealed_loop_inv [OF assms(1,2), of p "[]"] by (simp add: read_sealed_def)

section \<open>The state of a download of \<open>xs\<close>\<close>

text \<open>
  \<open>n\<close> bytes of the plaintext \<open>xs\<close> are in the main file; \<open>ps\<close> are the chunks in the seek file.
\<close>

definition md_inv :: "pool_lib \<Rightarrow> media_download \<Rightarrow> bytes \<Rightarrow> nat \<Rightarrow> (u32 \<times> bytes) list \<Rightarrow> bool" where
  "md_inv L md xs n ps \<longleftrightarrow>
     n \<le> length xs \<and> writer_inv L (md_file md) (md_writer md) (take n xs)
     \<and> (pw_holds_final_segment (md_writer md) \<longrightarrow> n = length xs)
     \<and> length xs = unat (md_file_size md)
     \<and> chunk_count (md_file_size md) (md_chunk_size md) = Some (md_chunk_count md)
     \<and> (case md_seek md of
          None \<Rightarrow> ps = []
        | Some (sf, st) \<Rightarrow> seek_inv L sf st ps \<and> length (ss_slots st) = unat (md_chunk_count md)
            \<and> ss_chunk_size st = md_chunk_size md)
     \<and> (\<forall>p\<in>set ps. snd p = window (unat (md_chunk_size md)) xs (unat (fst p)))"

abbreviation md_chunk :: "media_download \<Rightarrow> bytes \<Rightarrow> nat \<Rightarrow> bytes" where
  "md_chunk md xs i \<equiv> window (unat (md_chunk_size md)) xs i"

lemma md_inv_facts:
  assumes "md_inv L md xs n ps"
  shows "pw_plain_len (md_writer md) = n" and "0 < unat (md_chunk_size md)"
    and "unat (md_chunk_count md) = ceil_div (length xs) (unat (md_chunk_size md))"
    and "unat (md_chunk_count md) \<le> 0xFFFFFFFE" and "n \<le> length xs"
  using assms by (auto simp: md_inv_def writer_inv_def writer_holds_def chunk_count_Some unat_gt_0)

lemma is_written_iff: "md_inv L md xs n ps \<Longrightarrow> is_written md \<longleftrightarrow> n = length xs"
  using md_inv_facts(1) [of L md xs n ps] by (auto simp: is_written_def md_inv_def)

lemma chunk_range_inv:
  assumes "md_inv L md xs n ps"
  shows "chunk_range md i =
     (if unat i < unat (md_chunk_count md)
      then Inr (unat i * unat (md_chunk_size md), min (length xs) ((unat i + 1) * unat (md_chunk_size md)))
      else Inl Integrity)"
proof (cases "unat i < unat (md_chunk_count md)")
  case True
  let ?c = "unat (md_chunk_size md)"
  have "unat i * ?c < length xs"
    using True md_inv_facts(2,3) [OF assms] by (simp add: ceil_div_less_iff)
  moreover have "expected_plain_len (md_file_size md) (md_chunk_size md) i = Some (min ?c (length xs - unat i * ?c))"
    using assms True by (auto simp: expected_plain_len_Some md_inv_def)
  moreover have "q < l \<Longrightarrow> q + min k (l - q) = min l (q + k)" for q k l :: nat by simp
  ultimately show ?thesis using True by (simp add: chunk_range_def Let_def add.commute)
next
  case False
  then have "expected_plain_len (md_file_size md) (md_chunk_size md) i = None"
    using assms expected_plain_len_Some [of "md_file_size md" "md_chunk_size md" i] by (force simp: md_inv_def)
  with False show ?thesis by (simp add: chunk_range_def)
qed

lemma next_chunk_inv:
  assumes "md_inv L md xs n ps" and "n < length xs"
  shows "unat (next_chunk md) = n div unat (md_chunk_size md)"
    and "unat (next_chunk md) < unat (md_chunk_count md)"
proof -
  let ?c = "unat (md_chunk_size md)"
  note facts = md_inv_facts [OF assms(1)]
  have "n div ?c * ?c \<le> n" by simp
  then have "n div ?c * ?c < length xs" using assms(2) by linarith
  then have less: "n div ?c < unat (md_chunk_count md)" using facts(2,3) by (simp add: ceil_div_less_iff)
  then have "n div ?c < 2 ^ 32" using facts(4) by simp
  then show "unat (next_chunk md) = n div ?c"
    by (simp add: next_chunk_def facts(1) u32_try_from_def unat_of_nat take_bit_nat_eq_self)
  with less show "unat (next_chunk md) < unat (md_chunk_count md)" by simp
qed

section \<open>Landing\<close>

lemma land_next:
  assumes inv: "md_inv L md xs n ps" and n: "n < length xs"
  defines "m \<equiv> min (length xs) ((n div unat (md_chunk_size md) + 1) * unat (md_chunk_size md))"
  obtains f w where
    "land_chunk L md (next_chunk md) (md_chunk md xs (unat (next_chunk md)))
       = Some (Inr (md\<lparr>md_file := f, md_writer := w\<rparr>))"
    "md_inv L (md\<lparr>md_file := f, md_writer := w\<rparr>) xs m ps" "n < m" "same_pool (md_writer md) w"
proof -
  let ?c = "unat (md_chunk_size md)" and ?i = "n div unat (md_chunk_size md)"
  note facts = md_inv_facts [OF inv]
  note next_i = next_chunk_inv [OF inv n]
  have range: "chunk_range md (next_chunk md) = Inr (?i * ?c, m)"
    using chunk_range_inv [OF inv, of "next_chunk md"] next_i by (simp add: m_def)
  have start: "?i * ?c \<le> n" by simp
  have m: "n < m" "m \<le> length xs" using n next_multiple [OF facts(2), of n] by (simp_all add: m_def)
  have len: "length (window ?c xs ?i) = m - ?i * ?c"
    by (auto simp: length_window m_def min_def)
  have win: "window ?c xs ?i = cut_out xs (?i * ?c) m"
    by (auto simp: window_def cut_out_def m_def min_def)
  have rest: "get_from (window ?c xs ?i) (n - ?i * ?c) = Some (cut_out xs n m)"
    using start m len by (simp add: get_from_def win cut_out_def drop_take)
  have w: "writer_inv L (md_file md) (md_writer md) (take n xs)" "\<not> pw_holds_final_segment (md_writer md)"
    using inv n by (auto simp: md_inv_def)
  from writer_write_inv [OF w, of "cut_out xs n m"]
  obtain f' w' where wr: "writer_write L (md_file md) (md_writer md) (cut_out xs n m) = Some (Inr (f', w'))"
    and inv': "writer_inv L f' w' (take n xs @ cut_out xs n m)" and same: "same_pool (md_writer md) w'" .
  have glue: "take n xs @ cut_out xs n m = take m xs" using m by (simp add: cut_out_def take_drop_glue)
  have "land_chunk L md (next_chunk md) (window ?c xs (unat (next_chunk md)))
      = Some (Inr (md\<lparr>md_file := f', md_writer := w'\<rparr>))"
    using start m len rest wr by (simp add: land_chunk_def range next_i(1) facts(1) Let_def not_less)
  moreover have "md_inv L (md\<lparr>md_file := f', md_writer := w'\<rparr>) xs m ps"
    using inv inv' glue m w(2) same by (auto simp: md_inv_def same_pool_def split: option.splits)
  ultimately show ?thesis using m(1) same by (rule that)
qed

lemma land_other_refused:
  assumes inv: "md_inv L md xs n ps" and "n = length xs \<or> i \<noteq> next_chunk md"
  shows "\<exists>e. land_chunk L md i plain = Some (Inl e)"
proof (cases "unat i < unat (md_chunk_count md)")
  case False
  then show ?thesis using chunk_range_inv [OF inv, of i] by (simp add: land_chunk_def)
next
  case True
  let ?c = "unat (md_chunk_size md)"
  let ?fin = "min (length xs) ((unat i + 1) * ?c)"
  note facts = md_inv_facts [OF inv]
  have range: "chunk_range md i = Inr (unat i * ?c, ?fin)" using chunk_range_inv [OF inv] True by simp
  have "n < unat i * ?c \<or> n \<ge> ?fin"
  proof (rule ccontr)
    assume "\<not> ?thesis"
    then have bounds: "unat i * ?c \<le> n" "n < (unat i + 1) * ?c" "n < length xs" by auto
    then have "n div ?c = unat i" by (intro div_nat_eqI) (simp_all add: mult.commute)
    then have "next_chunk md = i" using next_chunk_inv(1) [OF inv bounds(3)] by (simp add: word_unat_eq_iff)
    with assms(2) bounds(3) show False by simp
  qed
  then show ?thesis by (auto simp: land_chunk_def range facts(1) Let_def)
qed

text \<open>
  The main file grows by exactly the next chunk: while the download is not complete,
  \<open>land_chunk\<close> accepts the true chunk number \<open>next_chunk\<close> (returning, and dropping the part that was
  already there when the main file stopped in the middle of a chunk) and refuses every other chunk
  number, whatever its bytes; the new main file is the plaintext up to the end of that chunk.
\<close>

lemma land_chunk_in_order:
  assumes "md_inv L md xs n ps"
  shows "if is_written md then \<forall>i plain. \<exists>e. land_chunk L md i plain = Some (Inl e)
     else (\<forall>i plain. i \<noteq> next_chunk md \<longrightarrow> (\<exists>e. land_chunk L md i plain = Some (Inl e)))
       \<and> (\<exists>md'. land_chunk L md (next_chunk md) (md_chunk md xs (unat (next_chunk md))) = Some (Inr md')
            \<and> md_inv L md' xs (min (length xs) ((unat (next_chunk md) + 1) * unat (md_chunk_size md))) ps
            \<and> (is_written md' \<or> next_chunk md' = next_chunk md + 1))"
proof (cases "n = length xs")
  case True
  then show ?thesis using land_other_refused [OF assms] by (simp add: is_written_iff [OF assms])
next
  case False
  then have n: "n < length xs" using md_inv_facts(5) [OF assms] by simp
  let ?c = "unat (md_chunk_size md)"
  let ?m = "min (length xs) ((n div ?c + 1) * ?c)"
  note next_i = next_chunk_inv [OF assms n]
  obtain f w where land: "land_chunk L md (next_chunk md) (md_chunk md xs (unat (next_chunk md)))
       = Some (Inr (md\<lparr>md_file := f, md_writer := w\<rparr>))"
    "md_inv L (md\<lparr>md_file := f, md_writer := w\<rparr>) xs ?m ps"
    using land_next [OF assms n] by metis
  let ?md = "md\<lparr>md_file := f, md_writer := w\<rparr>"
  have "is_written ?md \<or> next_chunk ?md = next_chunk md + 1"
  proof (cases "?m = length xs")
    case True
    then show ?thesis using is_written_iff [OF land(2)] by simp
  next
    case False
    then have m: "?m = (n div ?c + 1) * ?c" "?m < length xs" by linarith+
    have "unat (next_chunk ?md) = ?m div ?c" using next_chunk_inv(1) [OF land(2) m(2)] by simp
    also have "\<dots> = n div ?c + 1" unfolding m(1) using md_inv_facts(2) [OF assms] by simp
    finally have "unat (next_chunk ?md) = unat (next_chunk md) + 1" by (simp add: next_i(1))
    moreover have "unat (next_chunk md) + 1 < 2 ^ 32" using next_i(2) md_inv_facts(4) [OF assms] by simp
    ultimately have "next_chunk ?md = next_chunk md + 1"
      by (simp add: word_unat_eq_iff unat_word_ariths)
    then show ?thesis ..
  qed
  moreover have "\<not> is_written md" using False is_written_iff [OF assms] by simp
  ultimately show ?thesis
    using land land_other_refused [OF assms] next_i(1) by (simp add: exI [of _ ?md])
qed

section \<open>The seek file and local reads\<close>

lemma md_seek_read:
  assumes inv: "md_inv L md xs n ps" and seek: "md_seek md = Some (sf, st)"
  shows "read_chunk_of L sf st i = (st, map_of ps i)"
proof -
  have "seek_inv L sf st ps" using inv seek by (simp add: md_inv_def)
  then have "read_chunk_of L (seek_file L st ps @ []) st i = (st, map_of ps i)"
    by (intro read_chunk_map(2)) (simp_all add: seek_inv_def)
  with \<open>seek_inv L sf st ps\<close> show ?thesis by (simp add: seek_inv_def)
qed

lemma md_seek_content:
  assumes inv: "md_inv L md xs n ps" and "map_of ps i = Some d"
  shows "d = md_chunk md xs (unat i)"
  using assms map_of_SomeD [of ps i d] by (auto simp: md_inv_def)

lemma md_no_seek: "md_inv L md xs n ps \<Longrightarrow> md_seek md = None \<Longrightarrow> ps = []"
  by (simp add: md_inv_def)

lemma md_same_seek: "md_seek md = Some fs \<Longrightarrow> md\<lparr>md_seek := Some fs\<rparr> = md"
  by simp

lemma sealed_within:
  assumes "md_inv L md xs n ps"
  shows "sealed_plain_len (md_writer md) \<le> n"
  using assms by (auto simp: md_inv_def writer_inv_def writer_holds_def sealed_plain_len_def)

lemma read_local_inv:
  assumes inv: "md_inv L md xs n ps"
  shows "read_local_chunk L md i =
     (if unat i < unat (md_chunk_count md) then
        Some (Inr (if min (length xs) ((unat i + 1) * unat (md_chunk_size md)) \<le> sealed_plain_len (md_writer md)
                      \<or> i \<in> fst ` set ps
                   then Some (md_chunk md xs (unat i)) else None), md)
      else Some (Inl Integrity, md))"
proof (cases "unat i < unat (md_chunk_count md)")
  case False
  then show ?thesis using chunk_range_inv [OF inv, of i] by (simp add: read_local_chunk_def)
next
  case True
  let ?c = "unat (md_chunk_size md)"
  let ?start = "unat i * ?c" and ?fin = "min (length xs) ((unat i + 1) * ?c)"
  have range: "chunk_range md i = Inr (?start, ?fin)" using chunk_range_inv [OF inv] True by simp
  have below: "?start < length xs" using True md_inv_facts(2,3) [OF inv] by (simp add: ceil_div_less_iff)
  show ?thesis
  proof (cases "?fin \<le> sealed_plain_len (md_writer md)")
    case sealed: True
    have w: "writer_inv L (md_file md) (md_writer md) (take n xs)" using inv by (simp add: md_inv_def)
    have "?start \<le> ?fin" using below by simp
    then have "read_sealed L (md_file md) (md_writer md) ?start ?fin = Some (Inr (cut_out (take n xs) ?start ?fin))"
      using read_sealed_inv [OF w sealed] by blast
    moreover have "cut_out (take n xs) ?start ?fin = window ?c xs (unat i)"
    proof -
      have "?fin \<le> n" using sealed sealed_within [OF inv] by linarith
      then have "cut_out (take n xs) ?start ?fin = cut_out xs ?start ?fin"
        by (simp add: cut_out_def drop_take min_def del: mult_Suc)
      also have "\<dots> = window ?c xs (unat i)" by (auto simp: window_def cut_out_def min_def)
      finally show ?thesis .
    qed
    ultimately show ?thesis using sealed True by (simp add: read_local_chunk_def range)
  next
    case False
    show ?thesis
    proof (cases "md_seek md")
      case None
      then show ?thesis using False True md_no_seek [OF inv] by (simp add: read_local_chunk_def range)
    next
      case (Some fs)
      obtain sf st where fs: "fs = (sf, st)" by (cases fs)
      have "(if i \<in> fst ` set ps then Some (window ?c xs (unat i)) else None) = map_of ps i"
      proof (cases "map_of ps i")
        case None
        then have "i \<notin> fst ` set ps" by (simp add: map_of_eq_None_iff)
        then show ?thesis using None by simp
      next
        case (Some d)
        then have "(i, d) \<in> set ps" by (rule map_of_SomeD)
        then have "i \<in> fst ` set ps" by force
        then show ?thesis using Some md_seek_content [OF inv Some] by simp
      qed
      then show ?thesis
        using False True Some md_seek_read [OF inv, of sf st i] by (simp add: read_local_chunk_def range fs)
    qed
  qed
qed

text \<open>
  A local read is exact: for every chunk of the file, \<open>read_local_chunk\<close> returns, leaves the
  download as it was, and gives the chunk of the plaintext when the main file's complete segments
  cover it or it was stored in the seek file, and nothing otherwise (then it has to be fetched);
  other chunk numbers are refused.
\<close>

lemma read_local_chunk_exact:
  assumes "md_inv L md xs n ps"
  shows "read_local_chunk L md i =
     (if unat i < unat (md_chunk_count md) then
        Some (Inr (if min (length xs) ((unat i + 1) * unat (md_chunk_size md)) \<le> sealed_plain_len (md_writer md)
                      \<or> i \<in> fst ` set ps
                   then Some (md_chunk md xs (unat i)) else None), md)
      else Some (Inl Integrity, md))"
  using assms by (rule read_local_inv)

text \<open>
  Chunks fetched out of order are used: when the next chunk of the main file is in the seek
  file, \<open>advance_from_seek_store\<close> moves it over without the network and the main file is the
  plaintext up to its end; when it is not, nothing changes.
\<close>

lemma advance_uses_stored_chunk:
  assumes "md_inv L md xs n ps" and "n < length xs"
  shows "if next_chunk md \<in> fst ` set ps
     then \<exists>md'. advance_from_seek_store L md = Some (Inr True, md')
          \<and> md_inv L md' xs (min (length xs) ((n div unat (md_chunk_size md) + 1) * unat (md_chunk_size md))) ps
     else advance_from_seek_store L md = Some (Inr False, md)"
proof (cases "md_seek md")
  case None
  then show ?thesis using md_no_seek [OF assms(1)] by (simp add: advance_from_seek_store_def)
next
  case (Some fs)
  obtain sf st where fs: "fs = (sf, st)" by (cases fs)
  have same: "md\<lparr>md_seek := Some (sf, st)\<rparr> = md" using Some fs by simp
  note seek = md_seek_read [OF assms(1) Some [unfolded fs], of "next_chunk md"]
  show ?thesis
  proof (cases "next_chunk md \<in> fst ` set ps")
    case True
    then obtain d where d: "map_of ps (next_chunk md) = Some d"
      by (cases "map_of ps (next_chunk md)") (auto simp: map_of_eq_None_iff)
    then have "d = md_chunk md xs (unat (next_chunk md))" using md_seek_content [OF assms(1)] by blast
    moreover obtain f w where land: "land_chunk L md (next_chunk md) (md_chunk md xs (unat (next_chunk md)))
        = Some (Inr (md\<lparr>md_file := f, md_writer := w\<rparr>))"
      "md_inv L (md\<lparr>md_file := f, md_writer := w\<rparr>) xs
         (min (length xs) ((n div unat (md_chunk_size md) + 1) * unat (md_chunk_size md))) ps"
      using land_next [OF assms] by metis
    moreover have "advance_from_seek_store L md = map_option
         (\<lambda>r. case r of Inl e \<Rightarrow> (Inl e, md) | Inr md2 \<Rightarrow> (Inr True, md2)) (land_chunk L md (next_chunk md) d)"
      using seek d by (simp add: advance_from_seek_store_def Some fs same)
    ultimately show ?thesis
      using True by (simp add: exI [of _ "md\<lparr>md_file := f, md_writer := w\<rparr>"])
  next
    case False
    then have "map_of ps (next_chunk md) = None" by (simp add: map_of_eq_None_iff)
    with False Some fs seek same show ?thesis by (simp add: advance_from_seek_store_def Let_def)
  qed
qed

lemma store_seek_inv:
  assumes inv: "md_inv L md xs n ps" and i: "unat i < unat (md_chunk_count md)"
    and room: "unat (md_chunk_count md) \<le> MAX_SEEK_CHUNKS"
    and dir: "pd_seek d (md_pending_name md) = None" and draw: "draw = Inr nb" "length nb = SEEK_NONCE_BASE_LEN"
  obtains md' where "store_seek_chunk L key d draw md i (md_chunk md xs (unat i)) Wrote_All = (Inr (), md')"
    "md_inv L md' xs n (first_wins ps i (md_chunk md xs (unat i)))" "md_writer md' = md_writer md"
proof -
  let ?d = "md_chunk md xs (unat i)" and ?cs = "md_chunk_size md" and ?count = "md_chunk_count md"
  let ?open = "case md_seek md of Some fs \<Rightarrow> Inr fs
     | None \<Rightarrow> seek_open L key (pd_seek d (md_pending_name md)) draw (as_bytes (mf_mxc (md_manifest md))) ?cs ?count"
  note facts = md_inv_facts [OF inv]
  have L: "pool_lib_ok L" using inv by (auto simp: md_inv_def writer_inv_def writer_holds_def)
  obtain sf st where opened: "?open = Inr (sf, st)" and seek: "seek_inv L sf st ps"
    "length (ss_slots st) = unat ?count" "ss_chunk_size st = ?cs"
  proof (cases "md_seek md")
    case (Some fs)
    then show ?thesis using inv that [of "fst fs" "snd fs"] by (auto simp: md_inv_def)
  next
    case None
    let ?st = "\<lparr>ss_key = key, ss_nonce_base = nb, ss_chunk_size = ?cs, ss_mxc = as_bytes (mf_mxc (md_manifest md)),
       ss_slots = replicate (unat ?count) 0, ss_cells = 0\<rparr>"
    have "?cs \<noteq> 0" "?count \<noteq> 0" using facts(2) i by auto
    then have "?open = Inr (seek_encode_header ?cs ?count nb, ?st)"
      using None dir draw room by (simp add: seek_open_def)
    moreover have "seek_inv L (seek_encode_header ?cs ?count nb) ?st ps"
      using L \<open>?cs \<noteq> 0\<close> draw(2) room md_no_seek [OF inv None]
      by (simp add: seek_inv_def wf_seek_def valid_chunks_def seek_file_def cells_body_def slot_table_def)
    ultimately show ?thesis by (rule that) simp_all
  qed
  have "unat i * unat ?cs < length xs" using i facts(2,3) by (simp add: ceil_div_less_iff)
  then have valid: "valid_plain st ?d" using facts(2) by (simp add: seek(3) window_nonempty window_bound)
  obtain sf' st' where app: "append_chunk L sf st i ?d Wrote_All = (Inr (), sf', st')"
    "seek_inv L sf' st' (first_wins ps i ?d)" "length (ss_slots st') = length (ss_slots st)"
    "ss_chunk_size st' = ss_chunk_size st"
    using append_chunk_ok [OF seek(1) _ valid] i seek(2) by metis
  let ?md = "md\<lparr>md_seek := Some (sf', st')\<rparr>"
  have "store_seek_chunk L key d draw md i ?d Wrote_All = (Inr (), ?md)"
    using opened app(1) by (simp add: store_seek_chunk_def)
  moreover have "md_inv L ?md xs n (first_wins ps i ?d)"
    using inv app(2-4) seek(2,3) by (auto simp: md_inv_def first_wins_def)
  ultimately show ?thesis by (rule that) simp
qed

section \<open>From a crash to the stored file\<close>

text \<open>What no operation of a download changes.\<close>

definition same_download :: "media_download \<Rightarrow> media_download \<Rightarrow> bool" where
  "same_download md md' \<longleftrightarrow>
     md_manifest md' = md_manifest md \<and> md_pending_name md' = md_pending_name md
     \<and> md_file_size md' = md_file_size md \<and> md_chunk_size md' = md_chunk_size md
     \<and> md_chunk_count md' = md_chunk_count md \<and> same_pool (md_writer md) (md_writer md')"

lemma same_download_refl [simp]: "same_download md md"
  by (simp add: same_download_def)

lemma same_download_trans: "same_download a b \<Longrightarrow> same_download b c \<Longrightarrow> same_download a c"
  by (auto simp: same_download_def intro: same_pool_trans)

text \<open>
  The rest of a download: the next chunk comes from the seek file when it is there and is fetched
  otherwise.
\<close>

primrec complete_main ::
    "pool_lib \<Rightarrow> (u32 \<Rightarrow> bytes) \<Rightarrow> nat \<Rightarrow> media_download \<Rightarrow> (sdk_error + media_download) option" where
  "complete_main L fetch 0 md = Some (Inr md)"
| "complete_main L fetch (Suc k) md =
     (if is_written md then Some (Inr md)
      else case advance_from_seek_store L md of
        None \<Rightarrow> None
      | Some (Inl e, _) \<Rightarrow> Some (Inl e)
      | Some (Inr True, md') \<Rightarrow> complete_main L fetch k md'
      | Some (Inr False, md') \<Rightarrow>
          (case land_chunk L md' (next_chunk md') (fetch (next_chunk md')) of
             None \<Rightarrow> None
           | Some (Inl e) \<Rightarrow> Some (Inl e)
           | Some (Inr md'') \<Rightarrow> complete_main L fetch k md''))"

lemma advance_cases:
  assumes inv: "md_inv L md xs n ps"
  shows "advance_from_seek_store L md = Some (Inr False, md)
     \<or> advance_from_seek_store L md = map_option
         (\<lambda>r. case r of Inl e \<Rightarrow> (Inl e, md) | Inr md2 \<Rightarrow> (Inr True, md2))
         (land_chunk L md (next_chunk md) (md_chunk md xs (unat (next_chunk md))))"
proof (cases "md_seek md")
  case None
  then show ?thesis by (simp add: advance_from_seek_store_def)
next
  case (Some fs)
  obtain sf st where fs: "fs = (sf, st)" by (cases fs)
  have same: "md\<lparr>md_seek := Some (sf, st)\<rparr> = md" using Some fs by simp
  note seek = md_seek_read [OF inv Some [unfolded fs], of "next_chunk md"]
  show ?thesis
  proof (cases "map_of ps (next_chunk md)")
    case None
    then show ?thesis using seek by (simp add: advance_from_seek_store_def Some fs same)
  next
    case (Some d)
    then have "d = md_chunk md xs (unat (next_chunk md))" using md_seek_content [OF inv] by blast
    with Some seek \<open>md_seek md = Some fs\<close> show ?thesis by (simp add: advance_from_seek_store_def fs same Let_def)
  qed
qed

lemma complete_main_inv:
  assumes "md_inv L md xs n ps" and "n = length xs \<or> length xs \<le> (n div unat (md_chunk_size md) + k) * unat (md_chunk_size md)"
    and "\<forall>i. unat i < unat (md_chunk_count md) \<longrightarrow> fetch i = md_chunk md xs (unat i)"
  shows "\<exists>md'. complete_main L fetch k md = Some (Inr md') \<and> md_inv L md' xs (length xs) ps \<and> same_download md md'"
  using assms
proof (induction k arbitrary: md n)
  case 0
  have "n div unat (md_chunk_size md) * unat (md_chunk_size md) \<le> n" by simp
  then have "n = length xs" using 0(2) md_inv_facts(5) [OF 0(1)] unfolding add_0_right by linarith
  with 0(1) show ?case by simp
next
  case (Suc k)
  show ?case
  proof (cases "n = length xs")
    case True
    then show ?thesis using Suc.prems(1) is_written_iff [OF Suc.prems(1)] by auto
  next
    case False
    then have n: "n < length xs" using md_inv_facts(5) [OF Suc.prems(1)] by simp
    let ?c = "unat (md_chunk_size md)" and ?i = "next_chunk md"
    let ?m = "min (length xs) ((n div ?c + 1) * ?c)"
    note c = md_inv_facts(2) [OF Suc.prems(1)]
    obtain f w where land: "land_chunk L md ?i (md_chunk md xs (unat ?i)) = Some (Inr (md\<lparr>md_file := f, md_writer := w\<rparr>))"
      "md_inv L (md\<lparr>md_file := f, md_writer := w\<rparr>) xs ?m ps" "same_pool (md_writer md) w"
      using land_next [OF Suc.prems(1) n] by metis
    let ?md = "md\<lparr>md_file := f, md_writer := w\<rparr>"
    have fetched: "fetch ?i = md_chunk md xs (unat ?i)"
      using Suc.prems(3) next_chunk_inv(2) [OF Suc.prems(1) n] by blast
    have step: "complete_main L fetch (Suc k) md = complete_main L fetch k ?md"
      using advance_cases [OF Suc.prems(1)] land(1) fetched is_written_iff [OF Suc.prems(1)] False by auto
    have fuel: "?m = length xs \<or> length xs \<le> (?m div ?c + k) * ?c"
    proof (cases "length xs \<le> (n div ?c + 1) * ?c")
      case False
      then have "?m = (n div ?c + 1) * ?c" by linarith
      then have "?m div ?c = n div ?c + 1" using c by simp
      then show ?thesis using Suc.prems(2) n by simp
    qed simp
    from Suc.IH [of ?md ?m] land(2) fuel Suc.prems(3)
    obtain md' where "complete_main L fetch k ?md = Some (Inr md')" "md_inv L md' xs (length xs) ps"
      "same_download ?md md'" by auto
    moreover have "same_download md ?md" using land(3) by (simp add: same_download_def)
    ultimately show ?thesis using step same_download_trans by metis
  qed
qed

text \<open>What an earlier run may have left of the seek file: nothing, or a seek file of chunks of \<open>xs\<close>.\<close>

definition seek_left :: "pool_lib \<Rightarrow> bytes \<Rightarrow> pool_dir \<Rightarrow> string \<Rightarrow> manifest \<Rightarrow> u32 \<Rightarrow> bytes \<Rightarrow> (u32 \<times> bytes) list \<Rightarrow> bool" where
  "seek_left L key d name m count xs ps \<longleftrightarrow>
     (case pd_seek d name of
        None \<Rightarrow> ps = []
      | Some sf \<Rightarrow> \<exists>st. seek_inv L sf st ps \<and> ss_key st = key \<and> ss_mxc st = as_bytes (mf_mxc m)
          \<and> ss_chunk_size st = cb_chunk_size (mf_block m) \<and> length (ss_slots st) = unat count
          \<and> (\<forall>p\<in>set ps. snd p = window (unat (cb_chunk_size (mf_block m))) xs (unat (fst p))))"

lemma seek_left_opens:
  assumes left: "seek_left L key d name m count xs ps" and s: "pd_seek d name = Some sf"
    and c: "cb_chunk_size (mf_block m) \<noteq> 0" "count \<noteq> 0"
  obtains st where "seek_open L key (Some sf) draw (as_bytes (mf_mxc m)) (cb_chunk_size (mf_block m)) count = Inr (sf, st)"
    "seek_inv L sf st ps" "length (ss_slots st) = unat count" "ss_chunk_size st = cb_chunk_size (mf_block m)"
    "\<forall>p\<in>set ps. snd p = window (unat (cb_chunk_size (mf_block m))) xs (unat (fst p))"
proof -
  from left s obtain st where inv: "seek_inv L sf st ps" and st: "ss_key st = key" "ss_mxc st = as_bytes (mf_mxc m)"
    "ss_chunk_size st = cb_chunk_size (mf_block m)" "length (ss_slots st) = unat count"
    and ps: "\<forall>p\<in>set ps. snd p = window (unat (cb_chunk_size (mf_block m))) xs (unat (fst p))"
    by (auto simp: seek_left_def)
  have "0 < unat count" using c(2) by (simp add: unat_gt_0)
  then have "ss_slots st \<noteq> []" using st(4) by auto
  moreover have "0 < cell_len st" by (rule cell_len_pos)
  ultimately have "reopen L key sf (as_bytes (mf_mxc m)) (cb_chunk_size (mf_block m)) count
      = Inr (Some (st\<lparr>ss_cells := length ps\<rparr>))"
    using reopen_written [OF inv, of "[]"] st by simp
  moreover have "st\<lparr>ss_cells := length ps\<rparr> = st" using inv by (simp add: seek_inv_def)
  moreover have "unat count \<le> MAX_SEEK_CHUNKS" using inv st(4) by (simp add: seek_inv_def wf_seek_def)
  ultimately have "seek_open L key (Some sf) draw (as_bytes (mf_mxc m)) (cb_chunk_size (mf_block m)) count = Inr (sf, st)"
    using c by (simp add: seek_open_def)
  from that [OF this inv st(4,3) ps] show ?thesis .
qed

text \<open>What a crash left of the pending file: nothing, or complete segments and a broken tail.\<close>

definition main_left :: "pool_lib \<Rightarrow> bytes \<Rightarrow> pool_dir \<Rightarrow> string \<Rightarrow> bytes \<Rightarrow> bytes \<Rightarrow> bytes \<Rightarrow> nat \<Rightarrow> bool" where
  "main_left L key d name mxc nb xs n \<longleftrightarrow>
     n * seg_size (pool_header L nb mxc) \<le> length xs
     \<and> (case pd_pending d name of
          None \<Rightarrow> n = 0
        | Some f \<Rightarrow> \<exists>g. f = partial_file L key (pool_header L nb mxc) xs n @ g
            \<and> broken_tail L key (pool_header L nb mxc) xs n g)"

lemma main_left_opens:
  assumes L: "pool_lib_ok L" and nb: "length nb = POOL_NONCE_BASE_LEN" and left: "main_left L key d name mxc nb xs n"
  defines "h \<equiv> pool_header L nb mxc"
  shows "(case resume_pending L key (pd_pending d name) name mxc of
            Inr (f, w) \<Rightarrow> if pw_plain_len w \<le> length xs then Inr (f, w) else create_pending L key (Inr nb) name mxc
          | Inl _ \<Rightarrow> create_pending L key (Inr nb) name mxc)
       = Inr (partial_file L key h xs n, writer_at key h name xs n)"
proof (cases "pd_pending d name")
  case None
  then have "n = 0" using left by (simp add: main_left_def)
  then show ?thesis using None
    by (simp add: resume_pending_def create_pending_def h_def writer_at_0 pool_header_def Let_def)
next
  case (Some f)
  then obtain g where f: "f = partial_file L key h xs n @ g" "broken_tail L key h xs n g" and n: "n * seg_size h \<le> length xs"
    using left by (auto simp: main_left_def h_def)
  from resume_broken [OF L nb meta_eq_to_obj_eq [OF h_def] n f(2), of name] show ?thesis
    using n by (simp add: Some f(1))
qed

lemma md_open_inv:
  assumes L: "pool_lib_ok L" and nb: "length nb = POOL_NONCE_BASE_LEN"
    and size: "unat (manifest_file_size m) = length xs" and xs: "xs \<noteq> []"
    and count: "chunk_count (manifest_file_size m) (cb_chunk_size (mf_block m)) = Some count"
    and main: "main_left L key d name (as_bytes (mf_mxc m)) nb xs n"
    and seek: "seek_left L key d name m count xs ps"
  obtains md where "md_open L key d name (Inr nb) draw m = Inr md"
    "md_inv L md xs (n * seg_size (pool_header L nb (as_bytes (mf_mxc m)))) ps"
    "md_writer md = writer_at key (pool_header L nb (as_bytes (mf_mxc m))) name xs n"
    "md_manifest md = m" "md_pending_name md = name" "md_chunk_count md = count"
    "md_chunk_size md = cb_chunk_size (mf_block m)"
proof -
  let ?h = "pool_header L nb (as_bytes (mf_mxc m))" and ?cs = "cb_chunk_size (mf_block m)"
  have n: "n * seg_size ?h \<le> length xs" using main by (simp add: main_left_def)
  have cs: "?cs \<noteq> 0" using count by (auto simp: chunk_count_def)
  have "unat count = ceil_div (length xs) (unat ?cs)" using count size by (simp add: chunk_count_Some)
  moreover have "0 < ceil_div (length xs) (unat ?cs)"
    using xs cs by (simp add: ceil_div_less_iff unat_gt_0)
  ultimately have count0: "count \<noteq> 0" by (auto simp: unat_gt_0)
  obtain sk where sk: "(case pd_seek d name of None \<Rightarrow> None
       | Some s \<Rightarrow> (case seek_open L key (Some s) draw (as_bytes (mf_mxc m)) ?cs count of
           Inr fs \<Rightarrow> Some fs | Inl _ \<Rightarrow> None)) = sk"
    "case sk of None \<Rightarrow> ps = [] | Some (sf, st) \<Rightarrow> seek_inv L sf st ps \<and> length (ss_slots st) = unat count
            \<and> ss_chunk_size st = ?cs"
    "\<forall>p\<in>set ps. snd p = window (unat ?cs) xs (unat (fst p))"
  proof (cases "pd_seek d name")
    case None
    then show ?thesis using seek that [of None] by (simp add: seek_left_def)
  next
    case (Some sf)
    from seek_left_opens [OF seek this cs count0, of draw] obtain st where
      "seek_open L key (Some sf) draw (as_bytes (mf_mxc m)) ?cs count = Inr (sf, st)"
      "seek_inv L sf st ps" "length (ss_slots st) = unat count" "ss_chunk_size st = ?cs"
      "\<forall>p\<in>set ps. snd p = window (unat ?cs) xs (unat (fst p))" by blast
    then show ?thesis using Some that [of "Some (sf, st)"] by simp
  qed
  let ?md = "\<lparr>md_manifest = m, md_pending_name = name, md_writer = writer_at key ?h name xs n,
      md_file = partial_file L key ?h xs n, md_seek = sk, md_target = None,
      md_file_size = manifest_file_size m, md_chunk_size = ?cs, md_chunk_count = count\<rparr>"
  have open_eq: "md_open L key d name (Inr nb) draw m = Inr ?md"
    using main_left_opens [OF L nb main, folded size] count count0 sk(1) by (simp add: md_open_def Let_def)
  have h: "wf_header ?h" using nb by (rule wf_pool_header)
  have inv: "md_inv L ?md xs (n * seg_size ?h) ps"
    using writer_at_inv [OF L h n, of key name] n size count sk(2,3)
    by (auto simp: md_inv_def split: option.splits)
  show ?thesis by (rule that [OF open_eq inv]) simp_all
qed

lemma md_finish_inv:
  assumes inv: "md_inv L md xs (length xs) ps" and xs: "xs \<noteq> []"
    and name: "path_of (fin_hash_hex (finished_of L (pw_header (md_writer md)) xs)) = Inr p"
    and new: "pd_complete d (fin_hash_hex (finished_of L (pw_header (md_writer md)) xs)) = None"
  obtains d' where
    "md_finish L key d md = (d', Inr (finished_of L (pw_header (md_writer md)) xs,
        verification_of_hex (cb_sha256 (mf_block (md_manifest md))) (to_hex L (h_sha256 L xs))))"
    "pd_complete d' = (pd_complete d)(fin_hash_hex (finished_of L (pw_header (md_writer md)) xs)
        \<mapsto> pool_file L (pw_key (md_writer md)) (pw_header (md_writer md)) xs)"
    "pd_pending d' (md_pending_name md) = None" "pd_seek d' (md_pending_name md) = None"
proof -
  have w: "writer_inv L (md_file md) (md_writer md) xs" using inv by (simp add: md_inv_def)
  have size: "length xs = unat (md_file_size md)" using inv by (simp add: md_inv_def)
  note fin = writer_finish_holds [OF w xs]
  let ?h = "pw_header (md_writer md)"
  let ?hex = "fin_hash_hex (finished_of L ?h xs)"
  have sha: "fin_sha256_hex (finished_of L ?h xs) = to_hex L (h_sha256 L xs)" by (simp add: finished_of_def)
  have closed: "open_read L key d0 ?hex = Inl Io" if "pd_complete d0 = pd_complete d" for d0
    using name new that by (simp add: open_read_def)
  show ?thesis
    by (rule that, simp add: md_finish_def Let_def md_inv_facts(1) [OF inv] size fin adopt_def name closed
         md_flush_def discard_seek_def sha) simp_all
qed


section \<open>The properties at concrete inputs\<close>

definition demo_plain :: bytes where
  "demo_plain = [10, 11, 12, 13, 14, 15]"

definition demo_media_header :: header where
  "demo_media_header = pool_header demo_pool (replicate 16 3) (as_bytes ''mxc://s/1'')"

definition demo_seek :: seek_store where
  "demo_seek = \<lparr>ss_key = [1], ss_nonce_base = replicate SEEK_NONCE_BASE_LEN 6, ss_chunk_size = 4,
     ss_mxc = as_bytes ''mxc://s/1'', ss_slots = [0, 1], ss_cells = 1\<rparr>"

definition demo_chunks :: "(u32 \<times> bytes) list" where
  "demo_chunks = [(1, [14, 15])]"

definition demo_md :: media_download where
  "demo_md = \<lparr>md_manifest = demo_manifest, md_pending_name = ''m1'',
     md_writer = writer_at [1] demo_media_header ''m1'' demo_plain 0,
     md_file = partial_file demo_pool [1] demo_media_header demo_plain 0,
     md_seek = Some (seek_file demo_pool demo_seek demo_chunks, demo_seek), md_target = None,
     md_file_size = 6, md_chunk_size = 4, md_chunk_count = 2\<rparr>"

lemma demo_seek_inv: "seek_inv demo_pool (seek_file demo_pool demo_seek demo_chunks) demo_seek demo_chunks"
proof -
  have "i < length [0, 1 :: nat] \<longleftrightarrow> i = 0 \<or> i = 1" for i :: nat by auto
  then have "slot_table demo_chunks [0, 1]" unfolding slot_table_def by (auto simp: demo_chunks_def)
  then show ?thesis
    by (simp add: seek_inv_def demo_pool_ok wf_seek_def demo_seek_def valid_chunks_def MAX_SEEK_CHUNKS_def)
       (simp add: demo_chunks_def)
qed

lemma demo_count: "chunk_count (manifest_file_size demo_manifest) (cb_chunk_size (mf_block demo_manifest)) = Some 2"
  "chunk_count 6 4 = Some 2"
  by (simp_all add: chunk_count_Some manifest_file_size_def demo_block_simps ceil_div_def)

lemma demo_md_inv: "md_inv demo_pool demo_md demo_plain 0 demo_chunks"
proof -
  have "wf_header demo_media_header" by (simp add: demo_media_header_def wf_pool_header POOL_NONCE_BASE_LEN_def)
  from writer_at_inv [OF demo_pool_ok this, of 0 demo_plain "[1]" "''m1''"]
  show ?thesis
    using demo_seek_inv
    by (simp add: md_inv_def demo_md_def demo_count) (simp add: demo_plain_def demo_seek_def demo_chunks_def window_def)
qed

theorem land_chunk_in_order_witness:
  "land_chunk demo_pool demo_md 1 [14, 15] \<noteq> None \<and> (\<exists>md'. land_chunk demo_pool demo_md 0 [10, 11, 12, 13] = Some (Inr md')
     \<and> md_inv demo_pool md' demo_plain 4 demo_chunks)"
proof -
  have demo: "next_chunk demo_md = 0" "\<not> is_written demo_md" "md_chunk_size demo_md = 4" "length demo_plain = 6"
    "window 4 demo_plain 0 = [10, 11, 12, 13]"
    by (simp_all add: next_chunk_def demo_md_def is_written_def u32_try_from_def demo_plain_def window_def)
  have "\<exists>e. land_chunk demo_pool demo_md 1 [14, 15] = Some (Inl e)"
    using land_chunk_in_order [OF demo_md_inv] demo(1,2) by (simp del: split_paired_Ex)
  moreover have "\<exists>md'. land_chunk demo_pool demo_md 0 [10, 11, 12, 13] = Some (Inr md')
     \<and> md_inv demo_pool md' demo_plain 4 demo_chunks"
    using land_chunk_in_order [OF demo_md_inv] unfolding demo if_False unat_0 by (auto simp: demo)
  ultimately show ?thesis by auto
qed

theorem read_local_chunk_exact_witness:
  "read_local_chunk demo_pool demo_md 0 = Some (Inr None, demo_md)
     \<and> read_local_chunk demo_pool demo_md 1 = Some (Inr (Some [14, 15]), demo_md)
     \<and> read_local_chunk demo_pool demo_md 2 = Some (Inl Integrity, demo_md)"
  unfolding read_local_chunk_exact [OF demo_md_inv]
  by (simp add: demo_md_def demo_plain_def demo_chunks_def sealed_plain_len_def window_def)

theorem advance_uses_stored_chunk_witness:
  "advance_from_seek_store demo_pool demo_md = Some (Inr False, demo_md)"
proof -
  have "next_chunk demo_md \<notin> fst ` set demo_chunks"
    by (simp add: next_chunk_def demo_md_def u32_try_from_def demo_chunks_def)
  then show ?thesis using advance_uses_stored_chunk [OF demo_md_inv] by (simp add: demo_plain_def)
qed

definition demo_crashed_dir :: pool_dir where
  "demo_crashed_dir = \<lparr>pd_complete = Map.empty,
     pd_pending = [''m1'' \<mapsto> partial_file demo_pool [1] demo_media_header demo_plain 0 @ [7, 7]],
     pd_seek = [''m1'' \<mapsto> seek_file demo_pool demo_seek demo_chunks], pd_open_readers = (\<lambda>_. 0)\<rparr>"


end
