(* ===== verification/Media_Cache.thy ===== *)
theory Media_Cache
  imports Download_Verify "HOL-Library.Char_ord" "HOL-Library.List_Lexorder" "HOL-Library.Product_Lexorder"
begin

text \<open>
  The \<open>media\<close> table of \<open>crates/wbf-sdk/src/cache.rs\<close>: one row per \<open>mxc\<close>, kept in the order of the
  row ids.  Each operation is the effect of its SQL statement on the rows, with the table's
  constraints and SQLite's arithmetic (64-bit signed columns, a sum that overflows is an error)
  written out.  Failures of the database file itself are not modelled.
\<close>

section \<open>Rows\<close>

type_synonym i64 = int

record media_entry =
  me_id :: i64
  me_mxc :: string
  me_pool_file :: "string option"
  me_name :: "string option"
  me_mimetype :: "string option"
  me_hash :: "string option"
  me_kind :: media_kind
  me_verified :: verification
  me_file_size :: "u64 option"
  me_chunk_size :: "u32 option"
  me_segments_written :: u64
  me_complete :: bool
  me_bytes_on_disk :: u64
  me_created_at :: i64
  me_last_used_at :: i64
  me_source_uri :: "string option"

record media_description =
  mdesc_kind :: media_kind
  mdesc_name :: "string option"
  mdesc_mimetype :: "string option"
  mdesc_hash :: "string option"
  mdesc_file_size :: "u64 option"
  mdesc_chunk_size :: "u32 option"

text \<open>A Matrix attachment; of its \<open>file\<close> object only \<open>hashes.sha256\<close> is read here.\<close>

record matrix_attachment =
  ma_mxc :: string
  ma_kind :: media_kind
  ma_name :: "string option"
  ma_mimetype :: "string option"
  ma_size :: "u64 option"
  ma_file_sha256 :: "string option"

type_synonym media_table = "media_entry list"

definition to_ascii_lowercase :: "string \<Rightarrow> string" where
  "to_ascii_lowercase s = map ascii_lower s"

definition block_hash :: "string option \<Rightarrow> string option" where
  "block_hash sha256_hex =
     (case sha256_hex of
        None \<Rightarrow> None
      | Some hex \<Rightarrow> if hex = [] then None else Some (''sha256:'' @ to_ascii_lowercase hex))"

definition of_chunked_block :: "chunked_block \<Rightarrow> media_description option" where
  "of_chunked_block b =
     (case cb_file_size b of
        None \<Rightarrow> None
      | Some file_size \<Rightarrow> Some
          \<lparr>mdesc_kind = WbfChunked, mdesc_name = cb_name b, mdesc_mimetype = cb_mimetype b,
           mdesc_hash = block_hash (cb_sha256 b), mdesc_file_size = Some file_size,
           mdesc_chunk_size = Some (cb_chunk_size b)\<rparr>)"

definition of_matrix_attachment :: "matrix_attachment \<Rightarrow> media_description" where
  "of_matrix_attachment a =
     \<lparr>mdesc_kind = ma_kind a, mdesc_name = ma_name a, mdesc_mimetype = ma_mimetype a,
      mdesc_hash = (case ma_file_sha256 a of
                      None \<Rightarrow> None
                    | Some hash \<Rightarrow> if hash = [] then None else Some (''matrix-sha256:'' @ hash)),
      mdesc_file_size = ma_size a, mdesc_chunk_size = None\<rparr>"

section \<open>Constraints\<close>

definition row_checks :: "media_entry \<Rightarrow> bool" where
  "row_checks e \<longleftrightarrow>
     (me_kind e = WbfChunked \<longrightarrow> me_file_size e \<noteq> None \<and> me_chunk_size e \<noteq> None)
     \<and> (me_verified e \<noteq> Unknown \<longrightarrow> me_complete e)"

section \<open>Operations\<close>

definition find_media :: "media_table \<Rightarrow> string \<Rightarrow> media_entry option" where
  "find_media t mxc = find (\<lambda>e. me_mxc e = mxc) t"

definition update_row :: "media_table \<Rightarrow> string \<Rightarrow> (media_entry \<Rightarrow> media_entry) \<Rightarrow> media_table" where
  "update_row t mxc f = map (\<lambda>e. if me_mxc e = mxc then f e else e) t"

text \<open>A fresh row id: one more than the largest in use.\<close>

definition next_row_id :: "media_table \<Rightarrow> i64" where
  "next_row_id t = foldr (\<lambda>e m. max (me_id e) m) t 0 + 1"

text \<open>\<open>INSERT OR IGNORE\<close> (a row that breaks a constraint is not inserted), then the hash, then the id.\<close>

definition media_row_id ::
    "media_table \<Rightarrow> i64 \<Rightarrow> string \<Rightarrow> media_description \<Rightarrow> sdk_error + media_table \<times> i64" where
  "media_row_id t now mxc d =
     (let row = \<lparr>me_id = next_row_id t, me_mxc = mxc, me_pool_file = None, me_name = mdesc_name d,
                 me_mimetype = mdesc_mimetype d, me_hash = mdesc_hash d, me_kind = mdesc_kind d,
                 me_verified = Unknown, me_file_size = mdesc_file_size d, me_chunk_size = mdesc_chunk_size d,
                 me_segments_written = 0, me_complete = False, me_bytes_on_disk = 0,
                 me_created_at = now, me_last_used_at = now, me_source_uri = None\<rparr>;
          t1 = (if find_media t mxc = None \<and> row_checks row then t @ [row] else t);
          t2 = (case mdesc_hash d of
                  None \<Rightarrow> t1
                | Some hash \<Rightarrow> update_row t1 mxc (\<lambda>e. if me_hash e = None then e\<lparr>me_hash := Some hash\<rparr> else e))
      in case find_media t2 mxc of
           None \<Rightarrow> Inl Io
         | Some e \<Rightarrow> Inr (t2, me_id e))"

text \<open>An error rolls the transaction back: the table is unchanged.\<close>

definition media_begin ::
    "media_table \<Rightarrow> i64 \<Rightarrow> string \<Rightarrow> media_description \<Rightarrow> sdk_error + media_table \<times> media_entry" where
  "media_begin t now mxc d =
     rbind (media_row_id t now mxc d) (\<lambda>(t1, _).
     rbind (ok_or Io (find_media t1 mxc)) (\<lambda>e. Inr (t1, e)))"

definition media_remember_source ::
    "media_table \<Rightarrow> i64 \<Rightarrow> manifest \<Rightarrow> string \<Rightarrow> sdk_error + media_table" where
  "media_remember_source t now m source_uri =
     rbind (ok_or Usage (of_chunked_block (mf_block m))) (\<lambda>d.
     rbind (media_row_id t now (mf_mxc m) d) (\<lambda>(t1, _).
     Inr (update_row t1 (mf_mxc m) (\<lambda>e. e\<lparr>me_source_uri := Some source_uri\<rparr>))))"

text \<open>Decimal numerals, as \<open>format!("{}")\<close> writes them and \<open>parse::<i64>\<close> reads them.\<close>

fun show_nat :: "nat \<Rightarrow> string" where
  "show_nat n = (if n < 10 then [char_of (48 + n)] else show_nat (n div 10) @ [char_of (48 + n mod 10)])"

declare show_nat.simps [simp del]

definition show_int :: "int \<Rightarrow> string" where
  "show_int i = (if i < 0 then CHR ''-'' # show_nat (nat (- i)) else show_nat (nat i))"

definition is_ascii_digit :: "char \<Rightarrow> bool" where
  "is_ascii_digit c \<longleftrightarrow> 48 \<le> (of_char c :: nat) \<and> (of_char c :: nat) \<le> 57"

definition digits_value :: "string \<Rightarrow> nat" where
  "digits_value s = foldl (\<lambda>v c. 10 * v + (of_char c - 48)) 0 s"

definition parse_i64_digits :: "string \<Rightarrow> i64 option" where
  "parse_i64_digits s = (if digits_value s < 2 ^ 63 then Some (int (digits_value s)) else None)"

definition pending_name_of :: "i64 \<Rightarrow> string" where
  "pending_name_of i = ''m'' @ show_int i"

definition media_pending_name :: "media_table \<Rightarrow> string \<Rightarrow> string option" where
  "media_pending_name t mxc = map_option (\<lambda>e. pending_name_of (me_id e)) (find_media t mxc)"

definition find_media_by_pending_name :: "media_table \<Rightarrow> string \<Rightarrow> media_entry option" where
  "find_media_by_pending_name t name =
     (case name of
        [] \<Rightarrow> None
      | c # digits \<Rightarrow>
          if c = CHR ''m'' \<and> digits \<noteq> [] \<and> list_all is_ascii_digit digits then
            (case parse_i64_digits digits of
               None \<Rightarrow> None
             | Some i \<Rightarrow> find (\<lambda>e. me_id e = i) t)
          else None)"

definition media_progress :: "media_table \<Rightarrow> string \<Rightarrow> u64 \<Rightarrow> u32 \<Rightarrow> media_table" where
  "media_progress t mxc segments chunk_size =
     update_row t mxc (\<lambda>e. e\<lparr>me_segments_written := segments, me_chunk_size := Some chunk_size,
       me_complete := False, me_verified := Unknown\<rparr>)"

definition media_finish ::
    "media_table \<Rightarrow> i64 \<Rightarrow> string \<Rightarrow> string \<Rightarrow> u64 \<Rightarrow> u64 \<Rightarrow> u64 \<Rightarrow> verification \<Rightarrow> media_table" where
  "media_finish t now mxc pool_name segments file_size bytes verified =
     update_row t mxc (\<lambda>e. e\<lparr>me_pool_file := Some pool_name, me_complete := True,
       me_segments_written := segments, me_file_size := Some file_size, me_bytes_on_disk := bytes,
       me_last_used_at := now, me_verified := verified,
       me_hash := (case me_hash e of None \<Rightarrow> Some (''blake3:'' @ pool_name) | Some h \<Rightarrow> Some h)\<rparr>)"

definition reset_row :: "media_entry \<Rightarrow> media_entry" where
  "reset_row e = e\<lparr>me_pool_file := None, me_complete := False, me_verified := Unknown,
     me_segments_written := 0, me_bytes_on_disk := 0\<rparr>"

definition media_reset :: "media_table \<Rightarrow> string \<Rightarrow> media_table" where
  "media_reset t mxc = update_row t mxc reset_row"

definition media_references :: "media_table \<Rightarrow> string \<Rightarrow> nat" where
  "media_references t pool_name = length (filter (\<lambda>e. me_pool_file e = Some pool_name) t)"

definition group_max :: "media_table \<Rightarrow> string option \<Rightarrow> int" where
  "group_max t g = Max (set (map (\<lambda>e. sint (me_bytes_on_disk e))
     (filter (\<lambda>e. me_complete e \<and> me_pool_file e = g) t)))"

definition disk_sum :: "media_table \<Rightarrow> int" where
  "disk_sum t = sum_list (map (group_max t) (remdups (map me_pool_file (filter me_complete t))))"

definition media_bytes_on_disk :: "media_table \<Rightarrow> sdk_error + u64" where
  "media_bytes_on_disk t =
     (if - (2 ^ 63) \<le> disk_sum t \<and> disk_sum t < 2 ^ 63 then Inr (word_of_int (disk_sum t)) else Inl Io)"

definition list_media_by_last_used :: "media_table \<Rightarrow> media_entry list" where
  "list_media_by_last_used t = sort_key (\<lambda>e. (me_last_used_at e, me_mxc e)) (filter me_complete t)"

definition list_media_incomplete :: "media_table \<Rightarrow> media_entry list" where
  "list_media_incomplete t = sort_key me_mxc (filter (\<lambda>e. \<not> me_complete e \<and> 0 < sint (me_segments_written e)) t)"

definition touch_media :: "media_table \<Rightarrow> i64 \<Rightarrow> string \<Rightarrow> media_table \<times> bool" where
  "touch_media t now mxc = (update_row t mxc (\<lambda>e. e\<lparr>me_last_used_at := now\<rparr>), find_media t mxc \<noteq> None)"

definition media_delete :: "media_table \<Rightarrow> string \<Rightarrow> media_table \<times> media_entry option" where
  "media_delete t mxc =
     (case find_media t mxc of
        None \<Rightarrow> (t, None)
      | Some e \<Rightarrow> (filter (\<lambda>x. me_mxc x \<noteq> mxc) t, Some e))"

section \<open>The table invariant\<close>

definition media_table_ok :: "media_table \<Rightarrow> bool" where
  "media_table_ok t \<longleftrightarrow> distinct (map me_mxc t) \<and> distinct (map me_id t) \<and> list_all (\<lambda>e. 0 < me_id e) t
     \<and> list_all row_checks t \<and> list_all (\<lambda>e. me_complete e \<longrightarrow> me_pool_file e \<noteq> None) t"

lemma find_media_Some:
  assumes "distinct (map me_mxc t)"
  shows "find_media t mxc = Some e \<longleftrightarrow> e \<in> set t \<and> me_mxc e = mxc"
  using assms by (induction t) (auto simp: find_media_def image_iff)

lemma find_media_None: "find_media t mxc = None \<longleftrightarrow> mxc \<notin> me_mxc ` set t"
  by (auto simp: find_media_def find_None_iff image_iff)

lemma update_row_keys:
  assumes "\<And>e. me_mxc (f e) = me_mxc e" "\<And>e. me_id (f e) = me_id e"
  shows "map me_mxc (update_row t mxc f) = map me_mxc t" "map me_id (update_row t mxc f) = map me_id t"
  using assms by (simp_all add: update_row_def)

lemma update_row_ok:
  assumes "media_table_ok t" and "\<And>e. me_mxc (f e) = me_mxc e" "\<And>e. me_id (f e) = me_id e"
    and "\<And>e. row_checks e \<Longrightarrow> row_checks (f e)"
    and "\<And>e. (me_complete e \<Longrightarrow> me_pool_file e \<noteq> None) \<Longrightarrow> me_complete (f e) \<Longrightarrow> me_pool_file (f e) \<noteq> None"
  shows "media_table_ok (update_row t mxc f)"
  using assms unfolding media_table_ok_def
  by (simp add: update_row_keys list_all_iff) (auto simp: update_row_def)

lemma next_row_id_fresh: "e \<in> set t \<Longrightarrow> me_id e < next_row_id t"
  by (induction t) (auto simp: next_row_id_def)

lemma next_row_id_pos: "0 < next_row_id t"
  by (induction t) (auto simp: next_row_id_def)

lemma media_row_id_ok:
  assumes "media_table_ok t" "media_row_id t now mxc d = Inr (t', i)"
  shows "media_table_ok t'"
proof -
  let ?row = "\<lparr>me_id = next_row_id t, me_mxc = mxc, me_pool_file = None, me_name = mdesc_name d,
     me_mimetype = mdesc_mimetype d, me_hash = mdesc_hash d, me_kind = mdesc_kind d,
     me_verified = Unknown, me_file_size = mdesc_file_size d, me_chunk_size = mdesc_chunk_size d,
     me_segments_written = 0, me_complete = False, me_bytes_on_disk = 0,
     me_created_at = now, me_last_used_at = now, me_source_uri = None\<rparr>"
  let ?t1 = "if find_media t mxc = None \<and> row_checks ?row then t @ [?row] else t"
  have "media_table_ok ?t1"
    using assms(1) next_row_id_fresh [of _ t] next_row_id_pos [of t]
    by (force simp: media_table_ok_def find_media_None)
  then have "media_table_ok (update_row ?t1 mxc (\<lambda>e. if me_hash e = None then e\<lparr>me_hash := h\<rparr> else e))" for h
    by (rule update_row_ok) (auto simp: row_checks_def)
  with \<open>media_table_ok ?t1\<close> assms(2) show ?thesis
    unfolding media_row_id_def Let_def by (auto split: option.splits)
qed

lemma media_delete_ok: "media_table_ok t \<Longrightarrow> media_table_ok (fst (media_delete t mxc))"
  by (auto simp: media_delete_def media_table_ok_def list_all_iff distinct_map_filter split: option.split)


section \<open>Names of pending files\<close>

lemma digits_value_snoc: "digits_value (s @ [c]) = 10 * digits_value s + (of_char c - 48)"
  by (simp add: digits_value_def)

lemma of_char_digit: "n < 10 \<Longrightarrow> (of_char (char_of (48 + n :: nat)) :: nat) = 48 + n"
  by simp

lemma show_nat_digits: "show_nat n \<noteq> [] \<and> list_all is_ascii_digit (show_nat n) \<and> digits_value (show_nat n) = n"
proof (induction n rule: show_nat.induct)
  case (1 n)
  have digit: "is_ascii_digit (char_of (48 + k))" "of_char (char_of (48 + k) :: char) - (48 :: nat) = k" if "k < 10" for k :: nat
    using that by (simp_all add: is_ascii_digit_def)
  show ?case
  proof (cases "n < 10")
    case True
    then show ?thesis
      using digit [of n] digits_value_snoc [of "[]" "char_of (48 + n)"]
      by (subst (1 2 3) show_nat.simps) (simp add: digits_value_def)
  next
    case False
    with 1 digit [of "n mod 10"] show ?thesis
      by (subst (1 2 3) show_nat.simps) (simp add: digits_value_snoc)
  qed
qed

lemma find_unique:
  assumes "distinct (map k t)" "e \<in> set t"
  shows "find (\<lambda>x. k x = k e) t = Some e"
  using assms by (induction t) (auto simp: image_iff)

lemma pending_name_row:
  assumes ok: "media_table_ok t" and e: "e \<in> set t" "me_id e < 2 ^ 63"
  shows "find_media_by_pending_name t (pending_name_of (me_id e)) = Some e"
proof -
  have pos: "0 < me_id e" using ok e(1) by (simp add: media_table_ok_def list_all_iff)
  have "nat (me_id e) < 2 ^ 63" using e(2) pos by (simp add: nat_less_iff)
  then have "parse_i64_digits (show_nat (nat (me_id e))) = Some (me_id e)"
    using pos by (simp add: parse_i64_digits_def show_nat_digits)
  moreover have "find (\<lambda>x. me_id x = me_id e) t = Some e"
    using ok e(1) by (intro find_unique) (simp_all add: media_table_ok_def)
  ultimately show ?thesis
    using pos show_nat_digits [of "nat (me_id e)"]
    by (simp add: find_media_by_pending_name_def pending_name_of_def show_int_def)
qed

text \<open>
  A pending file is found by its name: the name \<open>media_pending_name\<close> gives for an mxc is read
  back by \<open>find_media_by_pending_name\<close> to the same row (so the sweep claims a pending file for the
  row that writes it, and only for it).
\<close>

lemma pending_name_finds_row:
  assumes "media_table_ok t" and "\<forall>e\<in>set t. me_id e < 2 ^ 63"
    and "media_pending_name t mxc = Some name"
  shows "find_media_by_pending_name t name = find_media t mxc
     \<and> (\<forall>mxc'. media_pending_name t mxc' = Some name \<longrightarrow> mxc' = mxc)"
proof -
  have find: "find_media t m = Some e \<longleftrightarrow> e \<in> set t \<and> me_mxc e = m" for m e
    using assms(1) by (simp add: find_media_Some media_table_ok_def)
  have found: "find_media_by_pending_name t name = find_media t m \<and> find_media t m \<noteq> None"
    if "media_pending_name t m = Some name" for m
  proof -
    from that obtain e where e: "find_media t m = Some e" "name = pending_name_of (me_id e)"
      by (auto simp: media_pending_name_def)
    moreover have "e \<in> set t" "me_id e < 2 ^ 63" using e find assms(2) by auto
    ultimately show ?thesis using pending_name_row [OF assms(1)] by simp
  qed
  have "mxc' = mxc" if "media_pending_name t mxc' = Some name" for mxc'
  proof -
    have "find_media t mxc' = find_media t mxc" "find_media t mxc \<noteq> None"
      using found [OF that] found [OF assms(3)] by simp_all
    then show ?thesis using find by fastforce
  qed
  then show ?thesis using found [OF assms(3)] by blast
qed

text \<open>
  Starting a download never overwrites what is recorded: when the mxc has a row,
  \<open>media_begin\<close> returns that row (filling in a missing hash at most) and changes no other; when it has
  none, the new row is not complete, points to no file and carries the description, and a chunked
  description without its sizes is refused.
\<close>

lemma media_begin_keeps_rows:
  assumes "media_table_ok t"
  shows "case find_media t mxc of
       Some e \<Rightarrow> (\<exists>h. (me_hash e \<noteq> None \<longrightarrow> h = me_hash e)
           \<and> media_begin t now mxc d = Inr (update_row t mxc (\<lambda>x. x\<lparr>me_hash := h\<rparr>), e\<lparr>me_hash := h\<rparr>))
     | None \<Rightarrow> (case media_begin t now mxc d of
           Inl _ \<Rightarrow> mdesc_kind d = WbfChunked \<and> (mdesc_file_size d = None \<or> mdesc_chunk_size d = None)
         | Inr (t', e) \<Rightarrow> t' = t @ [e] \<and> me_mxc e = mxc \<and> \<not> me_complete e \<and> me_pool_file e = None
             \<and> me_kind e = mdesc_kind d \<and> me_hash e = mdesc_hash d \<and> me_file_size e = mdesc_file_size d
             \<and> me_chunk_size e = mdesc_chunk_size d)"
proof (cases "find_media t mxc")
  case None
  have upd: "update_row t mxc f = t" for f
    using None unfolding update_row_def find_media_None by (intro map_idI) force
  then have other: "update_row (t @ [e]) mxc f = t @ [f e]" if "me_mxc e = mxc" for e f
    using that by (simp add: update_row_def)
  have find: "find_media (t @ [e]) mxc = Some e" if "me_mxc e = mxc" for e
    using None that by (induction t) (auto simp: find_media_def)
  let ?row = "\<lparr>me_id = next_row_id t, me_mxc = mxc, me_pool_file = None, me_name = mdesc_name d,
     me_mimetype = mdesc_mimetype d, me_hash = mdesc_hash d, me_kind = mdesc_kind d,
     me_verified = Unknown, me_file_size = mdesc_file_size d, me_chunk_size = mdesc_chunk_size d,
     me_segments_written = 0, me_complete = False, me_bytes_on_disk = 0,
     me_created_at = now, me_last_used_at = now, me_source_uri = None\<rparr>"
  let ?hash = "\<lambda>h e. if me_hash e = None then e\<lparr>me_hash := Some h\<rparr> else e"
  show ?thesis
  proof (cases "row_checks ?row")
    case False
    then have "media_begin t now mxc d = Inl Io"
      using None upd by (cases "mdesc_hash d") (simp_all add: media_begin_def media_row_id_def)
    with None False show ?thesis by (auto simp: row_checks_def)
  next
    case True
    have "media_row_id t now mxc d = Inr (t @ [?row], next_row_id t)"
      using None True find [of ?row] other [of ?row]
      by (cases "mdesc_hash d") (simp_all add: media_row_id_def)
    then have "media_begin t now mxc d = Inr (t @ [?row], ?row)"
      using find [of ?row] by (simp add: media_begin_def)
    with None show ?thesis by simp
  qed
next
  case (Some e)
  then have e: "e \<in> set t" "me_mxc e = mxc" "distinct (map me_mxc t)"
    using assms by (auto simp: find_media_Some media_table_ok_def)
  let ?h = "case mdesc_hash d of None \<Rightarrow> me_hash e | Some h \<Rightarrow> (case me_hash e of None \<Rightarrow> Some h | Some g \<Rightarrow> Some g)"
  have find: "find_media (update_row t mxc f) mxc = Some (f e)" if "\<And>x. me_mxc (f x) = me_mxc x" for f
  proof -
    have "map me_mxc (update_row t mxc f) = map me_mxc t" using that by (simp add: update_row_def)
    then have "distinct (map me_mxc (update_row t mxc f))" using e(3) by simp
    moreover have "f e \<in> set (update_row t mxc f)" using e(1,2) by (force simp: update_row_def)
    ultimately show ?thesis using that e(2) by (simp add: find_media_Some)
  qed
  have unique: "x = e" if "x \<in> set t" "me_mxc x = mxc" for x
    using that e by (auto simp: distinct_map inj_on_def)
  have same: "update_row t mxc f = update_row t mxc g" if "f e = g e" for f g
    unfolding update_row_def using unique that by (intro map_cong) auto
  have keep: "update_row t mxc f = t" if "f e = e" for f
    unfolding update_row_def using unique that by (intro map_idI) auto
  have t2: "(case mdesc_hash d of None \<Rightarrow> t
       | Some g \<Rightarrow> update_row t mxc (\<lambda>e. if me_hash e = None then e\<lparr>me_hash := Some g\<rparr> else e))
     = update_row t mxc (\<lambda>x. x\<lparr>me_hash := ?h\<rparr>)"
    by (auto intro!: same keep keep [symmetric] split: option.split)
  have "media_begin t now mxc d = Inr (update_row t mxc (\<lambda>x. x\<lparr>me_hash := ?h\<rparr>), e\<lparr>me_hash := ?h\<rparr>)"
    using Some t2 by (simp add: media_begin_def media_row_id_def Let_def find)
  moreover have "me_hash e \<noteq> None \<longrightarrow> ?h = me_hash e" by (auto split: option.split)
  ultimately show ?thesis unfolding Some option.case by blast
qed

section \<open>The properties at concrete inputs\<close>

definition demo_row :: media_entry where
  "demo_row = \<lparr>me_id = 12, me_mxc = ''mxc://s/1'', me_pool_file = None, me_name = None, me_mimetype = None,
     me_hash = None, me_kind = MatrixPlain, me_verified = Unknown, me_file_size = Some 6, me_chunk_size = None,
     me_segments_written = 0, me_complete = False, me_bytes_on_disk = 0, me_created_at = 5,
     me_last_used_at = 5, me_source_uri = None\<rparr>"

lemma demo_row_ok: "media_table_ok [demo_row]"
  by (simp add: media_table_ok_def demo_row_def row_checks_def)


theorem pending_name_finds_row_witness:
  "find_media_by_pending_name [demo_row] ''m12'' = Some demo_row"
proof -
  have name: "media_pending_name [demo_row] ''mxc://s/1'' = Some ''m12''"
    by (simp add: media_pending_name_def find_media_def demo_row_def pending_name_of_def show_int_def
        show_nat.simps char_of_def bit_0)
  show ?thesis
    using pending_name_finds_row [OF demo_row_ok _ name] by (simp add: find_media_def demo_row_def)
qed

definition demo_description :: media_description where
  "demo_description = \<lparr>mdesc_kind = MatrixPlain, mdesc_name = Some ''other'', mdesc_mimetype = None,
     mdesc_hash = Some ''h'', mdesc_file_size = Some 7, mdesc_chunk_size = None\<rparr>"

theorem media_begin_keeps_rows_witness:
  "\<exists>h. media_begin [demo_row] 9 ''mxc://s/1'' demo_description
     = Inr (update_row [demo_row] ''mxc://s/1'' (\<lambda>x. x\<lparr>me_hash := h\<rparr>), demo_row\<lparr>me_hash := h\<rparr>)"
  using media_begin_keeps_rows [OF demo_row_ok, where mxc = "''mxc://s/1''" and now = 9 and d = demo_description]
  by (auto simp: find_media_def demo_row_def)

end
