(* ===== verification/Media_Files.thy ===== *)
theory Media_Files
  imports Media_Correct Media_Cache
begin

text \<open>
  What \<open>crates/wbf-sdk/src/media.rs\<close> does with finished files: whether a cached file may be used,
  whether two descriptions are of one file, deleting a local copy, exporting, the quota clean-up and
  the sweep over the database and the two directories.  An operation that can fail part-way returns
  its result together with the table and the directory it leaves.
\<close>

section \<open>Using a cached file\<close>

definition open_complete ::
    "pool_lib \<Rightarrow> bytes \<Rightarrow> pool_dir \<Rightarrow> media_entry \<Rightarrow> (pool_dir \<times> pool_reader) option" where
  "open_complete L key d e =
     (if \<not> me_complete e then None
      else case me_pool_file e of
        None \<Rightarrow> None
      | Some f \<Rightarrow>
          (case open_read L key d f of
             Inl _ \<Rightarrow> None
           | Inr (d1, r) \<Rightarrow>
               if me_file_size e \<noteq> None \<and> pr_plain_len r = unat (the (me_file_size e)) then Some (d1, r) else None))"

definition strip_prefix :: "string \<Rightarrow> string \<Rightarrow> string option" where
  "strip_prefix p s = (if take (length p) s = p then Some (drop (length p) s) else None)"

definition strip_suffix :: "string \<Rightarrow> string \<Rightarrow> string option" where
  "strip_suffix p s =
     (if length p \<le> length s \<and> drop (length s - length p) s = p then Some (take (length s - length p) s) else None)"

definition is_same_block :: "media_entry \<Rightarrow> chunked_block \<Rightarrow> bool" where
  "is_same_block e b =
     (let same_file_size = (case cb_file_size b of Some claimed \<Rightarrow> Some claimed = me_file_size e | None \<Rightarrow> True);
          same_size = (same_file_size \<and> me_chunk_size e = Some (cb_chunk_size b));
          recorded_sha256 = Option.bind (me_hash e) (strip_prefix ''sha256:'');
          same_sha256 = (case (recorded_sha256, cb_sha256 b) of
                           (Some recorded, Some claimed) \<Rightarrow> eq_ignore_ascii_case recorded claimed
                         | _ \<Rightarrow> True)
      in me_kind e = WbfChunked \<and> same_size \<and> same_sha256)"

definition matrix_hash :: "string option \<Rightarrow> string option" where
  "matrix_hash hash =
     (case hash of
        None \<Rightarrow> None
      | Some h \<Rightarrow> if strip_prefix ''matrix-sha256:'' h \<noteq> None then Some h else None)"

definition is_same_matrix_description :: "media_description \<Rightarrow> media_description \<Rightarrow> bool" where
  "is_same_matrix_description one other =
     (let same_hash = (case (matrix_hash (mdesc_hash one), matrix_hash (mdesc_hash other)) of
                         (Some a, Some b) \<Rightarrow> a = b
                       | (None, None) \<Rightarrow> True
                       | _ \<Rightarrow> False);
          same_size = (case (mdesc_file_size one, mdesc_file_size other) of
                         (Some a, Some b) \<Rightarrow> a = b
                       | _ \<Rightarrow> True)
      in mdesc_kind one = mdesc_kind other \<and> same_hash \<and> same_size)"

definition is_same_matrix_file :: "media_entry \<Rightarrow> media_description \<Rightarrow> bool" where
  "is_same_matrix_file e description =
     is_same_matrix_description
       \<lparr>mdesc_kind = me_kind e, mdesc_name = None, mdesc_mimetype = None, mdesc_hash = me_hash e,
        mdesc_file_size = me_file_size e, mdesc_chunk_size = None\<rparr>
       description"

datatype recorded_file_key = Chunked_Key chunked_block | Matrix_Key matrix_attachment

text \<open>The blocks and attachments the account can see, in the order the cache lists them, are arguments.\<close>

definition find_key_matching_record ::
    "chunked_block list \<Rightarrow> matrix_attachment list \<Rightarrow> media_entry \<Rightarrow> recorded_file_key option" where
  "find_key_matching_record blocks attachments e =
     (if me_kind e = WbfChunked then map_option Chunked_Key (find (is_same_block e) blocks)
      else map_option Matrix_Key
             (find (\<lambda>a. is_same_matrix_file e (of_matrix_attachment a)) attachments))"

section \<open>Deleting a local copy\<close>

definition del_local_copy ::
    "media_table \<Rightarrow> pool_dir \<Rightarrow> string \<Rightarrow> string list \<Rightarrow> (sdk_error + bool) \<times> media_table \<times> pool_dir" where
  "del_local_copy t d mxc in_use =
     (case find_media t mxc of
        None \<Rightarrow> (Inr False, t, d)
      | Some e \<Rightarrow>
          let pending_name = media_pending_name t mxc in
          if pending_name \<noteq> None \<and> the pending_name \<in> set in_use then (Inl Usage, t, d)
          else
            let removed =
              (case me_pool_file e of
                 None \<Rightarrow> Inr d
               | Some f \<Rightarrow>
                   if media_references t f \<le> 1 then
                     rbind (pool_is_open d f) (\<lambda>open. if open then Inr d else pool_remove d f)
                   else Inr d)
            in case removed of
                 Inl err \<Rightarrow> (Inl err, t, d)
               | Inr d1 \<Rightarrow>
                   let d2 = (case pending_name of None \<Rightarrow> d1 | Some name \<Rightarrow> discard d1 name);
                       (t1, deleted) = media_delete t mxc
                   in (Inr (deleted \<noteq> None), t1, d2))"

section \<open>The quota clean-up\<close>

record garbage_report =
  gr_bytes_before :: u64
  gr_bytes_after :: u64
  gr_files_removed :: nat
  gr_files_in_use :: nat
  gr_still_over_quota :: bool

definition saturating_sub_u64 :: "u64 \<Rightarrow> u64 \<Rightarrow> u64" where
  "saturating_sub_u64 a b = (if b \<le> a then a - b else 0)"

definition saturating_sub_i64 :: "i64 \<Rightarrow> i64 \<Rightarrow> i64" where
  "saturating_sub_i64 a b = max (- (2 ^ 63)) (min (2 ^ 63 - 1) (a - b))"

definition is_protected :: "i64 \<Rightarrow> i64 \<Rightarrow> media_entry \<Rightarrow> bool" where
  "is_protected now protect_millis e \<longleftrightarrow> saturating_sub_i64 now (me_last_used_at e) < protect_millis"

fun garbage_loop ::
    "u64 \<Rightarrow> i64 \<Rightarrow> i64 \<Rightarrow> media_entry list \<Rightarrow> media_table \<Rightarrow> pool_dir \<Rightarrow> garbage_report
      \<Rightarrow> (sdk_error + garbage_report) \<times> media_table \<times> pool_dir" where
  "garbage_loop quota protect_millis now [] t d report = (Inr report, t, d)"
| "garbage_loop quota protect_millis now (e # entries) t d report =
     (if gr_bytes_after report \<le> quota then (Inr report, t, d)
      else if is_protected now protect_millis e then (Inr report, t, d)
      else case me_pool_file e of
        None \<Rightarrow> garbage_loop quota protect_millis now entries t d report
      | Some f \<Rightarrow>
          (case pool_is_open d f of
             Inl err \<Rightarrow> (Inl err, t, d)
           | Inr True \<Rightarrow>
               garbage_loop quota protect_millis now entries t d (report\<lparr>gr_files_in_use := gr_files_in_use report + 1\<rparr>)
           | Inr False \<Rightarrow>
               if media_references t f \<le> 1 then
                 (case pool_remove d f of
                    Inl err \<Rightarrow> (Inl err, t, d)
                  | Inr d1 \<Rightarrow>
                      garbage_loop quota protect_millis now entries (media_reset t (me_mxc e)) d1
                        (report\<lparr>gr_files_removed := gr_files_removed report + 1,
                                gr_bytes_after := saturating_sub_u64 (gr_bytes_after report) (me_bytes_on_disk e)\<rparr>))
               else garbage_loop quota protect_millis now entries (media_reset t (me_mxc e)) d report))"

definition collect_garbage ::
    "media_table \<Rightarrow> pool_dir \<Rightarrow> u64 \<Rightarrow> nat \<Rightarrow> i64 \<Rightarrow> (sdk_error + garbage_report) \<times> media_table \<times> pool_dir" where
  "collect_garbage t d quota protect now =
     (case media_bytes_on_disk t of
        Inl err \<Rightarrow> (Inl err, t, d)
      | Inr bytes_before \<Rightarrow>
          let report = \<lparr>gr_bytes_before = bytes_before, gr_bytes_after = bytes_before, gr_files_removed = 0,
                        gr_files_in_use = 0, gr_still_over_quota = False\<rparr> in
          if bytes_before \<le> quota then (Inr report, t, d)
          else
            let protect_millis = (if protect < 2 ^ 63 then int protect else 2 ^ 63 - 1) in
            (case garbage_loop quota protect_millis now (list_media_by_last_used t) t d report of
               (Inl err, t1, d1) \<Rightarrow> (Inl err, t1, d1)
             | (Inr report1, t1, d1) \<Rightarrow>
                 (case media_bytes_on_disk t1 of
                    Inl err \<Rightarrow> (Inl err, t1, d1)
                  | Inr bytes_after \<Rightarrow>
                      (Inr (report1\<lparr>gr_bytes_after := bytes_after, gr_still_over_quota := quota < bytes_after\<rparr>), t1, d1))))"

section \<open>The sweep\<close>

record sweep_report =
  sr_reset_rows :: nat
  sr_removed_pending :: nat
  sr_removed_orphan_files :: nat

definition SEEK_SUFFIX :: string where "SEEK_SUFFIX = ''.seek''"

text \<open>The bytes of a file of \<open>pending/\<close> by its name in the directory.\<close>

definition pending_file :: "pool_dir \<Rightarrow> string \<Rightarrow> bytes option" where
  "pending_file d name =
     (case strip_suffix SEEK_SUFFIX name of None \<Rightarrow> pd_pending d name | Some owner \<Rightarrow> pd_seek d owner)"

primrec sweep_rows ::
    "pool_lib \<Rightarrow> bytes \<Rightarrow> media_entry list \<Rightarrow> media_table \<Rightarrow> pool_dir \<Rightarrow> sweep_report
      \<Rightarrow> media_table \<times> pool_dir \<times> sweep_report" where
  "sweep_rows L key [] t d report = (t, d, report)"
| "sweep_rows L key (e # entries) t d report =
     (case open_complete L key d e of
        None \<Rightarrow> sweep_rows L key entries (media_reset t (me_mxc e)) d (report\<lparr>sr_reset_rows := sr_reset_rows report + 1\<rparr>)
      | Some (d1, r) \<Rightarrow> sweep_rows L key entries t (drop_reader d1 r) report)"

text \<open>\<open>age\<close>: how long ago a pending file was modified, where its metadata can be read.\<close>

definition sweep_keeps :: "media_table \<Rightarrow> pool_dir \<Rightarrow> (string \<Rightarrow> nat option) \<Rightarrow> nat \<Rightarrow> string \<Rightarrow> bool" where
  "sweep_keeps t d age protect name =
     (let is_seek = (strip_suffix SEEK_SUFFIX name \<noteq> None);
          owner = (case strip_suffix SEEK_SUFFIX name of None \<Rightarrow> name | Some owner \<Rightarrow> owner);
          claimed = (case find_media_by_pending_name t owner of None \<Rightarrow> False | Some e \<Rightarrow> \<not> me_complete e);
          expired = (case age name of None \<Rightarrow> False | Some a \<Rightarrow> protect \<le> a);
          is_old_format = (\<not> is_seek \<and> \<not> is_current_pending (pending_file d name))
      in claimed \<and> \<not> expired \<and> \<not> is_old_format)"

primrec sweep_pending ::
    "(string \<Rightarrow> nat option) \<Rightarrow> nat \<Rightarrow> string list \<Rightarrow> string list \<Rightarrow> media_table \<Rightarrow> pool_dir \<Rightarrow> sweep_report
      \<Rightarrow> pool_dir \<times> sweep_report" where
  "sweep_pending age protect in_use [] t d report = (d, report)"
| "sweep_pending age protect in_use (name # names) t d report =
     (let owner = (case strip_suffix SEEK_SUFFIX name of None \<Rightarrow> name | Some owner \<Rightarrow> owner) in
      if owner \<in> set in_use \<or> sweep_keeps t d age protect name then sweep_pending age protect in_use names t d report
      else sweep_pending age protect in_use names t
             (if strip_suffix SEEK_SUFFIX name \<noteq> None then discard_seek d owner else discard_pending d name)
             (report\<lparr>sr_removed_pending := sr_removed_pending report + 1\<rparr>))"

primrec sweep_files ::
    "string list \<Rightarrow> media_table \<Rightarrow> pool_dir \<Rightarrow> sweep_report \<Rightarrow> (sdk_error + sweep_report) \<times> pool_dir" where
  "sweep_files [] t d report = (Inr report, d)"
| "sweep_files (f # fs) t d report =
     (if media_references t f = 0 then
        (case pool_is_open d f of
           Inl err \<Rightarrow> (Inl err, d)
         | Inr True \<Rightarrow> sweep_files fs t d report
         | Inr False \<Rightarrow>
             (case pool_remove d f of
                Inl err \<Rightarrow> (Inl err, d)
              | Inr d1 \<Rightarrow> sweep_files fs t d1 (report\<lparr>sr_removed_orphan_files := sr_removed_orphan_files report + 1\<rparr>)))
      else sweep_files fs t d report)"

text \<open>\<open>pending\<close> and \<open>files\<close> are the listings of the two directories.\<close>

definition sweep ::
    "pool_lib \<Rightarrow> bytes \<Rightarrow> media_table \<Rightarrow> pool_dir \<Rightarrow> (string \<Rightarrow> nat option) \<Rightarrow> nat \<Rightarrow> string list
      \<Rightarrow> string list \<Rightarrow> string list \<Rightarrow> (sdk_error + sweep_report) \<times> media_table \<times> pool_dir" where
  "sweep L key t d age protect in_use pending files =
     (case sweep_rows L key (list_media_by_last_used t) t d
             \<lparr>sr_reset_rows = 0, sr_removed_pending = 0, sr_removed_orphan_files = 0\<rparr> of
        (t1, d1, report1) \<Rightarrow>
          (case sweep_pending age protect in_use pending t1 d1 report1 of
             (d2, report2) \<Rightarrow>
               (case sweep_files files t1 d2 report2 of (r, d3) \<Rightarrow> (r, t1, d3))))"

section \<open>Exporting\<close>

text \<open>A place in the file system: a directory and the last component (none for a path like \<open>..\<close>).\<close>

type_synonym path = "string \<times> string option"
type_synonym file_system = "string \<times> string \<Rightarrow> bytes option"

record expected_content =
  ec_file_size :: u64
  ec_sha256_hex :: "string option"

text \<open>
  \<open>create_own_partial\<close>: up to \<open>n\<close> names are tried; \<open>next\<close> is the process-wide counter and
  \<open>can_create\<close> whether the directory can be written.
\<close>

primrec create_own_partial_loop ::
    "nat \<Rightarrow> file_system \<Rightarrow> string \<Rightarrow> string \<Rightarrow> nat \<Rightarrow> bool \<Rightarrow> u64 \<Rightarrow> (sdk_error + file_system \<times> string) \<times> u64" where
  "create_own_partial_loop 0 fs dir file_name pid can_create next = (Inl Io, next)"
| "create_own_partial_loop (Suc n) fs dir file_name pid can_create next =
     (let partial = file_name @ ''.partial.'' @ show_nat pid @ ''-'' @ show_nat (unat next) in
      if fs (dir, partial) \<noteq> None then create_own_partial_loop n fs dir file_name pid can_create (next + 1)
      else if can_create then (Inr (fs((dir, partial) \<mapsto> []), partial), next + 1)
      else (Inl Io, next + 1))"

definition create_own_partial ::
    "file_system \<Rightarrow> path \<Rightarrow> nat \<Rightarrow> bool \<Rightarrow> u64 \<Rightarrow> (sdk_error + file_system \<times> string) \<times> u64" where
  "create_own_partial fs to pid can_create next =
     (case snd to of
        None \<Rightarrow> (Inl Usage, next)
      | Some file_name \<Rightarrow> create_own_partial_loop 64 fs (fst to) file_name pid can_create next)"

text \<open>
  The copy loop, for any reader: \<open>disk_ok n\<close> says whether the write after \<open>n\<close> bytes succeeds.  The fuel
  bounds the number of reads; \<open>None\<close> is a loop still running.
\<close>

primrec copy_loop ::
    "('r \<Rightarrow> nat \<Rightarrow> sdk_error + 'r \<times> bytes) \<Rightarrow> (nat \<Rightarrow> bool) \<Rightarrow> nat \<Rightarrow> 'r \<Rightarrow> bytes \<Rightarrow> (sdk_error + bytes) option" where
  "copy_loop read disk_ok 0 r out = None"
| "copy_loop read disk_ok (Suc fuel) r out =
     (case read r (2 ^ 16) of
        Inl e \<Rightarrow> Some (Inl e)
      | Inr (r1, piece) \<Rightarrow>
          if piece = [] then Some (Inr out)
          else if \<not> disk_ok (length out) then Some (Inl Io)
          else copy_loop read disk_ok fuel r1 (out @ piece))"

definition export_check :: "pool_lib \<Rightarrow> expected_content \<Rightarrow> bytes \<Rightarrow> sdk_error + nat" where
  "export_check L expected out =
     (if length out \<noteq> unat (ec_file_size expected) then Inl Integrity
      else case ec_sha256_hex expected of
        None \<Rightarrow> Inr (length out)
      | Some wanted \<Rightarrow>
          if eq_ignore_ascii_case wanted (to_hex L (h_sha256 L out)) then Inr (length out) else Inl Integrity)"

definition export_to_path ::
    "pool_lib \<Rightarrow> ('r \<Rightarrow> nat \<Rightarrow> sdk_error + 'r \<times> bytes) \<Rightarrow> (nat \<Rightarrow> bool) \<Rightarrow> bool \<Rightarrow> bool \<Rightarrow> nat \<Rightarrow> 'r
      \<Rightarrow> file_system \<Rightarrow> path \<Rightarrow> nat \<Rightarrow> u64 \<Rightarrow> expected_content \<Rightarrow> ((sdk_error + nat) \<times> file_system \<times> u64) option" where
  "export_to_path L read disk_ok rename_ok can_create fuel source fs to pid next expected =
     (case create_own_partial fs to pid can_create next of
        (Inl e, next1) \<Rightarrow> Some (Inl e, fs, next1)
      | (Inr (fs1, partial), next1) \<Rightarrow>
          map_option
            (\<lambda>copied.
               let key = (fst to, partial) in
               case rbind copied (\<lambda>out. rbind (export_check L expected out) (\<lambda>n. Inr (out, n))) of
                 Inl e \<Rightarrow> (Inl e, fs1(key := None), next1)
               | Inr (out, n) \<Rightarrow>
                   if rename_ok then (Inr n, (fs1(key := None))((fst to, the (snd to)) \<mapsto> out), next1)
                   else (Inl Io, fs1(key := None), next1))
            (copy_loop read disk_ok fuel source []))"

end
