(* ===== verification/Media_Files_Correct.thy ===== *)
theory Media_Files_Correct
  imports Media_Files
begin

text \<open>
  What the operations on finished files promise: the clean-up and the sweep take only what nobody
  uses and take everything they may, deleting a copy takes exactly that copy, an export is the whole
  content or nothing, and a forged description is not taken for the recorded file.
\<close>

section \<open>Bytes on disk\<close>

text \<open>The sum of the largest entries of each group, over a set of rows.\<close>

definition group_sum :: "media_entry set \<Rightarrow> int" where
  "group_sum C = (\<Sum>g\<in>me_pool_file ` C. Max ((\<lambda>e. sint (me_bytes_on_disk e)) ` {e \<in> C. me_pool_file e = g}))"

lemma disk_sum_group_sum: "disk_sum t = group_sum {e \<in> set t. me_complete e}"
proof -
  have "{e \<in> {e \<in> set t. me_complete e}. me_pool_file e = g} = set (filter (\<lambda>e. me_complete e \<and> me_pool_file e = g) t)" for g
    by auto
  then show ?thesis
    by (simp add: disk_sum_def group_sum_def group_max_def sum_list_distinct_conv_sum_set)
qed

lemma group_sum_shrinks:
  assumes "finite C" "\<And>e. e \<in> C \<Longrightarrow> 0 \<le> sint (me_bytes_on_disk e)" "D \<subseteq> C"
  shows "group_sum D \<le> group_sum C"
proof -
  let ?b = "\<lambda>e. sint (me_bytes_on_disk e)"
  let ?M = "\<lambda>C g. Max (?b ` {e \<in> C. me_pool_file e = g})"
  have fin: "finite D" using assms(1,3) by (rule rev_finite_subset)
  have "group_sum D \<le> (\<Sum>g\<in>me_pool_file ` D. ?M C g)"
    unfolding group_sum_def
  proof (rule sum_mono)
    fix g assume "g \<in> me_pool_file ` D"
    then show "?M D g \<le> ?M C g" using assms(1,3) fin by (intro Max_mono) auto
  qed
  also have "\<dots> \<le> group_sum C"
    unfolding group_sum_def
  proof (rule sum_mono2)
    show "0 \<le> ?M C g" if g: "g \<in> me_pool_file ` C - me_pool_file ` D" for g
    proof -
      from g obtain e where e: "e \<in> C" "me_pool_file e = g" by auto
      have "0 \<le> ?b e" using assms(2) e(1) .
      also have "\<dots> \<le> ?M C g" using assms(1) e by (intro Max_ge) auto
      finally show ?thesis .
    qed
  qed (use assms in auto)
  finally show ?thesis .
qed

lemma group_sum_remove:
  assumes fin: "finite C" and e: "e \<in> C" and only: "\<And>x. x \<in> C \<Longrightarrow> me_pool_file x = me_pool_file e \<Longrightarrow> x = e"
  shows "group_sum C = sint (me_bytes_on_disk e) + group_sum (C - {e})"
proof -
  let ?M = "\<lambda>C g. Max ((\<lambda>e. sint (me_bytes_on_disk e)) ` {e \<in> C. me_pool_file e = g})"
  have new: "me_pool_file e \<notin> me_pool_file ` (C - {e})" using only by auto
  have img: "me_pool_file ` C = insert (me_pool_file e) (me_pool_file ` (C - {e}))" using e by auto
  have "{x \<in> C. me_pool_file x = me_pool_file e} = {e}" using e only by auto
  then have own: "?M C (me_pool_file e) = sint (me_bytes_on_disk e)" by simp
  have "{x \<in> C. me_pool_file x = g} = {x \<in> C - {e}. me_pool_file x = g}" if "g \<noteq> me_pool_file e" for g
    using that by auto
  note cut = this
  have same: "(\<Sum>g\<in>me_pool_file ` (C - {e}). ?M C g) = group_sum (C - {e})"
    unfolding group_sum_def
  proof (rule sum.cong [OF refl])
    fix g assume "g \<in> me_pool_file ` (C - {e})"
    then have "g \<noteq> me_pool_file e" using new by blast
    then show "?M C g = ?M (C - {e}) g" using cut [of g] by simp
  qed
  show ?thesis
    unfolding group_sum_def [of C] img using new fin own same by simp
qed

lemma sint_small: "unat w < 2 ^ 63 \<Longrightarrow> sint w = int (unat w)" for w :: u64
proof -
  assume "unat w < 2 ^ 63"
  then have "int (unat w) < int (2 ^ 63)" by (simp only: of_nat_less_iff)
  then have "uint w < 2 ^ 63" unfolding uint_nat by simp
  moreover have "- (2 ^ 63) \<le> uint w" by (rule order_trans [OF _ uint_ge_0]) simp
  ultimately have "signed_take_bit 63 (uint w) = uint w" by (rule signed_take_bit_int_eq_self [rotated])
  then have "sint w = uint w" unfolding sint_uint by simp
  also have "\<dots> = int (unat w)" by (rule uint_nat)
  finally show ?thesis .
qed

section \<open>Resetting a row\<close>

lemma reset_row_keys [simp]:
  "me_mxc (reset_row e) = me_mxc e" "me_id (reset_row e) = me_id e" "\<not> me_complete (reset_row e)"
  "me_pool_file (reset_row e) = None" "me_last_used_at (reset_row e) = me_last_used_at e"
  by (simp_all add: reset_row_def)

lemma media_reset_ok: "media_table_ok t \<Longrightarrow> media_table_ok (media_reset t mxc)"
  unfolding media_reset_def by (rule update_row_ok) (auto simp: row_checks_def reset_row_def)

lemma media_reset_set:
  assumes "media_table_ok t" "e \<in> set t"
  shows "set (media_reset t (me_mxc e)) = insert (reset_row e) (set t - {e})"
proof -
  have same: "x = e" if "x \<in> set t" "me_mxc x = me_mxc e" for x
    using assms that by (auto simp: media_table_ok_def distinct_map inj_on_def)
  show ?thesis
  proof -
    have "set (media_reset t (me_mxc e)) = (\<lambda>x. if x = e then reset_row e else x) ` set t"
      unfolding media_reset_def update_row_def set_map using same
      by (intro image_cong) auto
    then show ?thesis using assms(2) by auto
  qed
qed

lemma media_reset_complete:
  assumes "media_table_ok t" "e \<in> set t"
  shows "{x \<in> set (media_reset t (me_mxc e)). me_complete x} = {x \<in> set t. me_complete x} - {e}"
  unfolding media_reset_set [OF assms] by (auto dest: arg_cong [of _ _ me_complete])

lemma references_0: "media_references t f = 0 \<longleftrightarrow> (\<forall>e\<in>set t. me_pool_file e \<noteq> Some f)"
  by (auto simp: media_references_def filter_empty_conv)

lemma references_1:
  assumes "media_references t f \<le> 1" "e \<in> set t" "me_pool_file e = Some f" "x \<in> set t" "me_pool_file x = Some f"
  shows "x = e"
proof (rule ccontr)
  assume "x \<noteq> e"
  then have "card {e, x} = 2" by simp
  moreover have "{e, x} \<subseteq> set (filter (\<lambda>e. me_pool_file e = Some f) t)" using assms by auto
  then have "card {e, x} \<le> length (filter (\<lambda>e. me_pool_file e = Some f) t)"
    by (meson List.finite_set card_length card_mono le_trans)
  ultimately show False using assms(1) by (simp add: media_references_def)
qed

section \<open>The clean-up\<close>

abbreviation is_open_file :: "pool_dir \<Rightarrow> media_entry \<Rightarrow> bool" where
  "is_open_file d e \<equiv> (\<exists>f. me_pool_file e = Some f \<and> pd_open_readers d f > 0)"

text \<open>What the clean-up has done to the table \<open>t0\<close> and the directory \<open>d0\<close> so far; \<open>est\<close> is its estimate.\<close>

definition cleaned :: "i64 \<Rightarrow> i64 \<Rightarrow> media_table \<Rightarrow> pool_dir \<Rightarrow> media_table \<Rightarrow> pool_dir \<Rightarrow> bool" where
  "cleaned pm now t0 d0 t d \<longleftrightarrow>
     (\<forall>e\<in>set t0. e \<in> set t \<or> reset_row e \<in> set t \<and> me_complete e \<and> \<not> is_protected now pm e \<and> \<not> is_open_file d0 e)
     \<and> (\<forall>e\<in>set t. e \<in> set t0 \<or> (\<exists>e0\<in>set t0. e = reset_row e0))
     \<and> pd_pending d = pd_pending d0 \<and> pd_seek d = pd_seek d0 \<and> pd_open_readers d = pd_open_readers d0
     \<and> (\<forall>f. pd_complete d f = pd_complete d0 f
         \<or> pd_complete d f = None \<and> pd_open_readers d0 f = 0 \<and> (\<forall>e\<in>set t. me_pool_file e \<noteq> Some f))"

definition small_rows :: "media_table \<Rightarrow> bool" where
  "small_rows t \<longleftrightarrow> (\<forall>e\<in>set t. unat (me_bytes_on_disk e) < 2 ^ 63)"

definition valid_names :: "media_table \<Rightarrow> bool" where
  "valid_names t \<longleftrightarrow> (\<forall>e\<in>set t. \<forall>f. me_pool_file e = Some f \<longrightarrow> (\<exists>p. path_of f = Inr p))"

lemma small_reset: "media_table_ok t \<Longrightarrow> small_rows t \<Longrightarrow> e \<in> set t \<Longrightarrow> small_rows (media_reset t (me_mxc e))"
  by (simp add: small_rows_def media_reset_set) (simp add: reset_row_def)

lemma disk_sum_reset:
  assumes "media_table_ok t" "small_rows t" "e \<in> set t"
  shows "disk_sum (media_reset t (me_mxc e)) \<le> disk_sum t"
    and "me_complete e \<Longrightarrow> me_pool_file e = Some f \<Longrightarrow> media_references t f \<le> 1
      \<Longrightarrow> disk_sum t = int (unat (me_bytes_on_disk e)) + disk_sum (media_reset t (me_mxc e))"
proof -
  let ?C = "{x \<in> set t. me_complete x}"
  have C: "disk_sum (media_reset t (me_mxc e)) = group_sum (?C - {e})"
    by (simp only: disk_sum_group_sum media_reset_complete [OF assms(1,3)])
  have "0 \<le> sint (me_bytes_on_disk x)" if "x \<in> ?C" for x
    using that assms(2) by (simp add: small_rows_def sint_small)
  then show "disk_sum (media_reset t (me_mxc e)) \<le> disk_sum t"
    unfolding C unfolding disk_sum_group_sum by (intro group_sum_shrinks) auto
  show "disk_sum t = int (unat (me_bytes_on_disk e)) + disk_sum (media_reset t (me_mxc e))"
    if e: "me_complete e" "me_pool_file e = Some f" "media_references t f \<le> 1"
  proof -
    have "group_sum ?C = sint (me_bytes_on_disk e) + group_sum (?C - {e})"
    proof (rule group_sum_remove)
      fix x assume "x \<in> ?C" "me_pool_file x = me_pool_file e"
      then show "x = e" using references_1 [OF e(3) assms(3) e(2), of x] e(2) by auto
    qed (use assms(3) e(1) in auto)
    then show ?thesis
      unfolding C unfolding disk_sum_group_sum using assms(2,3) by (simp add: small_rows_def sint_small)
  qed
qed

lemma cleaned_refl: "cleaned pm now t d t d"
  by (simp add: cleaned_def)

lemma cleaned_reset:
  assumes c: "cleaned pm now t0 d0 t d" and ok: "media_table_ok t" and e: "e \<in> set t" "e \<in> set t0" "me_complete e"
    and free: "\<not> is_protected now pm e" "\<not> is_open_file d0 e"
    and d': "d' = d \<or> (\<exists>f. me_pool_file e = Some f \<and> media_references t f \<le> 1
        \<and> d' = d\<lparr>pd_complete := (pd_complete d)(f := None)\<rparr>)"
  shows "cleaned pm now t0 d0 (media_reset t (me_mxc e)) d'"
proof -
  let ?t = "media_reset t (me_mxc e)"
  have t': "set ?t = insert (reset_row e) (set t - {e})" by (rule media_reset_set [OF ok e(1)])
  have gone: "x \<in> set ?t \<Longrightarrow> me_pool_file x = Some f \<Longrightarrow> x \<in> set t \<and> x \<noteq> e" for x f
    unfolding t' by (auto dest: arg_cong [of _ _ me_pool_file])
  have rows: "\<forall>x\<in>set t0. x \<in> set ?t \<or> reset_row x \<in> set ?t \<and> me_complete x \<and> \<not> is_protected now pm x \<and> \<not> is_open_file d0 x"
  proof
    fix x assume x: "x \<in> set t0"
    have not_e: "reset_row x \<noteq> e" using e(3) by (metis reset_row_keys(3))
    have "x \<in> set t \<or> reset_row x \<in> set t \<and> me_complete x \<and> \<not> is_protected now pm x \<and> \<not> is_open_file d0 x"
      using c x by (simp add: cleaned_def)
    then show "x \<in> set ?t \<or> reset_row x \<in> set ?t \<and> me_complete x \<and> \<not> is_protected now pm x \<and> \<not> is_open_file d0 x"
    proof
      assume "x \<in> set t"
      then show ?thesis using e(3) free by (cases "x = e") (simp_all add: t')
    next
      assume "reset_row x \<in> set t \<and> me_complete x \<and> \<not> is_protected now pm x \<and> \<not> is_open_file d0 x"
      then show ?thesis using not_e by (simp add: t')
    qed
  qed
  have origin: "\<forall>x\<in>set ?t. x \<in> set t0 \<or> (\<exists>e0\<in>set t0. x = reset_row e0)"
    using c e unfolding cleaned_def t' by blast
  have files: "pd_complete d' f = pd_complete d0 f
       \<or> pd_complete d' f = None \<and> pd_open_readers d0 f = 0 \<and> (\<forall>x\<in>set ?t. me_pool_file x \<noteq> Some f)" for f
  proof (cases "pd_complete d' f = pd_complete d f")
    case True
    then show ?thesis using c gone unfolding cleaned_def by metis
  next
    case False
    then have f: "me_pool_file e = Some f" "media_references t f \<le> 1" "pd_complete d' f = None"
      using d' by (auto split: if_splits)
    then have "pd_open_readers d0 f = 0" using free(2) by simp
    moreover have "\<forall>x\<in>set ?t. me_pool_file x \<noteq> Some f"
      using gone references_1 [OF f(2) e(1) f(1)] by blast
    ultimately show ?thesis using f(3) by blast
  qed
  have "pd_pending d' = pd_pending d0 \<and> pd_seek d' = pd_seek d0 \<and> pd_open_readers d' = pd_open_readers d0"
    using c d' by (auto simp: cleaned_def)
  with rows origin files show ?thesis by (simp add: cleaned_def)
qed

lemma unat_saturating_sub: "unat (saturating_sub_u64 a b) = unat a - unat b"
  by (simp add: saturating_sub_u64_def unat_sub word_le_nat_alt)

lemma protected_mono:
  "me_last_used_at e \<le> me_last_used_at x \<Longrightarrow> is_protected now pm e \<Longrightarrow> is_protected now pm x"
  by (auto simp: is_protected_def saturating_sub_i64_def)

lemma garbage_loop_cleans:
  assumes "cleaned pm now t0 d0 t d" "media_table_ok t" "small_rows t" "valid_names t0"
    and "disk_sum t \<le> int (unat (gr_bytes_after rep))"
    and "set es \<subseteq> set t" "set es \<subseteq> set t0" "distinct es" "\<forall>e\<in>set es. me_complete e"
    and "sorted (map me_last_used_at es)"
  shows "\<exists>rep' t' d'. garbage_loop quota pm now es t d rep = (Inr rep', t', d')
     \<and> cleaned pm now t0 d0 t' d' \<and> media_table_ok t' \<and> small_rows t'
     \<and> disk_sum t' \<le> int (unat (gr_bytes_after rep')) \<and> disk_sum t' \<le> disk_sum t
     \<and> (\<forall>x\<in>set t'. me_complete x \<longrightarrow> x \<in> set t)
     \<and> (gr_bytes_after rep' \<le> quota
         \<or> (\<forall>e\<in>set es. e \<notin> set t' \<or> is_protected now pm e \<or> me_pool_file e = None \<or> is_open_file d0 e))"
  using assms
proof (induction es arbitrary: t d rep)
  case Nil
  then show ?case by simp
next
  case (Cons e es)
  note [simp del] = One_nat_def
  have sorted_e: "\<forall>x\<in>set es. me_last_used_at e \<le> me_last_used_at x" using Cons.prems(10) by simp
  have rest: "set es \<subseteq> set t0" "distinct es" "\<forall>e\<in>set es. me_complete e" "sorted (map me_last_used_at es)"
    "e \<in> set t" "e \<in> set t0" "me_complete e" "e \<notin> set es" "set es \<subseteq> set t"
    using Cons.prems(6-10) by simp_all
  show ?case
  proof (cases "gr_bytes_after rep \<le> quota")
    case True
    then show ?thesis using Cons.prems(1-5) by simp
  next
    case over: False
    show ?thesis
    proof (cases "is_protected now pm e")
      case True
      then have "\<forall>x\<in>set (e # es). is_protected now pm x" using sorted_e protected_mono by auto
      then show ?thesis using over True Cons.prems(1-5) by auto
    next
      case free: False
      show ?thesis
      proof (cases "me_pool_file e")
        case None
        from Cons.IH [OF Cons.prems(1-5) rest(9,1-4)] over free None show ?thesis by auto
      next
        case (Some f)
        obtain p where "path_of f = Inr p" using Cons.prems(4) rest(6) Some unfolding valid_names_def by blast
        then have is_open: "pool_is_open d f = Inr (pd_open_readers d0 f > 0)"
          and remove: "pool_remove d f = Inr (d\<lparr>pd_complete := (pd_complete d)(f := None)\<rparr>)"
          using Cons.prems(1) by (simp_all add: pool_is_open_def pool_remove_def cleaned_def)
        show ?thesis
        proof (cases "pd_open_readers d0 f > 0")
          case True
          let ?rep = "rep\<lparr>gr_files_in_use := gr_files_in_use rep + 1\<rparr>"
          have "disk_sum t \<le> int (unat (gr_bytes_after ?rep))" using Cons.prems(5) by simp
          from Cons.IH [OF Cons.prems(1-4) this rest(9,1-4)] over free Some is_open True show ?thesis by auto
        next
          case False
          then have shut: "\<not> is_open_file d0 e" using Some by simp
          let ?t = "media_reset t (me_mxc e)"
          have t': "set ?t = insert (reset_row e) (set t - {e})" by (rule media_reset_set [OF Cons.prems(2) rest(5)])
          have sub: "set es \<subseteq> set ?t" using rest(8,9) by (auto simp: t')
          note ok = media_reset_ok [OF Cons.prems(2), of "me_mxc e"] small_reset [OF Cons.prems(2,3) rest(5)]
          have e_gone: "e \<notin> set ?t" using rest(7) by (auto simp: t' dest: arg_cong [of _ _ me_complete])
          have kept: "x \<in> set t" if "x \<in> set ?t" "me_complete x" for x
            using that by (auto simp: t')
          have step: ?thesis
            if d': "d' = d \<or> d' = d\<lparr>pd_complete := (pd_complete d)(f := None)\<rparr> \<and> media_references t f \<le> 1"
              and est: "disk_sum ?t \<le> int (unat (gr_bytes_after rep1))"
              and loop: "garbage_loop quota pm now (e # es) t d rep = garbage_loop quota pm now es ?t d' rep1"
            for d' rep1
          proof -
            have "cleaned pm now t0 d0 ?t d'"
              using d' Some by (intro cleaned_reset [OF Cons.prems(1,2) rest(5-7) free shut]) blast
            from Cons.IH [OF this ok Cons.prems(4) est sub rest(1-4)]
            obtain rep' t'' d'' where res: "garbage_loop quota pm now es ?t d' rep1 = (Inr rep', t'', d'')"
              "cleaned pm now t0 d0 t'' d''" "media_table_ok t''" "small_rows t''"
              "disk_sum t'' \<le> int (unat (gr_bytes_after rep'))" "disk_sum t'' \<le> disk_sum ?t"
              "\<forall>x\<in>set t''. me_complete x \<longrightarrow> x \<in> set ?t"
              "gr_bytes_after rep' \<le> quota
               \<or> (\<forall>e\<in>set es. e \<notin> set t'' \<or> is_protected now pm e \<or> me_pool_file e = None \<or> is_open_file d0 e)"
              by blast
            have "e \<notin> set t''" using res(7) rest(7) e_gone by blast
            moreover have "disk_sum t'' \<le> disk_sum t"
              using res(6) disk_sum_reset(1) [OF Cons.prems(2,3) rest(5)] by linarith
            moreover have "\<forall>x\<in>set t''. me_complete x \<longrightarrow> x \<in> set t" using res(7) kept by blast
            ultimately show ?thesis using res loop by simp
          qed
          show ?thesis
          proof (cases "media_references t f \<le> 1")
            case True
            let ?rep = "rep\<lparr>gr_files_removed := gr_files_removed rep + 1,
                gr_bytes_after := saturating_sub_u64 (gr_bytes_after rep) (me_bytes_on_disk e)\<rparr>"
            have "unat (gr_bytes_after ?rep) = unat (gr_bytes_after rep) - unat (me_bytes_on_disk e)"
              by (simp add: unat_saturating_sub)
            then have "disk_sum ?t \<le> int (unat (gr_bytes_after ?rep))"
              using disk_sum_reset(2) [OF Cons.prems(2,3) rest(5,7) Some True] Cons.prems(5) by linarith
            then show ?thesis
              using over free Some is_open False remove True
              by (intro step [of "d\<lparr>pd_complete := (pd_complete d)(f := None)\<rparr>" ?rep]) simp_all
          next
            case shared: False
            have "disk_sum ?t \<le> int (unat (gr_bytes_after rep))"
              using disk_sum_reset(1) [OF Cons.prems(2,3) rest(5)] Cons.prems(5) by linarith
            then show ?thesis
              using over free Some is_open False shared by (intro step [of d rep]) simp_all
          qed
        qed
      qed
    qed
  qed
qed

lemma list_by_last_used:
  assumes "media_table_ok t"
  shows "set (list_media_by_last_used t) = {e \<in> set t. me_complete e}" "distinct (list_media_by_last_used t)"
    and "sorted (map me_last_used_at (list_media_by_last_used t))"
proof -
  have "sorted (map (\<lambda>e. (me_last_used_at e, me_mxc e)) (list_media_by_last_used t))"
    by (simp add: list_media_by_last_used_def)
  then show "sorted (map me_last_used_at (list_media_by_last_used t))"
    by (auto simp: sorted_map less_eq_prod_def elim!: sorted_wrt_mono_rel [rotated])
  have "distinct t" using assms by (simp add: media_table_ok_def distinct_map)
  then show "distinct (list_media_by_last_used t)" by (simp add: list_media_by_last_used_def)
qed (auto simp: list_media_by_last_used_def)

lemma disk_sum_nonneg: "small_rows t \<Longrightarrow> 0 \<le> disk_sum t"
  using group_sum_shrinks [of "{e \<in> set t. me_complete e}" "{}"]
  by (simp add: disk_sum_group_sum small_rows_def sint_small) (simp add: group_sum_def)

lemma media_bytes_small:
  assumes "small_rows t" "disk_sum t < 2 ^ 63"
  shows "\<exists>n. media_bytes_on_disk t = Inr n \<and> int (unat n) = disk_sum t"
proof -
  have "0 \<le> disk_sum t" using assms(1) by (rule disk_sum_nonneg)
  moreover from this have "uint (word_of_int (disk_sum t) :: u64) = disk_sum t"
    using assms(2) by (simp add: uint_word_of_int)
  ultimately show ?thesis using assms(2) by (simp add: media_bytes_on_disk_def flip: uint_nat)
qed

text \<open>
  C11. The quota clean-up succeeds, takes only what it may and stops only when it must: a row is reset
  and its file deleted only when it is complete, past its protection and not being read; a file is
  deleted only when afterwards no row refers to it and nobody reads it; every other row, file and
  pending file is as before.  The reported size is the real one, and when the directory is still over
  the quota every complete row that is left is protected or being read.
\<close>

theorem collect_garbage_correct:
  assumes "media_table_ok t" and "small_rows t" and "valid_names t" and "disk_sum t < 2 ^ 63"
    and "pm = (if protect < 2 ^ 63 then int protect else 2 ^ 63 - 1)"
  shows "\<exists>rep t' d'. collect_garbage t d quota protect now = (Inr rep, t', d')
     \<and> cleaned pm now t d t' d' \<and> media_table_ok t'
     \<and> media_bytes_on_disk t' = Inr (gr_bytes_after rep)
     \<and> gr_still_over_quota rep = (quota < gr_bytes_after rep)
     \<and> (quota < gr_bytes_after rep \<longrightarrow> (\<forall>e\<in>set t'. me_complete e \<longrightarrow> is_protected now pm e \<or> is_open_file d e))"
proof -
  obtain n where n: "media_bytes_on_disk t = Inr n" "int (unat n) = disk_sum t"
    using media_bytes_small [OF assms(2,4)] by blast
  let ?rep = "\<lparr>gr_bytes_before = n, gr_bytes_after = n, gr_files_removed = 0, gr_files_in_use = 0,
      gr_still_over_quota = False\<rparr>"
  show ?thesis
  proof (cases "n \<le> quota")
    case True
    then show ?thesis
      using n(1) assms(1) by (simp add: collect_garbage_def cleaned_refl Let_def not_less [symmetric])
  next
    case False
    note es = list_by_last_used [OF assms(1)]
    have "disk_sum t \<le> int (unat (gr_bytes_after ?rep))" using n(2) by simp
    have sub: "set (list_media_by_last_used t) \<subseteq> set t" "\<forall>e\<in>set (list_media_by_last_used t). me_complete e"
      unfolding es(1) by auto
    from garbage_loop_cleans [OF cleaned_refl [of pm now t d] assms(1-3) \<open>disk_sum t \<le> _\<close> sub(1,1) es(2) sub(2) es(3), of quota]
    obtain rep1 t' d' where loop: "garbage_loop quota pm now (list_media_by_last_used t) t d ?rep = (Inr rep1, t', d')"
      and c: "cleaned pm now t d t' d'" "media_table_ok t'" "small_rows t'"
        "disk_sum t' \<le> int (unat (gr_bytes_after rep1))" "disk_sum t' \<le> disk_sum t"
        "\<forall>x\<in>set t'. me_complete x \<longrightarrow> x \<in> set t"
      and stop: "gr_bytes_after rep1 \<le> quota \<or> (\<forall>e\<in>set (list_media_by_last_used t).
        e \<notin> set t' \<or> is_protected now pm e \<or> me_pool_file e = None \<or> is_open_file d e)"
      by blast
    obtain k where k: "media_bytes_on_disk t' = Inr k" "int (unat k) = disk_sum t'"
      using media_bytes_small [OF c(3)] c(5) assms(4) by fastforce
    have "is_protected now pm e \<or> is_open_file d e" if "quota < k" "e \<in> set t'" "me_complete e" for e
    proof -
      have "unat k \<le> unat (gr_bytes_after rep1)" using k(2) c(4) by linarith
      then have "\<not> gr_bytes_after rep1 \<le> quota" using that(1) by (simp add: word_less_nat_alt word_le_nat_alt)
      with stop have "\<forall>e\<in>set (list_media_by_last_used t).
        e \<notin> set t' \<or> is_protected now pm e \<or> me_pool_file e = None \<or> is_open_file d e" by (simp only: simp_thms)
      moreover have "me_pool_file e \<noteq> None" using c(2) that by (simp add: media_table_ok_def list_all_iff)
      moreover have "e \<in> set (list_media_by_last_used t)" using that(2,3) c(6) es(1) by blast
      ultimately show ?thesis using that(2) by (metis (no_types, lifting))
    qed
    then have left: "quota < k \<longrightarrow> (\<forall>e\<in>set t'. me_complete e \<longrightarrow> is_protected now pm e \<or> is_open_file d e)"
      by blast
    have "collect_garbage t d quota protect now
        = (Inr (rep1\<lparr>gr_bytes_after := k, gr_still_over_quota := quota < k\<rparr>), t', d')"
      unfolding collect_garbage_def n(1) sum.case Let_def
      using False loop k(1) by (simp only: assms(5) if_False if_True split: if_splits) simp_all
    then show ?thesis
      using k(1) c(1,2) left
      by (intro exI [of _ "rep1\<lparr>gr_bytes_after := k, gr_still_over_quota := quota < k\<rparr>"] exI [of _ t'] exI [of _ d'])
         simp
  qed
qed

section \<open>The sweep\<close>

lemma open_read_same_dir:
  assumes "open_read L key d f = Inr (d1, r)"
  shows "drop_reader d1 r = d"
  using assms by (auto simp: open_read_def rbind_eq_Inr Let_def drop_reader_def split: if_splits)

lemma open_read_other_dir:
  assumes "pd_complete d' f = pd_complete d f" "open_read L key d f = Inr (d1, r)"
  shows "\<exists>d2. open_read L key d' f = Inr (d2, r)"
proof -
  from assms(2) obtain p x h s where found: "path_of f = Inr p" "pd_complete d f = Some x" "read_header x = Inr h"
    "open_segment L key h x ((length x - HEADER_LEN) div record_len h - 1) = Inr s"
    by (auto simp: open_read_def rbind_eq_Inr Let_def split: if_splits)
  then show ?thesis using assms by (auto simp: open_read_def Let_def split: if_splits)
qed

lemma open_complete_other_dir:
  assumes "\<And>f. me_pool_file e = Some f \<Longrightarrow> pd_complete d' f = pd_complete d f" "open_complete L key d e \<noteq> None"
  shows "open_complete L key d' e \<noteq> None"
  using assms open_read_other_dir
  by (fastforce simp: open_complete_def split: if_splits option.splits sum.splits)

definition swept_row :: "pool_lib \<Rightarrow> bytes \<Rightarrow> pool_dir \<Rightarrow> media_entry \<Rightarrow> media_entry" where
  "swept_row L key d e = (if me_complete e \<and> open_complete L key d e = None then reset_row e else e)"

lemma sweep_rows_map:
  assumes "distinct (map me_mxc t)" "set es \<subseteq> set t" "distinct es"
  shows "sweep_rows L key es t d report =
     (map (\<lambda>e. if e \<in> set es \<and> open_complete L key d e = None then reset_row e else e) t, d,
      report\<lparr>sr_reset_rows := sr_reset_rows report + length (filter (\<lambda>e. open_complete L key d e = None) es)\<rparr>)"
  using assms
proof (induction es arbitrary: t report)
  case (Cons e es)
  show ?case
  proof (cases "open_complete L key d e")
    case None
    let ?t = "media_reset t (me_mxc e)"
    have only: "x = e" if "x \<in> set t" "me_mxc x = me_mxc e" for x
      using Cons.prems(1,2) that by (auto simp: distinct_map inj_on_def)
    then have t': "?t = map (\<lambda>x. if x = e then reset_row e else x) t"
      by (auto simp: media_reset_def update_row_def)
    have "set es \<subseteq> set ?t" using Cons.prems(2,3) by (auto simp: t')
    moreover have "distinct (map me_mxc ?t)"
      using Cons.prems(1) by (simp add: media_reset_def update_row_keys)
    moreover have "reset_row e \<notin> set es"
    proof
      assume "reset_row e \<in> set es"
      then have "reset_row e = e" using only [of "reset_row e"] Cons.prems(2) by auto
      with \<open>reset_row e \<in> set es\<close> Cons.prems(3) show False by simp
    qed
    ultimately show ?thesis
      using Cons.IH [of ?t] Cons.prems(3) None by (auto simp: t')
  next
    case (Some q)
    obtain d1 r where q: "q = (d1, r)" by (cases q)
    then have "drop_reader d1 r = d"
      using Some open_read_same_dir
      by (auto simp: open_complete_def split: if_splits option.splits sum.splits)
    then show ?thesis using Cons.IH [of t] Cons.prems Some q by (auto intro!: map_cong)
  qed
qed simp

lemma strip_suffix_Some: "strip_suffix p s = Some s' \<longleftrightarrow> s = s' @ p"
proof
  assume "strip_suffix p s = Some s'"
  then have "s' = take (length s - length p) s" "drop (length s - length p) s = p"
    by (auto simp: strip_suffix_def split: if_splits)
  then show "s = s' @ p" using append_take_drop_id [of "length s - length p" s] by simp
qed (simp add: strip_suffix_def)

abbreviation owner_of_name :: "string \<Rightarrow> string" where
  "owner_of_name name \<equiv> (case strip_suffix SEEK_SUFFIX name of None \<Rightarrow> name | Some owner \<Rightarrow> owner)"

lemma sweep_keeps_cong:
  "(strip_suffix SEEK_SUFFIX name = None \<Longrightarrow> pd_pending d' name = pd_pending d name)
     \<Longrightarrow> sweep_keeps t d' age protect name = sweep_keeps t d age protect name"
  by (cases "strip_suffix SEEK_SUFFIX name") (simp_all add: sweep_keeps_def pending_file_def)

definition swept_pending :: "(string \<Rightarrow> bool) \<Rightarrow> pool_dir \<Rightarrow> string list \<Rightarrow> pool_dir" where
  "swept_pending drop_it d names =
     d\<lparr>pd_pending := (\<lambda>n. if n \<in> set names \<and> strip_suffix SEEK_SUFFIX n = None \<and> drop_it n then None else pd_pending d n),
       pd_seek := (\<lambda>n. if n @ SEEK_SUFFIX \<in> set names \<and> drop_it (n @ SEEK_SUFFIX) then None else pd_seek d n)\<rparr>"

lemma swept_pending_skip:
  assumes "\<not> P name"
  shows "swept_pending P d (name # names) = swept_pending P d names"
proof -
  have "(n \<in> set (name # names) \<and> strip_suffix SEEK_SUFFIX n = None \<and> P n)
      = (n \<in> set names \<and> strip_suffix SEEK_SUFFIX n = None \<and> P n)" for n
    using assms by auto
  moreover have "(n @ SEEK_SUFFIX \<in> set (name # names) \<and> P (n @ SEEK_SUFFIX))
      = (n @ SEEK_SUFFIX \<in> set names \<and> P (n @ SEEK_SUFFIX))" for n
    using assms by auto
  ultimately show ?thesis by (simp only: swept_pending_def)
qed

lemma sweep_pending_exact:
  assumes "distinct names" "\<And>n. n \<in> set names \<Longrightarrow> pd_pending d n = pd_pending d0 n"
  shows "\<exists>k. sweep_pending age protect in_use names t d report =
     (swept_pending (\<lambda>n. owner_of_name n \<notin> set in_use \<and> \<not> sweep_keeps t d0 age protect n) d names,
      report\<lparr>sr_removed_pending := sr_removed_pending report + k\<rparr>)"
  using assms
proof (induction names arbitrary: d report)
  case Nil
  show ?case by (rule exI [of _ 0]) (simp add: swept_pending_def)
next
  case (Cons name names)
  let ?drop = "\<lambda>n. owner_of_name n \<notin> set in_use \<and> \<not> sweep_keeps t d0 age protect n"
  have same: "sweep_keeps t d age protect name = sweep_keeps t d0 age protect name"
    using Cons.prems(2) by (intro sweep_keeps_cong) simp
  show ?case
  proof (cases "?drop name")
    case False
    have "swept_pending ?drop d (name # names) = swept_pending ?drop d names"
      using False by (rule swept_pending_skip)
    then show ?thesis using False same Cons.IH [of d] Cons.prems by (simp add: Let_def)
  next
    case True
    let ?d = "if strip_suffix SEEK_SUFFIX name \<noteq> None then discard_seek d (owner_of_name name) else discard_pending d name"
    have "pd_pending ?d n = pd_pending d0 n" if "n \<in> set names" for n
      using that Cons.prems by (auto simp: discard_seek_def discard_pending_def)
    with Cons.IH [of ?d "report\<lparr>sr_removed_pending := sr_removed_pending report + 1\<rparr>"] Cons.prems(1)
    obtain k where "sweep_pending age protect in_use names t ?d (report\<lparr>sr_removed_pending := sr_removed_pending report + 1\<rparr>)
        = (swept_pending ?drop ?d names, report\<lparr>sr_removed_pending := sr_removed_pending report + 1 + k\<rparr>)" by auto
    moreover have "swept_pending ?drop ?d names = swept_pending ?drop d (name # names)"
    proof (cases "strip_suffix SEEK_SUFFIX name")
      case None
      then have "n @ SEEK_SUFFIX \<noteq> name" for n using strip_suffix_Some [of SEEK_SUFFIX name n] by auto
      then show ?thesis using True None
        by (intro pool_dir.equality ext) (auto simp: swept_pending_def discard_pending_def)
    next
      case (Some owner)
      then have "name = owner @ SEEK_SUFFIX" by (simp add: strip_suffix_Some)
      then show ?thesis using True Some
        by (intro pool_dir.equality ext) (auto simp: swept_pending_def discard_seek_def)
    qed
    ultimately show ?thesis using True same by (intro exI [of _ "1 + k"]) (simp add: Let_def)
  qed
qed

lemma sweep_files_exact:
  assumes "\<forall>f\<in>set files. \<exists>p. path_of f = Inr p"
  shows "\<exists>k. sweep_files files t d report =
     (Inr (report\<lparr>sr_removed_orphan_files := sr_removed_orphan_files report + k\<rparr>),
      d\<lparr>pd_complete := (\<lambda>f. if f \<in> set files \<and> media_references t f = 0 \<and> pd_open_readers d f = 0
          then None else pd_complete d f)\<rparr>)"
  using assms
proof (induction files arbitrary: d report)
  case (Cons f fs)
  then obtain p where p: "path_of f = Inr p" by auto
  show ?case
  proof (cases "media_references t f = 0 \<and> pd_open_readers d f = 0")
    case False
    then have "sweep_files (f # fs) t d report = sweep_files fs t d report"
      using p by (auto simp: pool_is_open_def)
    moreover have "(\<lambda>g. if g \<in> set (f # fs) \<and> media_references t g = 0 \<and> pd_open_readers d g = 0 then None else pd_complete d g)
       = (\<lambda>g. if g \<in> set fs \<and> media_references t g = 0 \<and> pd_open_readers d g = 0 then None else pd_complete d g)"
      using False by (intro ext) auto
    ultimately show ?thesis using Cons by simp
  next
    case True
    let ?d = "d\<lparr>pd_complete := (pd_complete d)(f := None)\<rparr>"
    let ?report = "report\<lparr>sr_removed_orphan_files := sr_removed_orphan_files report + 1\<rparr>"
    have "sweep_files (f # fs) t d report = sweep_files fs t ?d ?report"
      using p True by (simp add: pool_is_open_def pool_remove_def)
    moreover have "(\<lambda>g. if g \<in> set (f # fs) \<and> media_references t g = 0 \<and> pd_open_readers d g = 0 then None else pd_complete d g)
       = (\<lambda>g. if g \<in> set fs \<and> media_references t g = 0 \<and> pd_open_readers ?d g = 0 then None else pd_complete ?d g)"
      using True by (intro ext) auto
    moreover obtain k where "sweep_files fs t ?d ?report =
     (Inr (?report\<lparr>sr_removed_orphan_files := sr_removed_orphan_files ?report + k\<rparr>),
      ?d\<lparr>pd_complete := (\<lambda>f. if f \<in> set fs \<and> media_references t f = 0 \<and> pd_open_readers ?d f = 0
          then None else pd_complete ?d f)\<rparr>)"
      using Cons.IH [of ?d ?report] Cons.prems by auto
    ultimately show ?thesis by (intro exI [of _ "1 + k"]) simp
  qed
next
  case Nil
  show ?case by (rule exI [of _ 0]) simp
qed


section \<open>Deleting a local copy\<close>

text \<open>
  Deleting a local copy deletes that copy and nothing else: a copy that is being written is
  refused and nothing changes; otherwise the row is gone with its pending and seek file, its pool file
  is gone exactly when no other row refers to it and nobody reads it, and every other row, pending file
  and pool file is as before.
\<close>

lemma del_local_copy_exact:
  assumes "media_table_ok t" and "valid_names t"
  shows "case find_media t mxc of
       None \<Rightarrow> del_local_copy t d mxc in_use = (Inr False, t, d)
     | Some e \<Rightarrow>
         (let name = pending_name_of (me_id e) in
          if name \<in> set in_use then del_local_copy t d mxc in_use = (Inl Usage, t, d)
          else \<exists>d'. del_local_copy t d mxc in_use = (Inr True, filter (\<lambda>x. x \<noteq> e) t, d')
             \<and> pd_pending d' = (pd_pending d)(name := None) \<and> pd_seek d' = (pd_seek d)(name := None)
             \<and> pd_open_readers d' = pd_open_readers d
             \<and> (\<forall>f. pd_complete d' f =
                 (if me_pool_file e = Some f \<and> (\<forall>x\<in>set t. x \<noteq> e \<longrightarrow> me_pool_file x \<noteq> Some f) \<and> pd_open_readers d f = 0
                  then None else pd_complete d f)))"
proof (cases "find_media t mxc")
  case None
  then show ?thesis by (simp add: del_local_copy_def)
next
  case (Some e)
  let ?name = "pending_name_of (me_id e)"
  have uniq: "distinct (map me_mxc t)" using assms(1) by (simp add: media_table_ok_def)
  then have e: "e \<in> set t" "me_mxc e = mxc" using Some by (simp_all add: find_media_Some)
  have only: "x = e" if "x \<in> set t" "me_mxc x = mxc" for x
    using uniq that e by (auto simp: distinct_map inj_on_def)
  have name: "media_pending_name t mxc = Some ?name" using Some by (simp add: media_pending_name_def)
  have rows: "media_delete t mxc = (filter (\<lambda>x. x \<noteq> e) t, Some e)"
    using Some only e(2) by (auto simp: media_delete_def intro: filter_cong)
  show ?thesis
  proof (cases "?name \<in> set in_use")
    case True
    then show ?thesis using Some name by (simp add: del_local_copy_def)
  next
    case free: False
    show ?thesis
    proof (cases "me_pool_file e")
      case None
      then show ?thesis using Some name rows free
        by (simp add: del_local_copy_def discard_def discard_seek_def discard_pending_def)
    next
      case stored: (Some f)
      then obtain p where p: "path_of f = Inr p" using assms(2) e(1) unfolding valid_names_def by blast
      have "distinct t" using uniq by (simp add: distinct_map)
      have refs: "media_references t f \<le> 1 \<longleftrightarrow> (\<forall>x\<in>set t. x \<noteq> e \<longrightarrow> me_pool_file x \<noteq> Some f)"
      proof
        assume "\<forall>x\<in>set t. x \<noteq> e \<longrightarrow> me_pool_file x \<noteq> Some f"
        then have "set (filter (\<lambda>x. me_pool_file x = Some f) t) \<subseteq> {e}" by auto
        then have "card (set (filter (\<lambda>x. me_pool_file x = Some f) t)) \<le> 1"
          by (metis card.empty card_insert_disjoint card_mono finite.intros One_nat_def empty_iff)
        then show "media_references t f \<le> 1"
          using \<open>distinct t\<close> by (simp add: media_references_def distinct_card del: set_filter)
      qed (use references_1 e(1) stored in blast)
      then show ?thesis using Some name rows free stored p
        by (auto simp: del_local_copy_def discard_def discard_seek_def discard_pending_def pool_is_open_def pool_remove_def Let_def)
    qed
  qed
qed

section \<open>Exporting\<close>

lemma create_own_partial_loop_fresh:
  assumes "create_own_partial_loop n fs dir name pid can_create next = (Inr (fs1, partial), next1)"
  shows "fs (dir, partial) = None \<and> fs1 = fs((dir, partial) \<mapsto> []) \<and> partial \<noteq> name"
  using assms by (induction n arbitrary: "next") (auto simp: Let_def split: if_splits)

text \<open>
  An export is all or nothing, whatever the reader, the disk and the directory do: when it
  succeeds the destination holds content of exactly the expected length (and SHA-256, when one is
  given) and nothing else has changed; when it fails no file has changed and no partial file is left.
\<close>

lemma export_all_or_nothing:
  assumes "export_to_path L read disk_ok rename_ok can_create fuel source fs to pid next expected = Some (res, fs', next')"
  shows "case res of
       Inl _ \<Rightarrow> fs' = fs
     | Inr n \<Rightarrow> \<exists>name content. snd to = Some name \<and> fs' = fs((fst to, name) \<mapsto> content)
         \<and> length content = n \<and> n = unat (ec_file_size expected)
         \<and> (\<forall>h. ec_sha256_hex expected = Some h \<longrightarrow> eq_ignore_ascii_case h (to_hex L (h_sha256 L content)))"
proof (cases "create_own_partial fs to pid can_create next")
  case (Pair r next1)
  show ?thesis
  proof (cases r)
    case (Inl e)
    then show ?thesis using assms Pair by (auto simp: export_to_path_def)
  next
    case (Inr q)
    obtain fs1 partial where q: "q = (fs1, partial)" by (cases q)
    obtain name where name: "snd to = Some name"
      using Pair Inr by (auto simp: create_own_partial_def split: option.splits)
    then have fresh: "fs (fst to, partial) = None" "fs1 = fs((fst to, partial) \<mapsto> [])" "partial \<noteq> name"
      using Pair Inr q create_own_partial_loop_fresh by (fastforce simp: create_own_partial_def)+
    then have clean: "fs1((fst to, partial) := None) = fs" by auto
    obtain c where c: "copy_loop read disk_ok fuel source [] = Some c"
      using assms Pair Inr q by (auto simp: export_to_path_def)
    show ?thesis
    proof (cases "rbind c (\<lambda>out. rbind (export_check L expected out) (\<lambda>n. Inr (out, n)))")
      case (Inl e)
      then show ?thesis using assms Pair \<open>r = Inr q\<close> q c clean by (auto simp: export_to_path_def Let_def)
    next
      case (Inr on)
      obtain out n where on: "on = (out, n)" by (cases on)
      have check: "export_check L expected out = Inr n" using Inr on by (auto simp: rbind_eq_Inr)
      have done_: "export_to_path L read disk_ok rename_ok can_create fuel source fs to pid next expected
          = Some (if rename_ok then (Inr n, fs((fst to, name) \<mapsto> out), next1) else (Inl Io, fs, next1))"
        unfolding export_to_path_def Pair \<open>r = Inr q\<close> q sum.case prod.case c option.map Let_def Inr on clean name option.sel
        by simp
      from check have "length out = n" "n = unat (ec_file_size expected)"
        "\<forall>h. ec_sha256_hex expected = Some h \<longrightarrow> eq_ignore_ascii_case h (to_hex L (h_sha256 L out))"
        by (auto simp: export_check_def split: if_splits option.splits)
      then show ?thesis using assms done_ name by (cases rename_ok) auto
    qed
  qed
qed

lemma copy_reader:
  assumes "reader_inv L r xs" "pr_position r \<le> length xs" "length xs - pr_position r < fuel"
  shows "copy_loop (reader_read L) (\<lambda>_. True) fuel r out = Some (Inr (out @ drop (pr_position r) xs))"
  using assms
proof (induction fuel arbitrary: r out)
  case (Suc fuel)
  let ?p = "pr_position r"
  let ?k = "read_size (seg_size (pr_header r)) (length xs) ?p (2 ^ 16)"
  obtain r' where r': "reader_read L r (2 ^ 16) = Inr (r', take ?k (drop ?p xs))" "reader_inv L r' xs"
    "pr_position r' = ?p + ?k"
    using reader_read_inv [OF Suc.prems(1) refl] by metis
  show ?case
  proof (cases "?p = length xs")
    case True
    then show ?thesis using r'(1) by simp
  next
    case False
    have "0 < seg_size (pr_header r)" using Suc.prems(1) by (simp add: reader_inv_def seg_size_pos)
    then have k: "0 < ?k" using False Suc.prems(2) by (intro read_size_pos) simp_all
    have k': "?p + ?k \<le> length xs" using Suc.prems(2) by (simp add: read_size_def)
    have piece: "take ?k (drop ?p xs) \<noteq> []" using k k' by simp
    have "copy_loop (reader_read L) (\<lambda>_. True) fuel r' (out @ take ?k (drop ?p xs))
        = Some (Inr ((out @ take ?k (drop ?p xs)) @ drop (?p + ?k) xs))"
      using Suc.IH [OF r'(2)] r'(3) k k' Suc.prems(3) by simp
    moreover have "take ?k (drop ?p xs) @ drop (?p + ?k) xs = drop ?p xs"
      using append_take_drop_id [of ?k "drop ?p xs"] by (simp add: add.commute)
    ultimately show ?thesis using r'(1) piece by simp
  qed
qed simp

text \<open>
  C13. A downloaded file can be exported: from a complete pool file, \<open>open_read\<close> followed by
  \<open>export_to_path\<close> writes exactly the plaintext to the destination (replacing what was there), with the
  number of reads bounded by the length of the file, provided the directory can be written and the
  first partial name is free.
\<close>

theorem stored_file_exports:
  assumes "pool_lib_ok L" and "wf_header h" and "xs \<noteq> []"
    and "path_of f = Inr p" and "pd_complete d f = Some (pool_file L key h xs)"
    and "fs (dir, name @ ''.partial.'' @ show_nat pid @ ''-'' @ show_nat (unat next)) = None"
    and "length xs = unat len"
  shows "\<exists>d' r. open_read L key d f = Inr (d', r)
     \<and> export_to_path L (reader_read L) (\<lambda>_. True) True True (length xs + 1) r fs (dir, Some name) pid next
         \<lparr>ec_file_size = len, ec_sha256_hex = None\<rparr>
       = Some (Inr (length xs), fs((dir, name) \<mapsto> xs), next + 1)"
proof -
  obtain d' r where r: "open_read L key d f = Inr (d', r)" "reader_inv L r xs" "pr_position r = 0"
    using open_read_pool_file [OF assms(1-5)] by metis
  let ?partial = "name @ ''.partial.'' @ show_nat pid @ ''-'' @ show_nat (unat next)"
  have partial: "create_own_partial fs (dir, Some name) pid True next = (Inr (fs((dir, ?partial) \<mapsto> []), ?partial), next + 1)"
  proof -
    have "(64 :: nat) = Suc 63" by simp
    then show ?thesis
      unfolding create_own_partial_def using assms(6) by (simp only: create_own_partial_loop.simps) (simp add: Let_def)
  qed
  have copy: "copy_loop (reader_read L) (\<lambda>_. True) (length xs + 1) r [] = Some (Inr xs)"
    using copy_reader [OF r(2), of "length xs + 1" "[]"] r(3) by simp
  have clean: "(fs((dir, ?partial) \<mapsto> []))((dir, ?partial) := None) = fs" using assms(6) by auto
  have "export_to_path L (reader_read L) (\<lambda>_. True) True True (length xs + 1) r fs (dir, Some name) pid next
         \<lparr>ec_file_size = len, ec_sha256_hex = None\<rparr>
       = Some (Inr (length xs), fs((dir, name) \<mapsto> xs), next + 1)"
    unfolding export_to_path_def partial sum.case prod.case copy option.map Let_def fst_conv snd_conv option.sel
    using assms(7) clean by (simp add: export_check_def)
  with r(1) show ?thesis by blast
qed

section \<open>Descriptions of one file\<close>

lemma ascii_lower_idem [simp]: "ascii_lower (ascii_lower c) = ascii_lower c"
proof (cases "65 \<le> (of_char c :: nat) \<and> (of_char c :: nat) \<le> 90")
  case True
  then have "of_char (char_of (of_char c + 32 :: nat) :: char) = (of_char c + 32 :: nat)" by simp
  then show ?thesis using True by (simp add: ascii_lower_def)
next
  case False
  then have "ascii_lower c = c" by (auto simp: ascii_lower_def)
  then show ?thesis by simp
qed

lemma eq_lowercase [simp]: "eq_ignore_ascii_case (to_ascii_lowercase a) b = eq_ignore_ascii_case a b"
  by (simp add: eq_ignore_ascii_case_def to_ascii_lowercase_def comp_def)

lemma strip_sha_sha [simp]:
  "strip_prefix ''sha256:'' (CHR ''s'' # CHR ''h'' # CHR ''a'' # CHR ''2'' # CHR ''5'' # CHR ''6'' # CHR '':'' # s) = Some s"
  by (simp add: strip_prefix_def)

lemma strip_sha_blake: "strip_prefix ''sha256:'' (''blake3:'' @ s) = None"
  by (simp add: strip_prefix_def)

text \<open>
  The key of a recorded file is the right one: the row a chunked event creates is taken for the
  same file as that event, before the download and after it finished with the declared size (also
  when the row got our own BLAKE3 hash), and an event with another chunk size, another size or another
  SHA-256 is not taken for it.
\<close>

lemma recorded_block_is_recognised:
  assumes "find_media t mxc = None" and "of_chunked_block b = Some d" and "media_begin t now mxc d = Inr (t', e)"
  shows "is_same_block e b
     \<and> (\<forall>later f s n v e'. find_media (media_finish t' later mxc f s (the (cb_file_size b)) n v) mxc = Some e'
         \<longrightarrow> is_same_block e' b)
     \<and> (\<forall>b'. is_same_block e b' \<longrightarrow> cb_chunk_size b' = cb_chunk_size b
         \<and> (cb_file_size b' = None \<or> cb_file_size b' = cb_file_size b)
         \<and> (\<forall>h h'. cb_sha256 b = Some h \<longrightarrow> h \<noteq> [] \<longrightarrow> cb_sha256 b' = Some h' \<longrightarrow> eq_ignore_ascii_case h h'))"
proof -
  obtain n where n: "cb_file_size b = Some n" and d: "mdesc_kind d = WbfChunked" "mdesc_hash d = block_hash (cb_sha256 b)"
    "mdesc_file_size d = Some n" "mdesc_chunk_size d = Some (cb_chunk_size b)"
    using assms(2) by (auto simp: of_chunked_block_def split: option.splits)
  let ?row = "\<lparr>me_id = next_row_id t, me_mxc = mxc, me_pool_file = None, me_name = mdesc_name d,
     me_mimetype = mdesc_mimetype d, me_hash = mdesc_hash d, me_kind = mdesc_kind d,
     me_verified = Unknown, me_file_size = mdesc_file_size d, me_chunk_size = mdesc_chunk_size d,
     me_segments_written = 0, me_complete = False, me_bytes_on_disk = 0,
     me_created_at = now, me_last_used_at = now, me_source_uri = None\<rparr>"
  have checks: "row_checks ?row" using d by (simp add: row_checks_def)
  have no_row: "find_media t mxc = None \<Longrightarrow> find_media (t @ [x]) mxc = Some x" if "me_mxc x = mxc" for x
    using that by (induction t) (auto simp: find_media_def split: if_splits)
  have none: "update_row t mxc f = t" for f
    using assms(1) unfolding update_row_def find_media_None by (intro map_idI) force
  have upd: "update_row (t @ [x]) mxc f = t @ [f x]" if "me_mxc x = mxc" for x f
    using that none by (simp add: update_row_def)
  have "media_row_id t now mxc d = Inr (t @ [?row], next_row_id t)"
    using assms(1) checks no_row [of ?row, OF _ assms(1)] upd [of ?row]
    by (cases "mdesc_hash d") (simp_all add: media_row_id_def)
  then have e: "t' = t @ [?row]" "e = ?row"
    using assms(3) no_row [of ?row, OF _ assms(1)] by (auto simp: media_begin_def)
  have same: "is_same_block e b"
    using n d by (auto simp: e is_same_block_def block_hash_def split: option.splits)
      (simp_all add: eq_ignore_ascii_case_def to_ascii_lowercase_def comp_def)
  have later: "is_same_block e' b"
    if "find_media (media_finish t' later mxc f s (the (cb_file_size b)) k v) mxc = Some e'" for later f s k v e'
  proof -
    have "e' = e\<lparr>me_pool_file := Some f, me_complete := True,
       me_segments_written := s, me_file_size := Some n, me_bytes_on_disk := k,
       me_last_used_at := later, me_verified := v,
       me_hash := (case me_hash e of None \<Rightarrow> Some (''blake3:'' @ f) | Some h \<Rightarrow> Some h)\<rparr>"
      using that n upd [of ?row] no_row [OF _ assms(1)] by (simp add: e media_finish_def)
    then show ?thesis
      using same n strip_sha_blake by (auto simp: is_same_block_def Let_def split: option.splits)
  qed
  have other: "is_same_block e b' \<Longrightarrow> cb_chunk_size b' = cb_chunk_size b
         \<and> (cb_file_size b' = None \<or> cb_file_size b' = cb_file_size b)
         \<and> (\<forall>h h'. cb_sha256 b = Some h \<longrightarrow> h \<noteq> [] \<longrightarrow> cb_sha256 b' = Some h' \<longrightarrow> eq_ignore_ascii_case h h')" for b'
    using n d by (auto simp: e is_same_block_def block_hash_def Let_def split: option.splits)
  show ?thesis using same later other by blast
qed

section \<open>The properties at concrete inputs\<close>

definition demo_cached :: media_entry where
  "demo_cached = demo_row\<lparr>me_pool_file := Some ''abcd'', me_complete := True, me_bytes_on_disk := 100,
     me_file_size := Some 3\<rparr>"

lemma demo_path: "path_of ''abcd'' = Inr (''ab'', ''abcd'')"
  by (simp add: path_of_def is_ascii_hexdigit_def get_range_def)

lemma demo_cached_ok: "media_table_ok [demo_cached]" "valid_names [demo_cached]" "small_rows [demo_cached]"
  by (simp_all add: media_table_ok_def demo_cached_def demo_row_def row_checks_def valid_names_def demo_path small_rows_def)

theorem collect_garbage_correct_witness:
  "\<exists>rep t' d'. collect_garbage [demo_cached] demo_dir 10 0 9 = (Inr rep, t', d')
     \<and> cleaned 0 9 [demo_cached] demo_dir t' d'
     \<and> (10 < gr_bytes_after rep \<longrightarrow> (\<forall>e\<in>set t'. me_complete e \<longrightarrow> is_protected 9 0 e \<or> is_open_file demo_dir e))"
proof -
  have "disk_sum [demo_cached] < 2 ^ 63"
    by (simp add: disk_sum_def group_max_def demo_cached_def)
  from collect_garbage_correct [OF demo_cached_ok(1,3,2) this, of 0 0 demo_dir 10 9] show ?thesis by simp blast
qed


theorem del_local_copy_exact_witness:
  "\<exists>d'. del_local_copy [demo_cached] demo_dir ''mxc://s/1'' [''m9''] = (Inr True, [], d') \<and> pd_complete d' ''abcd'' = None"
proof -
  have found: "find_media [demo_cached] ''mxc://s/1'' = Some demo_cached" by (simp add: find_media_def demo_cached_def demo_row_def)
  have name: "pending_name_of (me_id demo_cached) = ''m12''"
    by (simp add: demo_cached_def demo_row_def pending_name_of_def show_int_def show_nat.simps char_of_def bit_0)
  have row: "me_pool_file demo_cached = Some ''abcd''" by (simp add: demo_cached_def)
  have shut: "pd_open_readers demo_dir ''abcd'' = 0" by (simp add: demo_dir_def)
  from del_local_copy_exact [OF demo_cached_ok(1,2), where mxc = "''mxc://s/1''" and d = demo_dir and in_use = "[''m9'']"] found name row shut
  show ?thesis by (auto simp: Let_def)
qed

theorem export_all_or_nothing_witness:
  "(\<lambda>_ :: string \<times> string. None :: bytes option) = (\<lambda>_. None)
     \<and> snd (the (export_to_path demo_pool (\<lambda>(r :: bytes) n. Inr ([], r)) (\<lambda>_. True) True True 3 [1, 2]
          (\<lambda>_. None) (''d'', None) 7 0 \<lparr>ec_file_size = 2, ec_sha256_hex = None\<rparr>)) = ((\<lambda>_. None), 0)"
proof -
  have run: "export_to_path demo_pool (\<lambda>(r :: bytes) n. Inr ([], r)) (\<lambda>_. True) True True 3 [1, 2]
      (\<lambda>_. None) (''d'', None) 7 0 \<lparr>ec_file_size = 2, ec_sha256_hex = None\<rparr> = Some (Inl Usage, (\<lambda>_. None), 0)"
    by (simp add: export_to_path_def create_own_partial_def)
  from export_all_or_nothing [OF this] show ?thesis by (simp add: run)
qed

theorem stored_file_exports_witness:
  "\<exists>d' r. open_read demo_pool [1] demo_dir ''abcd'' = Inr (d', r)
     \<and> export_to_path demo_pool (reader_read demo_pool) (\<lambda>_. True) True True 4 r (\<lambda>_. None) (''d'', Some ''f'') 7 0
         \<lparr>ec_file_size = 3, ec_sha256_hex = None\<rparr>
       = Some (Inr 3, (\<lambda>_. None)((''d'', ''f'') \<mapsto> [1, 2, 3]), 1)"
proof -
  have h: "wf_header demo_small_header"
    by (simp add: wf_header_def demo_small_header_def POOL_NONCE_BASE_LEN_def)
  have "pd_complete demo_dir ''abcd'' = Some (pool_file demo_pool [1] demo_small_header [1, 2, 3])"
    by (simp add: demo_dir_def)
  have len: "length [1, 2, 3 :: byte] = 3" "length [1, 2, 3 :: byte] + 1 = 4" "unat (3 :: u64) = 3" by simp_all
  from stored_file_exports [OF demo_pool_ok h _ demo_path \<open>pd_complete demo_dir _ = _\<close>, unfolded len, of "\<lambda>_. None" "''d''" "''f''" 7 0 3, unfolded len]
  show ?thesis by (simp del: split_paired_Ex)
qed

theorem recorded_block_is_recognised_witness:
  "\<exists>t' e. media_begin [] 9 ''mxc://s/1'' (the (of_chunked_block demo_block)) = Inr (t', e) \<and> is_same_block e demo_block"
proof -
  have d: "of_chunked_block demo_block = Some (the (of_chunked_block demo_block))"
    by (simp add: of_chunked_block_def demo_block_simps)
  have "mdesc_kind (the (of_chunked_block demo_block)) = WbfChunked" "mdesc_hash (the (of_chunked_block demo_block)) = None"
    "mdesc_file_size (the (of_chunked_block demo_block)) = Some 6" "mdesc_chunk_size (the (of_chunked_block demo_block)) = Some 4"
    by (simp_all add: of_chunked_block_def demo_block_simps block_hash_def)
  then obtain t' e where b: "media_begin [] 9 ''mxc://s/1'' (the (of_chunked_block demo_block)) = Inr (t', e)"
    by (simp add: media_begin_def media_row_id_def find_media_def row_checks_def Let_def)
  show ?thesis using b recorded_block_is_recognised [OF _ d b] by (auto simp: find_media_def)
qed

end
