(* ===== verification/Session_Table.thy ===== *)
theory Session_Table
  imports Sdk_Error "HOL-Library.AList"
begin

text \<open>
  \<open>crates/wbf-sdk/src/sessions.rs\<close>: whose a received pack is.  The table maps session keys to sinks;
  each sink feeds the channel of one consumer, and the channels are a store indexed by the generation
  number of the registration, because a consumer keeps its channel when the table has dropped the
  sink.  The texts of the errors and the orphan sink (a diagnostic copy) are not modelled.
\<close>

section \<open>Keys, sinks and channels\<close>

datatype session_key = Session_Key u64 | Reply_Key u64 u32

datatype route = Route_Oneshot | Route_Stream | Route_Subscription | Route_Unmatched

datatype delivery = Kept | Finished

datatype pack_sink = Oneshot_Sink | Stream_Sink | Subscription_Sink

text \<open>
  A channel between a sink and its consumer: the packs not read yet, the answer of a one-shot, whether
  the sink still holds its sender and the consumer its receiver, the reason of the end and the gap flag.
\<close>

record channel =
  ch_inbox :: "pack list"
  ch_answer :: "(sdk_error + pack) option"
  ch_sender :: bool
  ch_receiver :: bool
  ch_end :: "sdk_error option"
  ch_gap :: bool

definition new_channel :: channel where
  "new_channel = \<lparr>ch_inbox = [], ch_answer = None, ch_sender = True, ch_receiver = True, ch_end = None, ch_gap = False\<rparr>"

definition take_end_reason :: "channel \<Rightarrow> channel \<times> sdk_error option" where
  "take_end_reason ch = (ch\<lparr>ch_end := None\<rparr>, ch_end ch)"

definition set_end_reason :: "channel \<Rightarrow> sdk_error \<Rightarrow> channel" where
  "set_end_reason ch e = (if ch_end ch = None then ch\<lparr>ch_end := Some e\<rparr> else ch)"

definition STREAM_QUEUE_PACKS :: nat where "STREAM_QUEUE_PACKS = 256"
definition SUBSCRIPTION_QUEUE_PACKS :: nat where "SUBSCRIPTION_QUEUE_PACKS = 64"

definition ACK :: byte where "ACK = 0x02"
definition ERROR :: byte where "ERROR = 0x03"
definition PONG :: byte where "PONG = 0x05"

definition is_control_error :: "pack \<Rightarrow> bool" where
  "is_control_error p \<longleftrightarrow> pk_kind p = Control \<and> pk_subtype p = ERROR"

definition is_session_end :: "pack \<Rightarrow> bool" where
  "is_session_end p \<longleftrightarrow> pk_flags p AND IS_LAST \<noteq> 0 \<or> is_control_error p"

text \<open>\<open>mpsc::Sender::try_send\<close> into a channel of the given capacity.\<close>

datatype send_result = Sent | Full | Closed

definition try_send :: "nat \<Rightarrow> channel \<Rightarrow> pack \<Rightarrow> send_result \<times> channel" where
  "try_send capacity ch p =
     (if \<not> ch_receiver ch then (Closed, ch)
      else if capacity \<le> length (ch_inbox ch) then (Full, ch)
      else (Sent, ch\<lparr>ch_inbox := ch_inbox ch @ [p]\<rparr>))"

text \<open>\<open>oneshot::Sender::send\<close>: consumes the sender.\<close>

definition oneshot_send :: "channel \<Rightarrow> sdk_error + pack \<Rightarrow> channel" where
  "oneshot_send ch r =
     (if ch_sender ch then
        ch\<lparr>ch_sender := False, ch_answer := (if ch_receiver ch then Some r else ch_answer ch)\<rparr>
      else ch)"

fun sink_route :: "pack_sink \<Rightarrow> route" where
  "sink_route Oneshot_Sink = Route_Oneshot"
| "sink_route Stream_Sink = Route_Stream"
| "sink_route Subscription_Sink = Route_Subscription"

fun deliver :: "pack_sink \<Rightarrow> channel \<Rightarrow> pack \<Rightarrow> channel \<times> delivery" where
  "deliver Oneshot_Sink ch p = (oneshot_send ch (Inr p), Finished)"
| "deliver Stream_Sink ch p =
     (if \<not> ch_sender ch then (ch, Finished)
      else let ends = is_session_end p in
        case try_send STREAM_QUEUE_PACKS ch p of
          (Sent, ch1) \<Rightarrow> (ch1, if ends then Finished else Kept)
        | (Full, ch1) \<Rightarrow> ((set_end_reason ch1 Protocol)\<lparr>ch_sender := False\<rparr>, Finished)
        | (Closed, ch1) \<Rightarrow> (ch1, Finished))"
| "deliver Subscription_Sink ch p =
     (if \<not> ch_sender ch then (ch, Finished)
      else let ends = is_control_error p in
        case try_send SUBSCRIPTION_QUEUE_PACKS ch p of
          (Sent, ch1) \<Rightarrow> (ch1, if ends then Finished else Kept)
        | (Full, ch1) \<Rightarrow>
            if ends then (set_end_reason (ch1\<lparr>ch_gap := True\<rparr>) Protocol, Finished)
            else (ch1\<lparr>ch_gap := True\<rparr>, Kept)
        | (Closed, ch1) \<Rightarrow> (ch1, Finished))"

text \<open>Failing a sink consumes it: its sender is gone afterwards.\<close>

fun fail_sink :: "pack_sink \<Rightarrow> channel \<Rightarrow> sdk_error \<Rightarrow> channel" where
  "fail_sink Oneshot_Sink ch e = oneshot_send ch (Inl e)"
| "fail_sink Stream_Sink ch e = (set_end_reason ch e)\<lparr>ch_sender := False\<rparr>"
| "fail_sink Subscription_Sink ch e = (set_end_reason ch e)\<lparr>ch_sender := False\<rparr>"

section \<open>The table\<close>

record entry =
  en_generation :: u64
  en_sink :: pack_sink

record session_table =
  st_entries :: "(session_key \<times> entry) list"
  st_next_generation :: u64
  st_unmatched :: u64
  st_channels :: "u64 \<Rightarrow> channel"

definition table_new :: session_table where
  "table_new = \<lparr>st_entries = [], st_next_generation = 0, st_unmatched = 0, st_channels = (\<lambda>_. new_channel)\<rparr>"

abbreviation find_entry :: "session_table \<Rightarrow> session_key \<Rightarrow> entry option" where
  "find_entry t k \<equiv> map_of (st_entries t) k"

abbreviation set_channel :: "session_table \<Rightarrow> u64 \<Rightarrow> channel \<Rightarrow> session_table" where
  "set_channel t g ch \<equiv> t\<lparr>st_channels := (st_channels t)(g := ch)\<rparr>"

definition register :: "session_table \<Rightarrow> session_key \<Rightarrow> pack_sink \<Rightarrow> sdk_error + session_table \<times> u64" where
  "register t k sink =
     (if find_entry t k \<noteq> None then Inl Usage
      else
        let g = st_next_generation t + 1 in
        Inr (t\<lparr>st_next_generation := g,
               st_entries := (k, \<lparr>en_generation = g, en_sink = sink\<rparr>) # st_entries t,
               st_channels := (st_channels t)(g := new_channel)\<rparr>, g))"

text \<open>The callers drop the sink \<open>remove_if\<close> returns, so its sender goes with it.\<close>

definition remove_if :: "session_table \<Rightarrow> session_key \<Rightarrow> u64 \<Rightarrow> session_table \<times> bool" where
  "remove_if t k g =
     (case find_entry t k of
        None \<Rightarrow> (t, False)
      | Some e \<Rightarrow>
          if en_generation e \<noteq> g then (t, False)
          else ((set_channel t g ((st_channels t g)\<lparr>ch_sender := False\<rparr>))
                  \<lparr>st_entries := AList.delete k (st_entries t)\<rparr>, True))"

definition find_key :: "session_table \<Rightarrow> pack \<Rightarrow> session_key option" where
  "find_key t p =
     (if pk_id p \<noteq> 0 \<and> find_entry t (Session_Key (pk_id p)) \<noteq> None then Some (Session_Key (pk_id p))
      else
        let exact = Reply_Key (pk_id p) (pk_seq p) in
        if find_entry t exact \<noteq> None then Some exact
        else
          let is_control_response = (pk_kind p = Control \<and> pk_flags p AND IS_RESPONSE \<noteq> 0);
              create_shaped = Reply_Key 0 (pk_seq p)
          in if is_control_response \<and> find_entry t create_shaped \<noteq> None then Some create_shaped else None)"

definition classify :: "session_table \<Rightarrow> pack \<Rightarrow> session_key option \<times> route" where
  "classify t p =
     (case find_key t p of
        None \<Rightarrow> (None, Route_Unmatched)
      | Some k \<Rightarrow>
          (Some k, case find_entry t k of None \<Rightarrow> Route_Unmatched | Some e \<Rightarrow> sink_route (en_sink e)))"

definition saturating_inc :: "u64 \<Rightarrow> u64" where
  "saturating_inc n = (if n = - 1 then n else n + 1)"

definition dispatch :: "session_table \<Rightarrow> pack \<Rightarrow> session_table" where
  "dispatch t p =
     (case find_key t p of
        None \<Rightarrow> t\<lparr>st_unmatched := saturating_inc (st_unmatched t)\<rparr>
      | Some k \<Rightarrow>
          (case find_entry t k of
             None \<Rightarrow> t
           | Some e \<Rightarrow>
               (case deliver (en_sink e) (st_channels t (en_generation e)) p of
                  (ch, Kept) \<Rightarrow> set_channel t (en_generation e) ch
                | (ch, Finished) \<Rightarrow>
                    (set_channel t (en_generation e) (ch\<lparr>ch_sender := False\<rparr>))
                      \<lparr>st_entries := AList.delete k (st_entries t)\<rparr>)))"

definition fail_entry :: "session_key \<times> entry \<Rightarrow> (u64 \<Rightarrow> channel) \<Rightarrow> u64 \<Rightarrow> channel" where
  "fail_entry x chs =
     chs(en_generation (snd x) := fail_sink (en_sink (snd x)) (chs (en_generation (snd x))) Network)"

definition fail_all :: "session_table \<Rightarrow> session_table" where
  "fail_all t = t\<lparr>st_entries := [], st_channels := fold fail_entry (st_entries t) (st_channels t)\<rparr>"

section \<open>The consumers\<close>

text \<open>
  What \<open>SessionInbox::next\<close> finds at one moment: \<open>None\<close> while it has to wait, otherwise the next pack,
  the end, or the reason of the end (taken away by reading it).
\<close>

definition inbox_next :: "session_table \<Rightarrow> u64 \<Rightarrow> (sdk_error + pack option) option \<times> session_table" where
  "inbox_next t g =
     (let ch = st_channels t g in
      case ch_inbox ch of
        p # ps \<Rightarrow> (Some (Inr (Some p)), set_channel t g (ch\<lparr>ch_inbox := ps\<rparr>))
      | [] \<Rightarrow>
          if ch_sender ch then (None, t)
          else case take_end_reason ch of
            (ch1, Some e) \<Rightarrow> (Some (Inl e), set_channel t g ch1)
          | (ch1, None) \<Rightarrow> (Some (Inr None), set_channel t g ch1))"

definition take_gap :: "session_table \<Rightarrow> u64 \<Rightarrow> bool \<times> session_table" where
  "take_gap t g = (ch_gap (st_channels t g), set_channel t g ((st_channels t g)\<lparr>ch_gap := False\<rparr>))"

text \<open>\<open>PendingReply::wait\<close> at one moment: an answer, or \<open>Network\<close> when the sender is gone without one.\<close>

definition pending_wait :: "session_table \<Rightarrow> u64 \<Rightarrow> (sdk_error + pack) option" where
  "pending_wait t g =
     (let ch = st_channels t g in
      case ch_answer ch of
        Some r \<Rightarrow> Some r
      | None \<Rightarrow> if ch_sender ch then None else Some (Inl Network))"

text \<open>Dropping a \<open>PendingReply\<close> or a \<open>SessionInbox\<close>: the entry goes when it is still its own.\<close>

definition drop_handle :: "session_table \<Rightarrow> session_key \<Rightarrow> u64 \<Rightarrow> session_table" where
  "drop_handle t k g =
     (let t1 = fst (remove_if t k g) in set_channel t1 g ((st_channels t1 g)\<lparr>ch_receiver := False\<rparr>))"

section \<open>Responses\<close>

definition UPLOAD_CREATE :: byte where "UPLOAD_CREATE = 0x01"

text \<open>\<open>read_code\<close> reads the code out of the JSON of an error pack (\<open>server_error\<close>).\<close>

definition expect_ack :: "(bytes \<Rightarrow> u64 option) \<Rightarrow> pack \<Rightarrow> pack \<Rightarrow> sdk_error + pack" where
  "expect_ack read_code request response =
     (if pk_kind response \<noteq> Control \<or> pk_flags response AND IS_RESPONSE = 0 then Inl Protocol
      else
        let is_create = (pk_kind request = Upload \<and> pk_subtype request = UPLOAD_CREATE);
            id_echoed = (pk_id response = pk_id request \<or> is_create)
        in if \<not> id_echoed \<or> pk_seq response \<noteq> pk_seq request then Inl Protocol
           else if pk_subtype response = ACK \<or> pk_subtype response = PONG then Inr response
           else if pk_subtype response = ERROR then Inl (Server (read_code (pk_meta response)))
           else Inl Protocol)"

section \<open>Events\<close>

text \<open>Everything that can happen to a table, for the properties over whole lives.\<close>

datatype table_event =
    Ev_Register session_key pack_sink
  | Ev_Dispatch pack
  | Ev_Drop session_key u64
  | Ev_Next u64
  | Ev_Take_Gap u64
  | Ev_Fail_All

fun table_step :: "table_event \<Rightarrow> session_table \<Rightarrow> session_table" where
  "table_step (Ev_Register k sink) t = (case register t k sink of Inl _ \<Rightarrow> t | Inr (t1, _) \<Rightarrow> t1)"
| "table_step (Ev_Dispatch p) t = dispatch t p"
| "table_step (Ev_Drop k g) t = drop_handle t k g"
| "table_step (Ev_Next g) t = snd (inbox_next t g)"
| "table_step (Ev_Take_Gap g) t = snd (take_gap t g)"
| "table_step Ev_Fail_All t = fail_all t"

definition run_table :: "table_event list \<Rightarrow> session_table \<Rightarrow> session_table" where
  "run_table evs t = fold table_step evs t"

end
