(* ===== verification/Link.thy ===== *)
theory Link
  imports Session_Table
begin

text \<open>
  \<open>crates/wbf-sdk/src/link.rs\<close>: one connection, that is a session table, the queue of the send task and
  the counters its users share.  A function that awaits takes, for each point where it waits, the list
  of things the other tasks do meanwhile (\<open>link_event\<close>); every function is otherwise the code's sequence
  of steps.  Whether a wait ended by its time limit is read off the state after those events.
\<close>

definition SEND_QUEUE_PACKS :: nat where "SEND_QUEUE_PACKS = 16"
definition CORRUPT_FRAME_BUDGET :: u32 where "CORRUPT_FRAME_BUDGET = 8"
definition FIRST_LINE_SEQ :: u32 where "FIRST_LINE_SEQ = push_bit 31 1"
definition PING :: byte where "PING = 0x04"

record ack_policy =
  ap_attempts :: u32

definition once :: ack_policy where
  "once = \<lparr>ap_attempts = 1\<rparr>"

text \<open>
  \<open>lk_outgoing\<close> is what the send task has not taken yet and \<open>lk_writer\<close> that it still runs;
  \<open>lk_written\<close> is what it has given to the socket; \<open>lk_bad_frames\<close> is the read task's count.
\<close>

record link =
  lk_table :: session_table
  lk_closed :: bool
  lk_outgoing :: "bytes list"
  lk_written :: "bytes list"
  lk_writer :: bool
  lk_bad_frames :: u32
  lk_received :: u64
  lk_answered :: u64
  lk_next_seq :: u32
  lk_next_session :: u64

definition link_start :: link where
  "link_start = \<lparr>lk_table = table_new, lk_closed = False, lk_outgoing = [], lk_written = [], lk_writer = True,
     lk_bad_frames = 0, lk_received = 0, lk_answered = 0, lk_next_seq = FIRST_LINE_SEQ, lk_next_session = 0\<rparr>"

section \<open>Closing\<close>

text \<open>
  The first caller to set \<open>closed\<close> fails everybody in the table and aborts the tasks, which drops the
  receiving end of the queue; for every other caller it is a no-op.
\<close>

definition swap_closed :: "link \<Rightarrow> link \<times> bool" where
  "swap_closed lk = (lk\<lparr>lk_closed := True\<rparr>, lk_closed lk)"

definition fail_and_abort :: "link \<Rightarrow> link" where
  "fail_and_abort lk = lk\<lparr>lk_table := fail_all (lk_table lk), lk_writer := False, lk_outgoing := []\<rparr>"

definition shut_down :: "link \<Rightarrow> link" where
  "shut_down lk = (case swap_closed lk of (lk1, was_closed) \<Rightarrow> if was_closed then lk1 else fail_and_abort lk1)"

section \<open>The read task and the send task\<close>

definition is_pong :: "pack \<Rightarrow> bool" where
  "is_pong p \<longleftrightarrow> pk_kind p = Control \<and> pk_subtype p = PONG"

text \<open>One turn of \<open>read_and_dispatch\<close>; the task no longer runs when the link is closed.\<close>

definition read_frame :: "(bytes \<Rightarrow> u32) \<Rightarrow> sdk_error + bytes option \<Rightarrow> link \<Rightarrow> link" where
  "read_frame crc frame lk =
     (if lk_closed lk then lk
      else case frame of
        Inl e \<Rightarrow> shut_down lk
      | Inr None \<Rightarrow> shut_down lk
      | Inr (Some bs) \<Rightarrow>
          (case decode crc bs of
             Inr p \<Rightarrow>
               lk\<lparr>lk_bad_frames := 0, lk_received := lk_received lk + 1,
                  lk_answered := (if is_pong p then lk_answered lk else lk_answered lk + 1),
                  lk_table := dispatch (lk_table lk) p\<rparr>
           | Inl e \<Rightarrow>
               let bad = lk_bad_frames lk + 1; lk1 = lk\<lparr>lk_bad_frames := bad\<rparr>
               in if bad \<ge> CORRUPT_FRAME_BUDGET then shut_down lk1 else lk1))"

definition read_and_dispatch :: "(bytes \<Rightarrow> u32) \<Rightarrow> (sdk_error + bytes option) list \<Rightarrow> link \<Rightarrow> link" where
  "read_and_dispatch crc frames lk = fold (read_frame crc) frames lk"

text \<open>One turn of \<open>write_queued\<close>; the socket takes the bytes or not.\<close>

definition write_one :: "bool \<Rightarrow> link \<Rightarrow> link" where
  "write_one accepted lk =
     (if \<not> lk_writer lk then lk
      else case lk_outgoing lk of
        [] \<Rightarrow> lk
      | bs # rest \<Rightarrow>
          if accepted then lk\<lparr>lk_outgoing := rest, lk_written := lk_written lk @ [bs]\<rparr>
          else shut_down (lk\<lparr>lk_outgoing := rest\<rparr>))"

datatype link_event =
    Le_Read "sdk_error + bytes option"
  | Le_Write bool
  | Le_Table table_event
  | Le_Close

fun link_step :: "(bytes \<Rightarrow> u32) \<Rightarrow> link_event \<Rightarrow> link \<Rightarrow> link" where
  "link_step crc (Le_Read frame) lk = read_frame crc frame lk"
| "link_step crc (Le_Write accepted) lk = write_one accepted lk"
| "link_step crc (Le_Table ev) lk = lk\<lparr>lk_table := table_step ev (lk_table lk)\<rparr>"
| "link_step crc Le_Close lk = shut_down lk"

definition run_link :: "(bytes \<Rightarrow> u32) \<Rightarrow> link_event list \<Rightarrow> link \<Rightarrow> link" where
  "run_link crc evs lk = fold (link_step crc) evs lk"

section \<open>Numbers\<close>

definition next_seq :: "link \<Rightarrow> link \<times> u32" where
  "next_seq lk = (lk\<lparr>lk_next_seq := lk_next_seq lk + 1\<rparr>, lk_next_seq lk OR FIRST_LINE_SEQ)"

text \<open>The loop draws another number when it drew 0.\<close>

function next_session_from :: "u64 \<Rightarrow> u64 \<times> u64" where
  "next_session_from n =
     (let number = (n + 1) AND MAX_VALUE
      in if number \<noteq> 0 then (n + 1, number) else next_session_from (n + 1))"
  by pat_completeness auto

lemma odd_number: "odd (x AND MAX_VALUE) \<longleftrightarrow> odd x"
  using bit_and_iff [of x MAX_VALUE 0] by (simp add: MAX_VALUE_mask bit_0 even_mask_iff)

lemma session_number_again: "(n + 1) AND MAX_VALUE = 0 \<Longrightarrow> (n + 2) AND MAX_VALUE \<noteq> 0"
proof -
  assume "(n + 1) AND MAX_VALUE = 0"
  then have "even (n + 1)" using odd_number [of "n + 1"] by simp
  then have "odd (n + 2)" by simp
  then have "odd ((n + 2) AND MAX_VALUE)" by (simp add: odd_number)
  then show "(n + 2) AND MAX_VALUE \<noteq> 0" by (metis even_zero)
qed

termination next_session_from
  by (relation "measure (\<lambda>n. if (n + 1) AND MAX_VALUE = 0 then 1 else 0)")
    (auto dest: session_number_again simp: add.commute)

definition next_session_number :: "link \<Rightarrow> link \<times> u64" where
  "next_session_number lk =
     (let (n, number) = next_session_from (lk_next_session lk) in (lk\<lparr>lk_next_session := n\<rparr>, number))"

section \<open>Sending\<close>

text \<open>The queue takes the bytes, or its receiver is gone, or (\<open>None\<close>) there is no room yet.\<close>

definition enqueue :: "link \<Rightarrow> bytes \<Rightarrow> (sdk_error + link) option" where
  "enqueue lk bs =
     (if \<not> lk_writer lk then Some (Inl Network)
      else if length (lk_outgoing lk) < SEND_QUEUE_PACKS then Some (Inr (lk\<lparr>lk_outgoing := lk_outgoing lk @ [bs]\<rparr>))
      else None)"

definition send :: "(bytes \<Rightarrow> u32) \<Rightarrow> link_event list \<Rightarrow> link \<Rightarrow> pack \<Rightarrow> link \<times> (sdk_error + unit)" where
  "send crc env lk p =
     (if lk_closed lk then (lk, Inl Network)
      else case encode crc p of
        Inl e \<Rightarrow> (lk, Inl (sdk_of_encode_error e))
      | Inr bs \<Rightarrow>
          (let lk1 = run_link crc env lk in
           case enqueue lk1 bs of
             Some (Inr lk2) \<Rightarrow> (lk2, Inr ())
           | Some (Inl e) \<Rightarrow> (lk1, Inl e)
           | None \<Rightarrow> (lk1, Inl Network)))"

definition no_reply_error :: "link \<Rightarrow> sdk_error" where
  "no_reply_error lk = (if lk_closed lk then Network else Timeout)"

definition named_key :: "pack \<Rightarrow> sdk_error + session_key" where
  "named_key p = (if pk_id p = 0 then Inl Usage else Inr (Session_Key (pk_id p)))"

definition register_and_send ::
    "(bytes \<Rightarrow> u32) \<Rightarrow> link_event list \<Rightarrow> link \<Rightarrow> session_key \<Rightarrow> pack_sink \<Rightarrow> pack \<Rightarrow> link \<times> (sdk_error + u64)" where
  "register_and_send crc env lk key sink p =
     (case register (lk_table lk) key sink of
        Inl e \<Rightarrow> (lk, Inl e)
      | Inr (t, g) \<Rightarrow>
          (case send crc env (lk\<lparr>lk_table := t\<rparr>) p of
             (lk1, Inl e) \<Rightarrow> (lk1\<lparr>lk_table := fst (remove_if (lk_table lk1) key g)\<rparr>, Inl e)
           | (lk1, Inr u) \<Rightarrow> (lk1, Inr g)))"

definition send_request :: "(bytes \<Rightarrow> u32) \<Rightarrow> link_event list \<Rightarrow> link \<Rightarrow> pack \<Rightarrow> link \<times> (sdk_error + u64)" where
  "send_request crc env lk p = register_and_send crc env lk (Reply_Key (pk_id p) (pk_seq p)) Oneshot_Sink p"

definition open_stream :: "(bytes \<Rightarrow> u32) \<Rightarrow> link_event list \<Rightarrow> link \<Rightarrow> pack \<Rightarrow> link \<times> (sdk_error + u64)" where
  "open_stream crc env lk p =
     (case named_key p of Inl e \<Rightarrow> (lk, Inl e) | Inr key \<Rightarrow> register_and_send crc env lk key Stream_Sink p)"

definition subscribe :: "(bytes \<Rightarrow> u32) \<Rightarrow> link_event list \<Rightarrow> link \<Rightarrow> pack \<Rightarrow> link \<times> (sdk_error + u64)" where
  "subscribe crc env lk p =
     (case named_key p of Inl e \<Rightarrow> (lk, Inl e) | Inr key \<Rightarrow> register_and_send crc env lk key Subscription_Sink p)"

section \<open>Asking and waiting\<close>

text \<open>
  The attempts of \<open>request_with_policy\<close>: \<open>envs\<close> gives for each attempt what happens while it sends and
  while it waits.  \<open>left\<close> is how many attempts may still follow.
\<close>

fun policy_loop ::
    "(bytes \<Rightarrow> u32) \<Rightarrow> (nat \<Rightarrow> link_event list \<times> link_event list) \<Rightarrow> nat \<Rightarrow> nat \<Rightarrow> link \<Rightarrow> u64 \<Rightarrow> pack
       \<Rightarrow> link \<times> (sdk_error + pack)" where
  "policy_loop crc envs attempt left lk g p =
     (case send crc (fst (envs attempt)) lk p of
        (lk1, Inl e) \<Rightarrow> (lk1, Inl e)
      | (lk1, Inr u) \<Rightarrow>
          (let lk2 = run_link crc (snd (envs attempt)) lk1 in
           case pending_wait (lk_table lk2) g of
             Some r \<Rightarrow> (lk2, r)
           | None \<Rightarrow>
               (case left of
                  Suc n \<Rightarrow> policy_loop crc envs (attempt + 1) n lk2 g p
                | 0 \<Rightarrow> (lk2, Inl (no_reply_error lk2)))))"

definition request_with_policy ::
    "(bytes \<Rightarrow> u32) \<Rightarrow> (nat \<Rightarrow> link_event list \<times> link_event list) \<Rightarrow> link \<Rightarrow> pack \<Rightarrow> ack_policy \<Rightarrow> link \<times> (sdk_error + pack)" where
  "request_with_policy crc envs lk p policy =
     (let key = Reply_Key (pk_id p) (pk_seq p) in
      case register (lk_table lk) key Oneshot_Sink of
        Inl e \<Rightarrow> (lk, Inl e)
      | Inr (t, g) \<Rightarrow>
          (let attempts = max (ap_attempts policy) 1;
               (lk1, outcome) = policy_loop crc envs 1 (unat attempts - 1) (lk\<lparr>lk_table := t\<rparr>) g p
           in (lk1\<lparr>lk_table := fst (remove_if (lk_table lk1) key g)\<rparr>, outcome)))"

definition request ::
    "(bytes \<Rightarrow> u32) \<Rightarrow> (nat \<Rightarrow> link_event list \<times> link_event list) \<Rightarrow> link \<Rightarrow> pack \<Rightarrow> link \<times> (sdk_error + pack)" where
  "request crc envs lk p = request_with_policy crc envs lk p once"

text \<open>
  Waiting while the line is heard: each element of \<open>windows\<close> is what happens in one period of silence's
  length; \<open>None\<close> when the periods given are over and the wait goes on.
\<close>

fun silent_loop ::
    "(bytes \<Rightarrow> u32) \<Rightarrow> (link \<Rightarrow> u64) \<Rightarrow> link_event list list \<Rightarrow> link \<Rightarrow> u64 \<Rightarrow> link \<times> (sdk_error + pack) option" where
  "silent_loop crc heard [] lk g = (lk, None)"
| "silent_loop crc heard (w # ws) lk g =
     (let lk1 = run_link crc w lk in
      case pending_wait (lk_table lk1) g of
        Some r \<Rightarrow> (lk1, Some r)
      | None \<Rightarrow>
          if heard lk1 \<noteq> heard lk then silent_loop crc heard ws lk1 g
          else (lk1, Some (Inl (no_reply_error lk1))))"

definition request_until_silent ::
    "(bytes \<Rightarrow> u32) \<Rightarrow> link_event list \<Rightarrow> link_event list list \<Rightarrow> link \<Rightarrow> pack \<Rightarrow> link \<times> (sdk_error + pack) option" where
  "request_until_silent crc env windows lk p =
     (case send_request crc env lk p of
        (lk1, Inl e) \<Rightarrow> (lk1, Some (Inl e))
      | (lk1, Inr g) \<Rightarrow>
          (case silent_loop crc lk_answered windows lk1 g of
             (lk2, None) \<Rightarrow> (lk2, None)
           | (lk2, Some r) \<Rightarrow> (lk2\<lparr>lk_table := drop_handle (lk_table lk2) (Reply_Key (pk_id p) (pk_seq p)) g\<rparr>, Some r)))"

section \<open>The heartbeat\<close>

definition ping :: "u32 \<Rightarrow> pack" where
  "ping seq = \<lparr>pk_kind = Control, pk_subtype = PING, pk_flags = WANT_ACK, pk_id = 0, pk_seq = seq, pk_meta = [], pk_data = []\<rparr>"

text \<open>One beat; the flag says that the task goes on beating (\<open>None\<close>: still waiting for the \<open>Pong\<close>).\<close>

definition beat :: "(bytes \<Rightarrow> u32) \<Rightarrow> link_event list \<Rightarrow> link_event list list \<Rightarrow> link \<Rightarrow> link \<times> bool option" where
  "beat crc env windows lk =
     (if lk_closed lk then (lk, Some False)
      else
        let (lk0, seq) = next_seq lk in
        case send_request crc env lk0 (ping seq) of
          (lk1, Inl e) \<Rightarrow> if e = Usage then (lk1, Some True) else (shut_down lk1, Some False)
        | (lk1, Inr g) \<Rightarrow>
            (case silent_loop crc lk_received windows lk1 g of
               (lk2, None) \<Rightarrow> (lk2, None)
             | (lk2, Some (Inr pong)) \<Rightarrow> (lk2\<lparr>lk_table := drop_handle (lk_table lk2) (Reply_Key 0 seq) g\<rparr>, Some True)
             | (lk2, Some (Inl e)) \<Rightarrow> ((shut_down lk2)\<lparr>lk_table := drop_handle (lk_table (shut_down lk2)) (Reply_Key 0 seq) g\<rparr>, Some False)))"

end
