(* ===== verification/Session_Correct.thy ===== *)
theory Session_Correct
  imports Session_Table "HOL-Library.Sublist"
begin

text \<open>
  What the session table promises: a pack goes to the one session it names, every one-shot request is
  answered exactly once (a closed connection answers too), a handle that outlived its session cannot
  disturb the next one, and no stream or subscription loses a pack without its consumer being told.
\<close>

section \<open>The invariant\<close>

definition live :: "session_table \<Rightarrow> u64 \<Rightarrow> bool" where
  "live t g \<longleftrightarrow> g \<in> (en_generation \<circ> snd) ` set (st_entries t)"

definition issued :: "nat \<Rightarrow> u64 \<Rightarrow> bool" where
  "issued n g \<longleftrightarrow> 0 < unat g \<and> unat g \<le> n"

text \<open>\<open>n\<close> is the number of registrations so far; the counter has not wrapped.\<close>

definition table_inv :: "nat \<Rightarrow> session_table \<Rightarrow> bool" where
  "table_inv n t \<longleftrightarrow>
     n < 2 ^ 64 \<and> st_next_generation t = of_nat n
     \<and> distinct (map fst (st_entries t)) \<and> distinct (map (en_generation \<circ> snd) (st_entries t))
     \<and> (\<forall>(k, e)\<in>set (st_entries t). issued n (en_generation e) \<and> ch_sender (st_channels t (en_generation e))
          \<and> ch_answer (st_channels t (en_generation e)) = None)
     \<and> (\<forall>g. issued n g \<and> \<not> live t g \<longrightarrow> \<not> ch_sender (st_channels t g))"

lemma live_update [simp]: "live (t\<lparr>st_channels := f\<rparr>) g = live t g"
  by (simp add: live_def)

lemma table_inv_new: "table_inv 0 table_new"
  by (auto simp: table_inv_def table_new_def issued_def)

lemma entry_live: "find_entry t k = Some e \<Longrightarrow> live t (en_generation e)"
  by (force simp: live_def dest: map_of_SomeD)

lemma delete_entries:
  assumes "distinct (map fst es)" "distinct (map (en_generation \<circ> snd) es)" "map_of es k = Some e"
  shows "set (AList.delete k es) = set es - {(k, e)}"
    and "(en_generation \<circ> snd) ` set (AList.delete k es) = (en_generation \<circ> snd) ` set es - {en_generation e}"
    and "distinct (map fst (AList.delete k es))" and "distinct (map (en_generation \<circ> snd) (AList.delete k es))"
proof -
  have mem: "(k, e) \<in> set es" using assms(3) by (rule map_of_SomeD)
  have del: "AList.delete k es = filter (\<lambda>p. fst p \<noteq> k) es" by (auto simp: AList.delete_eq case_prod_unfold intro: filter_cong)
  have only: "p = (k, e)" if "p \<in> set es" "fst p = k" for p
  proof -
    have "(k, snd p) \<in> set es" using that by (metis prod.collapse)
    then have "snd p = e" using map_of_is_SomeI [OF assms(1)] assms(3) by fastforce
    then show ?thesis using that(2) by (metis prod.collapse)
  qed
  show set_eq: "set (AList.delete k es) = set es - {(k, e)}" by (auto simp: del dest: only)
  show "(en_generation \<circ> snd) ` set (AList.delete k es) = (en_generation \<circ> snd) ` set es - {en_generation e}"
  proof -
    have "inj_on (en_generation \<circ> snd) (set es)" using assms(2) by (simp only: distinct_map)
    from inj_on_image_set_diff [OF this, of "set es" "{(k, e)}"] mem show ?thesis unfolding set_eq by simp
  qed
  show "distinct (map fst (AList.delete k es))" "distinct (map (en_generation \<circ> snd) (AList.delete k es))"
    using assms(1,2) by (simp_all add: del distinct_map_filter)
qed

lemma generation_key:
  assumes "table_inv n t" "find_entry t k = Some e" "find_entry t k' = Some e'" "en_generation e = en_generation e'"
  shows "k' = k \<and> e' = e"
proof -
  have "(k, e) \<in> set (st_entries t)" "(k', e') \<in> set (st_entries t)" using assms(2,3) by (auto dest: map_of_SomeD)
  then show ?thesis using assms(1,4) by (force simp: table_inv_def distinct_map inj_on_def)
qed

text \<open>An entry goes and its sender with it.\<close>

lemma finish_inv:
  assumes inv: "table_inv n t" and e: "find_entry t k = Some e" and ch: "\<not> ch_sender ch"
  defines "t' \<equiv> (set_channel t (en_generation e) ch)\<lparr>st_entries := AList.delete k (st_entries t)\<rparr>"
  shows "table_inv n t'" and "live t' g \<longleftrightarrow> live t g \<and> g \<noteq> en_generation e"
proof -
  have d: "distinct (map fst (st_entries t))" "distinct (map (en_generation \<circ> snd) (st_entries t))"
    using inv by (simp_all add: table_inv_def)
  note del = delete_entries [OF d e]
  have mem: "(k, e) \<in> set (st_entries t)" using e by (rule map_of_SomeD)
  have other: "en_generation e' \<noteq> en_generation e" if "(k', e') \<in> set (st_entries t) - {(k, e)}" for k' e'
    using that mem d(2) by (force simp: distinct_map inj_on_def)
  show lv: "live t' g \<longleftrightarrow> live t g \<and> g \<noteq> en_generation e" for g
    unfolding live_def t'_def using del(2) by simp
  show "table_inv n t'"
    unfolding table_inv_def
  proof (intro conjI allI ballI impI)
    fix x assume "x \<in> set (st_entries t')"
    then have x: "x \<in> set (st_entries t) - {(k, e)}" by (simp add: t'_def del(1))
    obtain k' e' where "x = (k', e')" by (cases x)
    with x other [of k' e'] inv show "case x of (k, e) \<Rightarrow> issued n (en_generation e) \<and> ch_sender (st_channels t' (en_generation e))
        \<and> ch_answer (st_channels t' (en_generation e)) = None"
      by (auto simp: table_inv_def t'_def)
  next
    fix g assume g: "issued n g \<and> \<not> live t' g"
    show "\<not> ch_sender (st_channels t' g)"
    proof (cases "g = en_generation e")
      case False
      then have "\<not> live t g" using g lv by blast
      then show ?thesis using False g inv by (simp add: table_inv_def t'_def)
    qed (simp add: ch t'_def)
  qed (use inv del in \<open>simp_all add: t'_def table_inv_def\<close>)
qed

text \<open>A live channel changes and stays live.\<close>

lemma keep_inv:
  assumes inv: "table_inv n t"
    and ch: "ch_sender ch = ch_sender (st_channels t g)" "ch_answer ch = ch_answer (st_channels t g)"
  shows "table_inv n (set_channel t g ch)" and "live (set_channel t g ch) g' = live t g'"
  using inv ch by (auto simp: table_inv_def live_def split: prod.splits)

lemma deliver_facts:
  assumes "deliver sink ch p = (ch', d)"
  shows "d = Kept \<Longrightarrow> ch_sender ch' = ch_sender ch \<and> ch_answer ch' = ch_answer ch \<and> sink \<noteq> Oneshot_Sink"
  using assms
  by (cases sink) (auto simp: try_send_def Let_def set_end_reason_def split: if_splits)

lemma register_inv:
  assumes inv: "table_inv n t" and reg: "register t k sink = Inr (t', g)" and n: "n + 1 < 2 ^ 64"
  shows "table_inv (n + 1) t'" and "live t' g' \<longleftrightarrow> live t g' \<or> g' = g" and "unat g = n + 1"
    and "find_entry t' k = Some \<lparr>en_generation = g, en_sink = sink\<rparr>" and "st_channels t' = (st_channels t)(g := new_channel)"
proof -
  have free: "find_entry t k = None" using reg by (auto simp: register_def split: if_splits)
  then have g: "g = of_nat (n + 1)"
    and t': "t' = t\<lparr>st_next_generation := g, st_entries := (k, \<lparr>en_generation = g, en_sink = sink\<rparr>) # st_entries t,
               st_channels := (st_channels t)(g := new_channel)\<rparr>"
    using reg inv by (auto simp: register_def Let_def table_inv_def add.commute)
  show ung: "unat g = n + 1" using n unfolding g by (simp add: unat_of_nat take_bit_nat_eq_self del: of_nat_Suc of_nat_add)
  show "find_entry t' k = Some \<lparr>en_generation = g, en_sink = sink\<rparr>" "st_channels t' = (st_channels t)(g := new_channel)"
    by (simp_all add: t')
  have new: "\<not> issued n g" using ung by (simp add: issued_def)
  have new_live: "\<not> live t g" using new inv by (auto simp: live_def table_inv_def)
  show lv: "live t' g' \<longleftrightarrow> live t g' \<or> g' = g" for g' by (auto simp: live_def t')
  have iss: "issued (n + 1) g' \<longleftrightarrow> issued n g' \<or> g' = g" for g'
    using ung by (auto simp: issued_def le_Suc_eq word_unat_eq_iff)
  show "table_inv (n + 1) t'"
    unfolding table_inv_def
  proof (intro conjI allI ballI impI)
    show "distinct (map fst (st_entries t'))"
      using inv free by (simp add: t' table_inv_def map_of_eq_None_iff)
    show "distinct (map (en_generation \<circ> snd) (st_entries t'))"
      using inv new_live by (simp add: t' table_inv_def live_def)
    fix x assume x: "x \<in> set (st_entries t')"
    show "case x of (k, e) \<Rightarrow> issued (n + 1) (en_generation e) \<and> ch_sender (st_channels t' (en_generation e))
        \<and> ch_answer (st_channels t' (en_generation e)) = None"
    proof (cases "x \<in> set (st_entries t)")
      case True
      then have "en_generation (snd x) \<noteq> g" using new_live by (auto simp: live_def)
      moreover obtain k' e' where "x = (k', e')" by (cases x)
      ultimately show ?thesis using True inv by (auto simp: iss [simplified] table_inv_def t')
    next
      case False
      with x show ?thesis by (auto simp: t' iss [simplified] new_channel_def)
    qed
  next
    fix g' assume "issued (n + 1) g' \<and> \<not> live t' g'"
    then have "issued n g'" "\<not> live t g'" "g' \<noteq> g" unfolding iss lv by blast+
    then show "\<not> ch_sender (st_channels t' g')" using inv by (simp add: table_inv_def t')
  qed (use n g in \<open>simp_all add: t'\<close>)
qed

section \<open>Each operation\<close>

lemma fail_sink_facts:
  "\<not> ch_sender (fail_sink sink ch e)"
  "sink = Oneshot_Sink \<Longrightarrow> ch_sender ch \<Longrightarrow> ch_receiver ch \<Longrightarrow> ch_answer (fail_sink sink ch e) = Some (Inl e)"
  "sink \<noteq> Oneshot_Sink \<Longrightarrow> ch_end (fail_sink sink ch e) \<noteq> None"
  "ch_inbox (fail_sink sink ch e) = ch_inbox ch" "ch_gap (fail_sink sink ch e) = ch_gap ch"
  "ch_receiver (fail_sink sink ch e) = ch_receiver ch"
  by (cases sink; simp add: oneshot_send_def set_end_reason_def)+

lemma fail_all_channels:
  assumes "distinct (map (en_generation \<circ> snd) es)"
  shows "(k, e) \<in> set es \<Longrightarrow>
      fold fail_entry es chs (en_generation e)
        = fail_sink (en_sink e) (chs (en_generation e)) Network"
    and "g \<notin> (en_generation \<circ> snd) ` set es \<Longrightarrow>
      fold fail_entry es chs g = chs g"
proof -
  have other: "g \<notin> (en_generation \<circ> snd) ` set es \<Longrightarrow> fold fail_entry es chs g = chs g" for es chs g
    by (induction es arbitrary: chs) (auto simp: fail_entry_def)
  then show "g \<notin> (en_generation \<circ> snd) ` set es \<Longrightarrow> fold fail_entry es chs g = chs g" .
  show "fold fail_entry es chs (en_generation e) = fail_sink (en_sink e) (chs (en_generation e)) Network" if "(k, e) \<in> set es"
    using that assms
  proof (induction es arbitrary: chs)
    case (Cons x es)
    show ?case
    proof (cases "(k, e) \<in> set es")
      case True
      then have "en_generation (snd x) \<noteq> en_generation e" using Cons.prems(2) by force
      then show ?thesis using Cons.IH [OF True, of "fail_entry x chs"] Cons.prems(2) by (simp add: fail_entry_def)
    next
      case False
      then have x: "x = (k, e)" using Cons.prems(1) by simp
      then have "en_generation e \<notin> (en_generation \<circ> snd) ` set es" using Cons.prems(2) by simp
      from other [OF this, of "fail_entry x chs"]
      have "fold fail_entry (x # es) chs (en_generation e) = fail_entry x chs (en_generation e)" by simp
      also have "\<dots> = fail_sink (en_sink e) (chs (en_generation e)) Network" by (simp add: x fail_entry_def)
      finally show ?thesis .
    qed
  qed simp
qed

lemma fail_all_inv:
  assumes inv: "table_inv n t"
  shows "table_inv n (fail_all t)" and "\<not> live (fail_all t) g"
    and "(k, e) \<in> set (st_entries t) \<Longrightarrow>
      st_channels (fail_all t) (en_generation e) = fail_sink (en_sink e) (st_channels t (en_generation e)) Network"
    and "\<not> live t g \<Longrightarrow> st_channels (fail_all t) g = st_channels t g"
proof -
  have d: "distinct (map (en_generation \<circ> snd) (st_entries t))" using inv by (simp add: table_inv_def)
  show 1: "(k, e) \<in> set (st_entries t) \<Longrightarrow>
      st_channels (fail_all t) (en_generation e) = fail_sink (en_sink e) (st_channels t (en_generation e)) Network" for k e
    using fail_all_channels(1) [OF d] by (simp add: fail_all_def)
  show 2: "\<not> live t g \<Longrightarrow> st_channels (fail_all t) g = st_channels t g" for g
    using fail_all_channels(2) [OF d] unfolding live_def by (simp add: fail_all_def)
  show "\<not> live (fail_all t) g" for g by (simp add: live_def fail_all_def)
  have "\<not> ch_sender (st_channels (fail_all t) g)" if "issued n g" for g
  proof (cases "live t g")
    case True
    then obtain k e where "(k, e) \<in> set (st_entries t)" "g = en_generation e" by (auto simp: live_def)
    then show ?thesis using 1 fail_sink_facts(1) by simp
  next
    case False
    then show ?thesis using 2 that inv by (simp add: table_inv_def)
  qed
  then show "table_inv n (fail_all t)"
    using inv by (auto simp: table_inv_def fail_all_def)
qed

lemma dispatch_cases:
  assumes inv: "table_inv n t"
  obtains (unmatched) "find_key t p = None" "dispatch t p = t\<lparr>st_unmatched := saturating_inc (st_unmatched t)\<rparr>"
  | (kept) k e ch where "find_key t p = Some k" "find_entry t k = Some e"
      "deliver (en_sink e) (st_channels t (en_generation e)) p = (ch, Kept)"
      "dispatch t p = set_channel t (en_generation e) ch"
  | (finished) k e ch where "find_key t p = Some k" "find_entry t k = Some e"
      "deliver (en_sink e) (st_channels t (en_generation e)) p = (ch, Finished)"
      "dispatch t p = (set_channel t (en_generation e) (ch\<lparr>ch_sender := False\<rparr>))\<lparr>st_entries := AList.delete k (st_entries t)\<rparr>"
proof (cases "find_key t p")
  case None
  then show ?thesis by (intro unmatched) (simp_all add: dispatch_def)
next
  case (Some k)
  then obtain e where e: "find_entry t k = Some e" by (auto simp: find_key_def Let_def split: if_splits)
  obtain ch d where "deliver (en_sink e) (st_channels t (en_generation e)) p = (ch, d)" by fastforce
  then show ?thesis using Some e kept finished by (cases d) (auto simp: dispatch_def)
qed

lemma dispatch_inv:
  assumes inv: "table_inv n t"
  shows "table_inv n (dispatch t p)" and "live (dispatch t p) g \<Longrightarrow> live t g"
    and "\<not> live t g \<Longrightarrow> st_channels (dispatch t p) g = st_channels t g"
proof -
  have "table_inv n (dispatch t p) \<and> (live (dispatch t p) g \<longrightarrow> live t g)
     \<and> (\<not> live t g \<longrightarrow> st_channels (dispatch t p) g = st_channels t g)" for g
    using inv
  proof (cases rule: dispatch_cases [of n t p])
    case unmatched
    then show ?thesis using inv by (simp add: table_inv_def live_def)
  next
    case (kept k e ch)
    from deliver_facts [OF kept(3)] keep_inv [OF inv, of ch "en_generation e"] entry_live [OF kept(2)]
    show ?thesis unfolding kept(4) by auto
  next
    case (finished k e ch)
    have "\<not> ch_sender (ch\<lparr>ch_sender := False\<rparr>)" by simp
    from finish_inv [OF inv finished(2) this] entry_live [OF finished(2)] show ?thesis
      unfolding finished(4) by auto
  qed
  then show "table_inv n (dispatch t p)" "live (dispatch t p) g \<Longrightarrow> live t g"
    "\<not> live t g \<Longrightarrow> st_channels (dispatch t p) g = st_channels t g" by blast+
qed

lemma drop_inv:
  assumes inv: "table_inv n t"
  shows "table_inv n (drop_handle t k g)" and "live (drop_handle t k g) g' \<Longrightarrow> live t g'"
    and "ch_answer (st_channels (drop_handle t k g) g') = ch_answer (st_channels t g')"
    and "\<not> live t g \<Longrightarrow> st_entries (drop_handle t k g) = st_entries t"
    and "g' \<noteq> g \<Longrightarrow> st_channels (drop_handle t k g) g' = st_channels t g' \<and> (live (drop_handle t k g) g' \<longleftrightarrow> live t g')"
proof -
  let ?t = "fst (remove_if t k g)"
  have r: "table_inv n ?t \<and> (\<forall>g'. live ?t g' \<longrightarrow> live t g') \<and> (\<forall>g'. ch_answer (st_channels ?t g') = ch_answer (st_channels t g'))
     \<and> (\<not> live t g \<longrightarrow> ?t = t) \<and> (\<forall>g'. g' \<noteq> g \<longrightarrow> st_channels ?t g' = st_channels t g' \<and> (live ?t g' \<longleftrightarrow> live t g'))"
  proof (cases "find_entry t k")
    case None
    then show ?thesis using inv by (simp add: remove_if_def)
  next
    case (Some e)
    have "\<not> ch_sender ((st_channels t (en_generation e))\<lparr>ch_sender := False\<rparr>)" by simp
    from finish_inv [OF inv Some this] entry_live [OF Some] Some inv show ?thesis
      by (auto simp: remove_if_def)
  qed
  have keep: "table_inv n (set_channel ?t g ((st_channels ?t g)\<lparr>ch_receiver := False\<rparr>))"
    "live (set_channel ?t g ((st_channels ?t g)\<lparr>ch_receiver := False\<rparr>)) g' = live ?t g'" for g'
    using r by (auto intro: keep_inv)
  show "table_inv n (drop_handle t k g)" "live (drop_handle t k g) g' \<Longrightarrow> live t g'"
    using r keep by (simp_all add: drop_handle_def Let_def)
  show "ch_answer (st_channels (drop_handle t k g) g') = ch_answer (st_channels t g')"
    "\<not> live t g \<Longrightarrow> st_entries (drop_handle t k g) = st_entries t"
    "g' \<noteq> g \<Longrightarrow> st_channels (drop_handle t k g) g' = st_channels t g' \<and> (live (drop_handle t k g) g' \<longleftrightarrow> live t g')"
    using r keep by (simp_all add: drop_handle_def Let_def)
qed

lemma next_inv:
  assumes inv: "table_inv n t"
  shows "table_inv n (snd (inbox_next t g))" and "live (snd (inbox_next t g)) g' = live t g'"
    and "ch_answer (st_channels (snd (inbox_next t g)) g') = ch_answer (st_channels t g')"
    and "ch_sender (st_channels (snd (inbox_next t g)) g') = ch_sender (st_channels t g')"
    and "table_inv n (snd (take_gap t g))" and "live (snd (take_gap t g)) g' = live t g'"
    and "ch_answer (st_channels (snd (take_gap t g)) g') = ch_answer (st_channels t g')"
  using inv by (auto simp: inbox_next_def take_gap_def Let_def take_end_reason_def intro: keep_inv
      split: list.splits option.splits)

definition registrations :: "table_event list \<Rightarrow> nat" where
  "registrations evs = length (filter (\<lambda>ev. case ev of Ev_Register _ _ \<Rightarrow> True | _ \<Rightarrow> False) evs)"

text \<open>A generation that has been issued and whose session is over: quiet brings it back.\<close>

lemma over_stays:
  assumes "table_inv n t" "issued n g" "\<not> live t g" "n + registrations evs < 2 ^ 64"
  shows "\<exists>m\<ge>n. table_inv m (run_table evs t) \<and> \<not> live (run_table evs t) g
     \<and> ch_answer (st_channels (run_table evs t) g) = ch_answer (st_channels t g)"
  using assms
proof (induction evs arbitrary: n t)
  case Nil
  then show ?case by (auto simp: run_table_def)
next
  case (Cons ev evs)
  note inv = Cons.prems(1)
  let ?t = "table_step ev t"
  have step: "\<exists>m\<ge>n. table_inv m ?t \<and> issued m g \<and> \<not> live ?t g \<and> m + registrations evs < 2 ^ 64
      \<and> ch_answer (st_channels ?t g) = ch_answer (st_channels t g)"
  proof (cases ev)
    case (Ev_Register k sink)
    show ?thesis
    proof (cases "register t k sink")
      case (Inl e)
      then show ?thesis using Cons.prems Ev_Register by (auto simp: registrations_def)
    next
      case (Inr q)
      obtain t' g' where q: "q = (t', g')" by (cases q)
      have n: "n + 1 < 2 ^ 64" using Cons.prems(4) Ev_Register by (simp add: registrations_def)
      note r = register_inv [OF inv Inr [unfolded q] n]
      have "g \<noteq> g'" using r(3) Cons.prems(2) by (auto simp: issued_def)
      then have "issued (n + 1) g" "\<not> live t' g" "ch_answer (st_channels t' g) = ch_answer (st_channels t g)"
        using r(2) [of g] r(5) Cons.prems(2,3) by (auto simp: issued_def)
      then show ?thesis
        using r(1) Cons.prems(4) Inr q Ev_Register by (intro exI [of _ "n + 1"]) (simp add: registrations_def)
    qed
  next
    case (Ev_Dispatch p)
    then show ?thesis using dispatch_inv [OF inv] Cons.prems by (auto simp: registrations_def)
  next
    case (Ev_Drop k g')
    then show ?thesis using drop_inv [OF inv] Cons.prems by (auto simp: registrations_def)
  next
    case (Ev_Next g')
    then show ?thesis using next_inv [OF inv] Cons.prems by (auto simp: registrations_def)
  next
    case (Ev_Take_Gap g')
    then show ?thesis using next_inv [OF inv] Cons.prems by (auto simp: registrations_def)
  next
    case Ev_Fail_All
    then show ?thesis using fail_all_inv [OF inv] Cons.prems by (auto simp: registrations_def)
  qed
  then obtain m where m: "m \<ge> n" "table_inv m ?t" "issued m g" "\<not> live ?t g" "m + registrations evs < 2 ^ 64"
    "ch_answer (st_channels ?t g) = ch_answer (st_channels t g)" by blast
  from Cons.IH [OF m(2-5)] obtain m' where "m' \<ge> m" "table_inv m' (run_table evs ?t)" "\<not> live (run_table evs ?t) g"
    "ch_answer (st_channels (run_table evs ?t) g) = ch_answer (st_channels ?t g)" by blast
  then show ?case using m(1,6) by (auto simp: run_table_def intro!: exI [of _ m'])
qed

text \<open>Every life of a table keeps the invariant.\<close>

lemma step_inv:
  assumes "table_inv n t" "n + registrations [ev] < 2 ^ 64"
  shows "\<exists>m\<ge>n. m \<le> n + registrations [ev] \<and> table_inv m (table_step ev t)
     \<and> (\<forall>g. issued n g \<longrightarrow> live (table_step ev t) g \<longrightarrow> live t g)"
proof (cases ev)
  case (Ev_Register k sink)
  show ?thesis
  proof (cases "register t k sink")
    case (Inl e)
    then show ?thesis using assms Ev_Register by (auto simp: registrations_def)
  next
    case (Inr q)
    obtain t' g' where q: "q = (t', g')" by (cases q)
    have n: "n + 1 < 2 ^ 64" using assms(2) Ev_Register by (simp add: registrations_def)
    note r = register_inv [OF assms(1) Inr [unfolded q] n]
    show ?thesis using r(1-3) Ev_Register Inr q by (intro exI [of _ "n + 1"]) (auto simp: registrations_def issued_def)
  qed
qed (use dispatch_inv [OF assms(1)] drop_inv [OF assms(1)] next_inv [OF assms(1)] fail_all_inv [OF assms(1)] in
    \<open>auto simp: registrations_def\<close>)

lemma registrations_append: "registrations (xs @ ys) = registrations xs + registrations ys"
  by (simp add: registrations_def)

lemma run_inv:
  assumes "table_inv n t" "n + registrations evs < 2 ^ 64"
  shows "\<exists>m\<ge>n. m \<le> n + registrations evs \<and> table_inv m (run_table evs t)"
  using assms
proof (induction evs arbitrary: n t)
  case (Cons ev evs)
  have split: "registrations (ev # evs) = registrations [ev] + registrations evs"
    using registrations_append [of "[ev]" evs] by simp
  then have "n + registrations [ev] < 2 ^ 64" using Cons.prems(2) by simp
  from step_inv [OF Cons.prems(1) this] obtain m where m: "n \<le> m" "m \<le> n + registrations [ev]" "table_inv m (table_step ev t)" by blast
  have "m + registrations evs < 2 ^ 64" using Cons.prems(2) split m(2) by simp
  from Cons.IH [OF m(3) this] obtain m' where "m \<le> m'" "m' \<le> m + registrations evs" "table_inv m' (run_table evs (table_step ev t))" by blast
  then show ?case using m(1,2) split by (intro exI [of _ m']) (simp add: run_table_def)
qed (auto simp: run_table_def)

lemma waiting_iff_live:
  assumes "table_inv n t" "issued n g"
  shows "pending_wait t g = None \<longleftrightarrow> live t g"
proof (cases "live t g")
  case True
  then obtain k e where "(k, e) \<in> set (st_entries t)" "g = en_generation e" by (auto simp: live_def)
  then show ?thesis using assms(1) True by (force simp: table_inv_def pending_wait_def Let_def)
next
  case False
  then have "\<not> ch_sender (st_channels t g)" using assms by (simp add: table_inv_def)
  then show ?thesis using False by (auto simp: pending_wait_def Let_def split: option.splits)
qed

lemma registered:
  assumes "registrations pre + 1 + k < 2 ^ 64" "register (run_table pre table_new) key sink = Inr (t1, g)"
  obtains n where "table_inv n t1" "issued n g" "n \<le> registrations pre + 1" "live t1 g" "n + k < 2 ^ 64"
    "find_entry t1 key = Some \<lparr>en_generation = g, en_sink = sink\<rparr>" "st_channels t1 g = new_channel"
proof -
  obtain m where m: "m \<le> registrations pre" "table_inv m (run_table pre table_new)"
    using run_inv [OF table_inv_new, of pre] assms(1) by auto
  have "m + 1 < 2 ^ 64" using m(1) assms(1) by simp
  note r = register_inv [OF m(2) assms(2) this]
  have "issued (m + 1) g" "live t1 g" using r(2) [of g] r(3) by (simp_all add: issued_def)
  then show ?thesis using that [of "m + 1"] r(1,4,5) m(1) assms(1) by simp
qed

section \<open>One answer for every request\<close>

text \<open>The lives the witnesses run: one registration, then the packs of one session.\<close>

definition session_example :: "byte \<Rightarrow> pack" where
  "session_example flags = \<lparr>pk_kind = Upload, pk_subtype = 5, pk_flags = flags, pk_id = 7, pk_seq = 9, pk_meta = [], pk_data = []\<rparr>"

abbreviation session_opened :: "pack_sink \<Rightarrow> session_table" where
  "session_opened sink \<equiv> run_table [Ev_Register (Session_Key 7) sink] table_new"

lemma session_opened: "register (run_table [] table_new) (Session_Key 7) sink = Inr (session_opened sink, 1)"
  by (simp add: run_table_def register_def table_new_def Let_def)

text \<open>
  C15. Every request is answered exactly once: whatever happens to the table after a one-shot
  registration, its holder waits exactly as long as the session is registered; once there is an answer
  it never changes, whatever happens later; and closing the connection answers everybody who waits.
\<close>

theorem request_answered_exactly_once:
  assumes "registrations pre + 1 + registrations evs + registrations later < 2 ^ 64"
    and "register (run_table pre table_new) key Oneshot_Sink = Inr (t1, g)"
  shows "(pending_wait (run_table evs t1) g = None \<longleftrightarrow> live (run_table evs t1) g)
     \<and> (\<forall>r. pending_wait (run_table evs t1) g = Some r \<longrightarrow> pending_wait (run_table later (run_table evs t1)) g = Some r)
     \<and> pending_wait (fail_all (run_table evs t1)) g \<noteq> None"
proof -
  have "registrations pre + 1 + (registrations evs + registrations later) < 2 ^ 64" using assms(1) by simp
  from registered [OF this assms(2)] obtain n where n: "table_inv n t1" "issued n g"
    "n + (registrations evs + registrations later) < 2 ^ 64" by blast
  then have "n + registrations evs < 2 ^ 64" by simp
  from run_inv [OF n(1) this] obtain m where m: "m \<ge> n" "m \<le> n + registrations evs" "table_inv m (run_table evs t1)" by blast
  let ?t = "run_table evs t1"
  have iss: "issued m g" using n(2) m(1) by (auto simp: issued_def)
  note wait = waiting_iff_live [OF m(3) iss]
  have "pending_wait (run_table later ?t) g = Some r" if "pending_wait ?t g = Some r" for r
  proof -
    have over: "\<not> live ?t g" using wait that by simp
    have "m + registrations later < 2 ^ 64" using m(2) n(3) by simp
    from over_stays [OF m(3) iss over this] obtain m' where m': "m' \<ge> m" "table_inv m' (run_table later ?t)"
      "\<not> live (run_table later ?t) g" "ch_answer (st_channels (run_table later ?t) g) = ch_answer (st_channels ?t g)" by blast
    have "issued m' g" using iss m'(1) by (auto simp: issued_def)
    then have "\<not> ch_sender (st_channels (run_table later ?t) g)" "\<not> ch_sender (st_channels ?t g)"
      using m'(2,3) m(3) iss over by (simp_all add: table_inv_def)
    then show ?thesis using that m'(4) by (auto simp: pending_wait_def Let_def split: option.splits)
  qed
  moreover have "pending_wait (fail_all ?t) g \<noteq> None"
    using waiting_iff_live [OF fail_all_inv(1) [OF m(3)] iss] fail_all_inv(2) [OF m(3)] by simp
  ultimately show ?thesis using wait by blast
qed

lemma request_answered_exactly_once_witness:
  "pending_wait (run_table [Ev_Dispatch (session_example 8)] (session_opened Oneshot_Sink)) 1 = Some (Inr (session_example 8))
   \<and> pending_wait (run_table [Ev_Fail_All] (run_table [Ev_Dispatch (session_example 8)] (session_opened Oneshot_Sink))) 1
     = Some (Inr (session_example 8))"
proof -
  have "registrations [] + 1 + registrations [Ev_Dispatch (session_example 8)] + registrations [Ev_Fail_All] < 2 ^ 64"
    by (simp add: registrations_def)
  note once = request_answered_exactly_once [OF this session_opened]
  have answer: "pending_wait (run_table [Ev_Dispatch (session_example 8)] (session_opened Oneshot_Sink)) 1 = Some (Inr (session_example 8))"
    by code_simp
  with once show ?thesis by blast
qed

text \<open>
  A handle that outlived its session is harmless: once the session of a registration is over,
  dropping its handle, however late and whatever new sessions use the same key, removes no entry.
\<close>

lemma late_drop_removes_nothing:
  assumes "registrations pre + 1 + registrations evs + registrations later < 2 ^ 64"
    and "register (run_table pre table_new) key sink = Inr (t1, g)"
    and "\<not> live (run_table evs t1) g"
  shows "st_entries (drop_handle (run_table later (run_table evs t1)) key g) = st_entries (run_table later (run_table evs t1))"
proof -
  have "registrations pre + 1 + (registrations evs + registrations later) < 2 ^ 64" using assms(1) by simp
  from registered [OF this assms(2)] obtain n where n: "table_inv n t1" "issued n g"
    "n + (registrations evs + registrations later) < 2 ^ 64" by blast
  then have "n + registrations evs < 2 ^ 64" by simp
  from run_inv [OF n(1) this] obtain m where m: "m \<ge> n" "m \<le> n + registrations evs" "table_inv m (run_table evs t1)" by blast
  have iss: "issued m g" using n(2) m(1) by (auto simp: issued_def)
  have "m + registrations later < 2 ^ 64" using m(2) n(3) by simp
  from over_stays [OF m(3) iss assms(3) this] obtain m' where "table_inv m' (run_table later (run_table evs t1))"
    "\<not> live (run_table later (run_table evs t1)) g" by blast
  from drop_inv(4) [OF this] show ?thesis .
qed

lemma late_drop_removes_nothing_witness:
  "st_entries (drop_handle (run_table [Ev_Register (Session_Key 7) Subscription_Sink]
       (run_table [Ev_Dispatch (session_example 8)] (session_opened Stream_Sink))) (Session_Key 7) 1)
   = [(Session_Key 7, \<lparr>en_generation = 2, en_sink = Subscription_Sink\<rparr>)]"
proof -
  have "registrations [] + 1 + registrations [Ev_Dispatch (session_example 8)]
     + registrations [Ev_Register (Session_Key 7) Subscription_Sink] < 2 ^ 64"
    by (simp add: registrations_def)
  note late = late_drop_removes_nothing [OF this session_opened]
  have gone: "st_entries (run_table [Ev_Dispatch (session_example 8)] (session_opened Stream_Sink)) = []" by code_simp
  have left: "st_entries (run_table [Ev_Register (Session_Key 7) Subscription_Sink]
      (run_table [Ev_Dispatch (session_example 8)] (session_opened Stream_Sink)))
    = [(Session_Key 7, \<lparr>en_generation = 2, en_sink = Subscription_Sink\<rparr>)]" by code_simp
  have "\<not> live (run_table [Ev_Dispatch (session_example 8)] (session_opened Stream_Sink)) 1" by (simp add: live_def gone)
  from late [OF this] left show ?thesis by simp
qed

section \<open>Whose a pack is\<close>

lemma find_key_shape:
  "find_key t p = Some k \<Longrightarrow> find_entry t k \<noteq> None
     \<and> (k = Session_Key (pk_id p) \<and> pk_id p \<noteq> 0 \<or> k = Reply_Key (pk_id p) (pk_seq p)
        \<or> k = Reply_Key 0 (pk_seq p) \<and> pk_kind p = Control \<and> pk_flags p AND IS_RESPONSE \<noteq> 0)"
  by (auto simp: find_key_def Let_def split: if_splits)

text \<open>
  A pack reaches only the session it names: \<open>dispatch\<close> changes no channel but that of the session
  \<open>classify\<close> announced, which is the named session of the pack's id, or the request with its id and
  sequence number, or (for a control response only) the request with id 0 and its sequence number; a
  named session comes first; a pack nobody waits for changes no session.
\<close>

lemma dispatch_reaches_named_session:
  assumes "table_inv n t"
  shows "case classify t p of
       (None, r) \<Rightarrow> r = Route_Unmatched \<and> st_entries (dispatch t p) = st_entries t \<and> st_channels (dispatch t p) = st_channels t
     | (Some k, r) \<Rightarrow> (\<exists>e. find_entry t k = Some e \<and> r = sink_route (en_sink e)
         \<and> (\<forall>g. g \<noteq> en_generation e \<longrightarrow> st_channels (dispatch t p) g = st_channels t g)
         \<and> (\<forall>k'. k' \<noteq> k \<longrightarrow> find_entry (dispatch t p) k' = find_entry t k'))
       \<and> (k = Session_Key (pk_id p) \<and> pk_id p \<noteq> 0
          \<or> (pk_id p = 0 \<or> find_entry t (Session_Key (pk_id p)) = None)
            \<and> (k = Reply_Key (pk_id p) (pk_seq p)
               \<or> k = Reply_Key 0 (pk_seq p) \<and> pk_kind p = Control \<and> pk_flags p AND IS_RESPONSE \<noteq> 0))"
proof (cases rule: dispatch_cases [OF assms, of p])
  case 1
  then show ?thesis by (simp add: classify_def)
next
  case (2 k e ch)
  then show ?thesis by (auto simp: classify_def find_key_def Let_def split: if_splits)
next
  case (3 k e ch)
  then show ?thesis by (auto simp: classify_def delete_conv' find_key_def Let_def split: if_splits)
qed

lemma dispatch_reaches_named_session_witness:
  "classify (session_opened Stream_Sink) (session_example 0) = (Some (Session_Key 7), Route_Stream)
   \<and> find_entry (dispatch (session_opened Stream_Sink) (session_example 0)) (Reply_Key 7 9) = None"
proof -
  have "\<exists>m. table_inv m (session_opened Stream_Sink)"
    using register_inv(1) [OF table_inv_new, of _ _ _ _] session_opened by (force simp: run_table_def)
  then obtain m where "table_inv m (session_opened Stream_Sink)" by blast
  note reach = dispatch_reaches_named_session [OF this, of "session_example 0"]
  have "classify (session_opened Stream_Sink) (session_example 0) = (Some (Session_Key 7), Route_Stream)" by code_simp
  moreover have "find_entry (session_opened Stream_Sink) (Reply_Key 7 9) = None" by code_simp
  ultimately show ?thesis using reach by auto
qed

section \<open>Nothing is lost in silence\<close>

text \<open>
  What a life of the table does to one session \<open>g\<close>: the packs routed to it, the packs its consumer has
  read, and whether the consumer has been told of a loss or an end (an error instead of a pack, or the
  gap flag) or has gone.
\<close>

definition routed_by :: "u64 \<Rightarrow> table_event \<Rightarrow> session_table \<Rightarrow> pack list" where
  "routed_by g ev t =
     (case ev of
        Ev_Dispatch p \<Rightarrow>
          (case Option.bind (find_key t p) (find_entry t) of
             Some e \<Rightarrow> if en_generation e = g then [p] else []
           | None \<Rightarrow> [])
      | _ \<Rightarrow> [])"

definition read_by :: "u64 \<Rightarrow> table_event \<Rightarrow> session_table \<Rightarrow> pack list" where
  "read_by g ev t =
     (case ev of
        Ev_Next g' \<Rightarrow> if g' = g then (case fst (inbox_next t g) of Some (Inr (Some p)) \<Rightarrow> [p] | _ \<Rightarrow> []) else []
      | _ \<Rightarrow> [])"

definition told_by :: "u64 \<Rightarrow> table_event \<Rightarrow> session_table \<Rightarrow> bool" where
  "told_by g ev t =
     (case ev of
        Ev_Next g' \<Rightarrow> g' = g \<and> (case fst (inbox_next t g) of Some (Inl e) \<Rightarrow> True | _ \<Rightarrow> False)
      | Ev_Take_Gap g' \<Rightarrow> g' = g \<and> fst (take_gap t g)
      | Ev_Drop k g' \<Rightarrow> g' = g
      | _ \<Rightarrow> False)"

primrec routed :: "u64 \<Rightarrow> table_event list \<Rightarrow> session_table \<Rightarrow> pack list" where
  "routed g [] t = []"
| "routed g (ev # evs) t = routed_by g ev t @ routed g evs (table_step ev t)"

primrec packs_read :: "u64 \<Rightarrow> table_event list \<Rightarrow> session_table \<Rightarrow> pack list" where
  "packs_read g [] t = []"
| "packs_read g (ev # evs) t = read_by g ev t @ packs_read g evs (table_step ev t)"

primrec told :: "u64 \<Rightarrow> table_event list \<Rightarrow> session_table \<Rightarrow> bool" where
  "told g [] t = False"
| "told g (ev # evs) t = (told_by g ev t \<or> told g evs (table_step ev t))"

text \<open>\<open>R\<close> has been routed to the session and \<open>D\<close> has been read; \<open>T\<close>: the consumer has been told.\<close>

definition accounted :: "u64 \<Rightarrow> session_table \<Rightarrow> pack list \<Rightarrow> pack list \<Rightarrow> bool \<Rightarrow> bool" where
  "accounted g t R D T \<longleftrightarrow>
     (\<forall>(k, e)\<in>set (st_entries t). en_generation e = g \<longrightarrow> en_sink e \<noteq> Oneshot_Sink)
     \<and> subseq (D @ ch_inbox (st_channels t g)) R
     \<and> (D @ ch_inbox (st_channels t g) = R \<or> T \<or> ch_end (st_channels t g) \<noteq> None \<or> ch_gap (st_channels t g)
        \<or> \<not> ch_receiver (st_channels t g))
     \<and> (\<not> ch_receiver (st_channels t g) \<longrightarrow> T)"

lemma accounted_same:
  assumes "accounted g t R D T" "st_channels t' g = st_channels t g"
    and "\<And>k e. (k, e) \<in> set (st_entries t') \<Longrightarrow> en_generation e = g \<Longrightarrow> (k, e) \<in> set (st_entries t)"
  shows "accounted g t' R D T"
proof -
  have "\<forall>x\<in>set (st_entries t'). case x of (k, e) \<Rightarrow> en_generation e = g \<longrightarrow> en_sink e \<noteq> Oneshot_Sink"
  proof (rule ballI, clarify)
    fix k e assume e: "(k, e) \<in> set (st_entries t')" "g = en_generation e" "en_sink e = Oneshot_Sink"
    then have "(k, e) \<in> set (st_entries t)" using assms(3) by simp
    then show False using assms(1) e by (auto simp: accounted_def)
  qed
  then show ?thesis using assms(1) unfolding accounted_def assms(2) by blast
qed

lemma accounted_entries:
  assumes "accounted g t R D T" "set (st_entries t') \<subseteq> set (st_entries t)"
  shows "\<forall>(k, e)\<in>set (st_entries t'). en_generation e = g \<longrightarrow> en_sink e \<noteq> Oneshot_Sink"
  using assms unfolding accounted_def by blast

lemma deliver_accounted:
  assumes "deliver sink ch p = (ch', d)" "sink \<noteq> Oneshot_Sink" "ch_sender ch"
  shows "ch_inbox ch' = ch_inbox ch @ [p] \<and> ch_end ch' = ch_end ch \<and> ch_gap ch' = ch_gap ch \<and> ch_receiver ch'
     \<or> ch_inbox ch' = ch_inbox ch \<and> (ch_end ch' \<noteq> None \<or> ch_gap ch' \<or> \<not> ch_receiver ch')
       \<and> (ch_end ch \<noteq> None \<longrightarrow> ch_end ch' \<noteq> None) \<and> (ch_gap ch \<longrightarrow> ch_gap ch') \<and> ch_receiver ch' = ch_receiver ch"
  using assms by (cases sink) (auto simp: try_send_def Let_def set_end_reason_def split: if_splits)

lemma inbox_next_frame:
  "st_entries (snd (inbox_next t g)) = st_entries t"
  "g' \<noteq> g \<Longrightarrow> st_channels (snd (inbox_next t g)) g' = st_channels t g'"
  by (simp_all add: inbox_next_def Let_def take_end_reason_def split: list.split option.split)

lemma accounted_step:
  assumes inv: "table_inv n t" and iss: "issued n g" and n: "n + registrations [ev] < 2 ^ 64"
    and acc: "accounted g t R D T"
  shows "accounted g (table_step ev t) (R @ routed_by g ev t) (D @ read_by g ev t) (T \<or> told_by g ev t)"
proof (cases ev)
  case (Ev_Register k sink)
  show ?thesis
  proof (cases "register t k sink")
    case (Inl e)
    then show ?thesis using acc Ev_Register by (simp add: routed_by_def read_by_def told_by_def)
  next
    case (Inr q)
    obtain t' g' where q: "q = (t', g')" by (cases q)
    have n1: "n + 1 < 2 ^ 64" using n Ev_Register by (simp add: registrations_def)
    note r = register_inv [OF inv Inr [unfolded q] n1]
    have g': "g' \<noteq> g" using r(3) iss by (auto simp: issued_def)
    have "st_entries t' = (k, \<lparr>en_generation = g', en_sink = sink\<rparr>) # st_entries t"
      using Inr q by (auto simp: register_def Let_def split: if_splits)
    then have "accounted g t' R D T" using acc r(5) g' by (intro accounted_same [OF acc]) auto
    then show ?thesis using Ev_Register Inr q by (simp add: routed_by_def read_by_def told_by_def)
  qed
next
  case (Ev_Dispatch p)
  have quiet: "read_by g ev t = []" "told_by g ev t = False" by (simp_all add: Ev_Dispatch read_by_def told_by_def)
  have dest: "routed_by g ev t = (case Option.bind (find_key t p) (find_entry t) of
             Some e \<Rightarrow> if en_generation e = g then [p] else [] | None \<Rightarrow> [])"
    by (simp add: Ev_Dispatch routed_by_def)
  have distinct: "distinct (map fst (st_entries t))" "distinct (map (en_generation \<circ> snd) (st_entries t))"
    using inv by (simp_all add: table_inv_def)
  have one: "accounted g t' (R @ [p]) D T"
    if e: "find_entry t k = Some e" "en_generation e = g"
      and d: "deliver (en_sink e) (st_channels t g) p = (ch, d)"
      and ch: "st_channels t' g = ch \<or> st_channels t' g = ch\<lparr>ch_sender := False\<rparr>"
      and es: "set (st_entries t') \<subseteq> set (st_entries t)" for k e ch d t'
  proof -
    have mem: "(k, e) \<in> set (st_entries t)" using e(1) by (rule map_of_SomeD)
    have "en_sink e \<noteq> Oneshot_Sink" "ch_sender (st_channels t g)"
      using mem e(2) acc inv by (auto simp: accounted_def table_inv_def)
    from deliver_accounted [OF d this] show ?thesis
      using acc ch accounted_entries [OF acc es] unfolding accounted_def
      by (auto intro: list_emb_append_mono subseq_order.order_trans [of _ R] simp flip: append_assoc)
  qed
  have step: ?thesis if "accounted g (dispatch t p) (R @ routed_by g ev t) D T"
  proof -
    have "table_step ev t = dispatch t p" by (simp add: Ev_Dispatch)
    then show ?thesis using that by (simp add: quiet)
  qed
  have missed: "accounted g t' R D T"
    if e: "en_generation e \<noteq> g" and ch: "st_channels t' g = st_channels t g"
      and es: "set (st_entries t') \<subseteq> set (st_entries t)" for e t'
    by (rule accounted_same [OF acc ch]) (use es in blast)
  show ?thesis
    using inv
  proof (cases rule: dispatch_cases [of n t p])
    case unmatched
    then have "routed_by g ev t = []" by (simp add: dest)
    moreover have "accounted g (dispatch t p) R D T" using unmatched(2) acc by (simp add: accounted_def)
    ultimately show ?thesis by (intro step) simp
  next
    case (kept k e ch)
    show ?thesis
    proof (cases "en_generation e = g")
      case True
      have "routed_by g ev t = [p]" using kept(1,2) True by (simp add: dest)
      moreover have "accounted g (dispatch t p) (R @ [p]) D T"
        by (rule one [OF kept(2) True kept(3) [unfolded True]]) (simp_all add: kept(4) True)
      ultimately show ?thesis by (intro step) simp
    next
      case False
      have "routed_by g ev t = []" using kept(1,2) False by (simp add: dest)
      moreover have "accounted g (dispatch t p) R D T"
        using False by (intro missed [OF False]) (simp_all add: kept(4))
      ultimately show ?thesis by (intro step) simp
    qed
  next
    case (finished k e ch)
    note del = delete_entries(1) [OF distinct finished(2)]
    show ?thesis
    proof (cases "en_generation e = g")
      case True
      have "routed_by g ev t = [p]" using finished(1,2) True by (simp add: dest)
      moreover have "accounted g (dispatch t p) (R @ [p]) D T"
        by (rule one [OF finished(2) True finished(3) [unfolded True]]) (simp_all add: finished(4) True del)
      ultimately show ?thesis by (intro step) simp
    next
      case False
      have "routed_by g ev t = []" using finished(1,2) False by (simp add: dest)
      moreover have "accounted g (dispatch t p) R D T"
        using False by (intro missed [OF False]) (simp_all add: finished(4) del)
      ultimately show ?thesis by (intro step) simp
    qed
  qed
next
  case (Ev_Drop k g')
  have none: "routed_by g ev t = []" "read_by g ev t = []" by (simp_all add: Ev_Drop routed_by_def read_by_def)
  have sub: "set (st_entries (drop_handle t k g')) \<subseteq> set (st_entries t)"
    by (auto simp: drop_handle_def remove_if_def Let_def AList.delete_eq split: option.splits)
  have inbox: "ch_inbox (st_channels (drop_handle t k g') g) = ch_inbox (st_channels t g)"
    by (auto simp: drop_handle_def remove_if_def Let_def split: option.splits)
  show ?thesis
  proof (cases "g' = g")
    case True
    then show ?thesis
      using acc accounted_entries [OF acc sub] inbox none by (simp add: accounted_def Ev_Drop told_by_def)
  next
    case False
    then have "accounted g (drop_handle t k g') R D T"
      using drop_inv(5) [OF inv, of g g' k] sub by (intro accounted_same [OF acc]) auto
    then show ?thesis using False none by (simp add: Ev_Drop told_by_def)
  qed
next
  case (Ev_Next g')
  show ?thesis
  proof (cases "g' = g")
    case False
    then have "accounted g (snd (inbox_next t g')) R D T"
      by (intro accounted_same [OF acc]) (simp_all add: inbox_next_frame)
    then show ?thesis using False by (simp add: Ev_Next routed_by_def read_by_def told_by_def)
  next
    case True
    then show ?thesis
      using acc
      by (cases "ch_inbox (st_channels t g)")
        (auto simp: Ev_Next routed_by_def read_by_def told_by_def inbox_next_def Let_def take_end_reason_def
          accounted_def split: option.splits)
  qed
next
  case (Ev_Take_Gap g')
  then show ?thesis using acc by (auto simp: routed_by_def read_by_def told_by_def take_gap_def accounted_def)
next
  case Ev_Fail_All
  have ch: "ch_inbox (st_channels (fail_all t) g) = ch_inbox (st_channels t g)"
    "ch_gap (st_channels (fail_all t) g) = ch_gap (st_channels t g)"
    "ch_receiver (st_channels (fail_all t) g) = ch_receiver (st_channels t g)"
    "ch_end (st_channels t g) \<noteq> None \<Longrightarrow> ch_end (st_channels (fail_all t) g) \<noteq> None"
  proof -
    have "ch_inbox (st_channels (fail_all t) g) = ch_inbox (st_channels t g)
      \<and> ch_gap (st_channels (fail_all t) g) = ch_gap (st_channels t g)
      \<and> ch_receiver (st_channels (fail_all t) g) = ch_receiver (st_channels t g)
      \<and> (ch_end (st_channels t g) \<noteq> None \<longrightarrow> ch_end (st_channels (fail_all t) g) \<noteq> None)"
    proof (cases "live t g")
      case True
      then obtain k e where e: "(k, e) \<in> set (st_entries t)" "g = en_generation e" by (auto simp: live_def)
      then have "en_sink e \<noteq> Oneshot_Sink" using acc by (auto simp: accounted_def)
      then show ?thesis using fail_all_inv(3) [OF inv e(1)] fail_sink_facts(3-6) by (simp add: e(2))
    qed (use fail_all_inv(4) [OF inv] in simp)
    then show "ch_inbox (st_channels (fail_all t) g) = ch_inbox (st_channels t g)"
      "ch_gap (st_channels (fail_all t) g) = ch_gap (st_channels t g)"
      "ch_receiver (st_channels (fail_all t) g) = ch_receiver (st_channels t g)"
      "ch_end (st_channels t g) \<noteq> None \<Longrightarrow> ch_end (st_channels (fail_all t) g) \<noteq> None" by blast+
  qed
  have "st_entries (fail_all t) = []" by (simp add: fail_all_def)
  then have "accounted g (fail_all t) R D T" using acc ch unfolding accounted_def by auto
  then show ?thesis by (simp add: Ev_Fail_All routed_by_def read_by_def told_by_def)
qed

lemma accounted_run:
  assumes "table_inv n t" "issued n g" "n + registrations evs < 2 ^ 64" "accounted g t R D T"
  shows "accounted g (run_table evs t) (R @ routed g evs t) (D @ packs_read g evs t) (T \<or> told g evs t)"
  using assms
proof (induction evs arbitrary: n t R D T)
  case (Cons ev evs)
  have split: "registrations (ev # evs) = registrations [ev] + registrations evs"
    using registrations_append [of "[ev]" evs] by simp
  then have n: "n + registrations [ev] < 2 ^ 64" using Cons.prems(3) by simp
  from step_inv [OF Cons.prems(1) n] obtain m where m: "n \<le> m" "m \<le> n + registrations [ev]" "table_inv m (table_step ev t)" by blast
  have "issued m g" using Cons.prems(2) m(1) by (auto simp: issued_def)
  from Cons.IH [OF m(3) this _ accounted_step [OF Cons.prems(1,2) n Cons.prems(4)]] m(2) Cons.prems(3) split
  show ?case by (simp add: run_table_def disj_assoc)
qed (simp add: run_table_def)

text \<open>
  C16. No stream and no subscription loses a pack in silence: at every moment of every life of the
  table, the packs its consumer has read followed by those in its inbox are, in order, packs the server
  sent to it, and they are all of them unless the consumer has gone, has been told (an error instead of
  a pack, or the gap flag), or is about to be (the reason of the end or the gap flag is set).
\<close>

theorem no_pack_lost_in_silence:
  assumes "registrations pre + 1 + registrations evs < 2 ^ 64"
    and "register (run_table pre table_new) key sink = Inr (t1, g)" and "sink \<noteq> Oneshot_Sink"
  shows "let t = run_table evs t1; seen = packs_read g evs t1 @ ch_inbox (st_channels t g) in
     subseq seen (routed g evs t1)
     \<and> (seen = routed g evs t1 \<or> told g evs t1 \<or> ch_end (st_channels t g) \<noteq> None \<or> ch_gap (st_channels t g))"
proof -
  from registered [OF assms(1,2)] obtain n where n: "table_inv n t1" "issued n g" "n + registrations evs < 2 ^ 64"
    "find_entry t1 key = Some \<lparr>en_generation = g, en_sink = sink\<rparr>" "st_channels t1 g = new_channel" by blast
  have "en_sink e \<noteq> Oneshot_Sink" if "(k, e) \<in> set (st_entries t1)" "en_generation e = g" for k e
  proof -
    have "find_entry t1 k = Some e" using that(1) n(1) by (simp add: table_inv_def map_of_is_SomeI)
    from generation_key [OF n(1) this n(4)] have "e = \<lparr>en_generation = g, en_sink = sink\<rparr>" using that(2) by simp
    then show ?thesis using assms(3) by simp
  qed
  then have "accounted g t1 [] [] False" using n(5) by (auto simp: accounted_def new_channel_def)
  from accounted_run [OF n(1-3) this] show ?thesis by (auto simp: accounted_def Let_def)
qed

lemma no_pack_lost_in_silence_witness:
  "let t1 = session_opened Stream_Sink;
       evs = [Ev_Dispatch (session_example 0), Ev_Next 1, Ev_Dispatch (session_example 0)];
       seen = packs_read 1 evs t1 @ ch_inbox (st_channels (run_table evs t1) 1) in
     seen = [session_example 0, session_example 0] \<and> subseq seen (routed 1 evs t1)"
proof -
  let ?evs = "[Ev_Dispatch (session_example 0), Ev_Next 1, Ev_Dispatch (session_example 0)]"
  have "registrations [] + 1 + registrations ?evs < 2 ^ 64" by (simp add: registrations_def)
  note all = no_pack_lost_in_silence [OF this session_opened]
  have "packs_read 1 ?evs (session_opened Stream_Sink) @ ch_inbox (st_channels (run_table ?evs (session_opened Stream_Sink)) 1)
     = [session_example 0, session_example 0]" by code_simp
  with all [of Stream_Sink] show ?thesis by (simp add: Let_def)
qed

end
