(* ===== verification/Link_Correct.thy ===== *)
theory Link_Correct
  imports Link Session_Correct
begin

text \<open>
  What a connection promises its callers: the numbers it hands out, that closing it leaves nobody
  waiting whatever the order of the steps, that a request leaves nothing behind in the table, when the
  read task gives up the connection, and what a time-out says.
\<close>

section \<open>The contract of a table of waiters\<close>

text \<open>
  The interface a connection needs of its session table: \<open>reg\<close> opens a slot under a fresh number, every
  other operation only ever ends slots, \<open>shut\<close> ends them all, and a holder waits exactly as long as its
  slot is there.  \<open>inv n\<close> says that \<open>n\<close> numbers have been handed out, and \<open>old n\<close> which ones.
\<close>

locale waiters =
  fixes reg :: "'t \<Rightarrow> 'k \<Rightarrow> ('t \<times> 'g) option"
    and run_op :: "'op \<Rightarrow> 't \<Rightarrow> 't"
    and shut :: "'t \<Rightarrow> 't"
    and waiting :: "'t \<Rightarrow> 'g \<Rightarrow> bool"
    and inv :: "nat \<Rightarrow> 't \<Rightarrow> bool"
    and old :: "nat \<Rightarrow> 'g \<Rightarrow> bool"
    and bound :: nat
  assumes reg_fresh: "\<lbrakk>inv n t; reg t k = Some (t', g); n + 1 < bound\<rbrakk> \<Longrightarrow> inv (n + 1) t' \<and> \<not> old n g \<and> old (n + 1) g"
    and reg_adds: "\<lbrakk>inv n t; reg t k = Some (t', g); n + 1 < bound; old n h\<rbrakk> \<Longrightarrow> old (n + 1) h \<and> (waiting t' h \<longrightarrow> waiting t h)"
    and run_op_inv: "inv n t \<Longrightarrow> inv n (run_op c t)"
    and run_op_ends: "\<lbrakk>inv n t; old n h; waiting (run_op c t) h\<rbrakk> \<Longrightarrow> waiting t h"
    and shut_inv: "inv n t \<Longrightarrow> inv n (shut t)"
    and shut_ends: "\<lbrakk>inv n t; old n h\<rbrakk> \<Longrightarrow> \<not> waiting (shut t) h"
begin

text \<open>A table's future: openings (\<open>Inl\<close>) and other operations (\<open>Inr\<close>).\<close>

definition move :: "'k + 'op \<Rightarrow> 't \<Rightarrow> 't" where
  "move m t = (case m of Inl k \<Rightarrow> (case reg t k of Some (t', g) \<Rightarrow> t' | None \<Rightarrow> t) | Inr c \<Rightarrow> run_op c t)"

definition openings :: "('k + 'op) list \<Rightarrow> nat" where
  "openings ms = length (filter isl ms)"

lemma move_keeps:
  assumes "inv n t" "n + openings [m] < bound" "old n h" "\<not> waiting t h"
  shows "\<exists>n'. n \<le> n' \<and> n' \<le> n + openings [m] \<and> inv n' (move m t) \<and> old n' h \<and> \<not> waiting (move m t) h"
proof (cases m)
  case (Inl k)
  show ?thesis
  proof (cases "reg t k")
    case None
    then show ?thesis using assms Inl by (auto simp: move_def intro!: exI [of _ n])
  next
    case (Some q)
    obtain t' g where q: "q = (t', g)" by (cases q)
    have n: "n + 1 < bound" using assms(2) Inl by (simp add: openings_def)
    show ?thesis
      using reg_fresh [OF assms(1) Some [unfolded q] n] reg_adds [OF assms(1) Some [unfolded q] n assms(3)] assms(4) Some q Inl
      by (intro exI [of _ "n + 1"]) (auto simp: move_def openings_def)
  qed
next
  case (Inr c)
  then show ?thesis
    using run_op_inv [OF assms(1), of c] run_op_ends [OF assms(1,3), of c] assms(3,4)
    by (intro exI [of _ n]) (auto simp: move_def)
qed

text \<open>Who has been answered stays answered.\<close>

lemma answered_stays:
  assumes "inv n t" "n + openings ms < bound" "old n h" "\<not> waiting t h"
  shows "\<not> waiting (fold move ms t) h"
  using assms
proof (induction ms arbitrary: n t)
  case (Cons m ms)
  have len: "openings (m # ms) = openings [m] + openings ms" by (simp add: openings_def)
  then have "n + openings [m] < bound" using Cons.prems(2) by simp
  from move_keeps [OF Cons.prems(1) this Cons.prems(3,4)] obtain n' where n': "n' \<le> n + openings [m]" "inv n' (move m t)"
    "old n' h" "\<not> waiting (move m t) h" by blast
  have "n' + openings ms < bound" using Cons.prems(2) n'(1) len by simp
  from Cons.IH [OF n'(2) this n'(3,4)] show ?case by simp
qed simp

text \<open>Closing answers everybody who had a slot, for ever.\<close>

lemma shut_answers_all:
  assumes "inv n t" "n + openings ms < bound" "old n h"
  shows "\<not> waiting (fold move ms (shut t)) h"
  using answered_stays [OF shut_inv [OF assms(1)] assms(2,3) shut_ends [OF assms(1,3)]] .

end

text \<open>The session table keeps the contract; the operations are its events other than a registration.\<close>

definition table_reg :: "session_table \<Rightarrow> session_key \<times> pack_sink \<Rightarrow> (session_table \<times> u64) option" where
  "table_reg t k = (case register t (fst k) (snd k) of Inl e \<Rightarrow> None | Inr q \<Rightarrow> Some q)"

definition table_op :: "table_event \<Rightarrow> session_table \<Rightarrow> session_table" where
  "table_op ev t = (case ev of Ev_Register k sink \<Rightarrow> t | _ \<Rightarrow> table_step ev t)"

interpretation tw: waiters table_reg table_op fail_all "\<lambda>t g. pending_wait t g = None" table_inv issued "2 ^ 64"
proof
  fix n t k t' g assume a: "table_inv n t" "table_reg t k = Some (t', g)" "n + 1 < 2 ^ 64"
  then have r: "register t (fst k) (snd k) = Inr (t', g)" by (simp add: table_reg_def split: sum.splits)
  note f = register_inv [OF a(1) r a(3)]
  show fresh: "table_inv (n + 1) t' \<and> \<not> issued n g \<and> issued (n + 1) g" using f(1,3) by (simp add: issued_def)
  fix h assume h: "issued n h"
  have "issued (n + 1) h" using h by (auto simp: issued_def)
  moreover have "h \<noteq> g" using h fresh by blast
  ultimately show "issued (n + 1) h \<and> (pending_wait t' h = None \<longrightarrow> pending_wait t h = None)"
    using waiting_iff_live [OF a(1) h] waiting_iff_live [OF f(1), of h] f(2) [of h] by simp
next
  fix n t c assume t: "table_inv n t"
  show op: "table_inv n (table_op c t)"
    using t dispatch_inv [OF t] drop_inv [OF t] next_inv [OF t] fail_all_inv [OF t] by (cases c) (auto simp: table_op_def)
  have gone: "live (table_op c t) h \<Longrightarrow> live t h" if "issued n h" for h
    using t that dispatch_inv [OF t] drop_inv [OF t] next_inv [OF t] fail_all_inv [OF t] by (cases c) (auto simp: table_op_def)
  fix h assume h: "issued n h" "pending_wait (table_op c t) h = None"
  then show "pending_wait t h = None"
    using waiting_iff_live [OF t h(1)] waiting_iff_live [OF op h(1)] gone [OF h(1)] by simp
next
  fix n t assume t: "table_inv n t"
  show inv: "table_inv n (fail_all t)" using fail_all_inv(1) [OF t] .
  fix h assume h: "issued n h"
  show "pending_wait (fail_all t) h \<noteq> None"
    using waiting_iff_live [OF inv h] by (simp add: live_def fail_all_def)
qed

section \<open>Closing, step by step\<close>

text \<open>
  Requests of \<open>N\<close> callers on one connection, with the steps of the callers and of the tasks interleaved at
  every point where the locks are free.  A caller registers, reads \<open>closed\<close>, puts its bytes into the queue
  and waits; whoever closes sets \<open>closed\<close> first and fails the table in a later step.
\<close>

datatype phase = Idle | Registered u64 | Checked u64 bytes | Waiting u64 | Returned "sdk_error + pack"

record line =
  ln_link :: link
  ln_closing :: bool
  ln_phase :: "nat \<Rightarrow> phase"

abbreviation on_table :: "(session_table \<Rightarrow> session_table) \<Rightarrow> link \<Rightarrow> link" where
  "on_table f lk \<equiv> lk\<lparr>lk_table := f (lk_table lk)\<rparr>"

abbreviation phase_is :: "line \<Rightarrow> nat \<Rightarrow> phase \<Rightarrow> line" where
  "phase_is s i ph \<equiv> s\<lparr>ln_phase := (ln_phase s)(i := ph)\<rparr>"

abbreviation asked_key :: "pack \<Rightarrow> session_key" where
  "asked_key p \<equiv> Reply_Key (pk_id p) (pk_seq p)"

inductive line_step :: "(bytes \<Rightarrow> u32) \<Rightarrow> nat \<Rightarrow> (nat \<Rightarrow> pack) \<Rightarrow> line \<Rightarrow> line \<Rightarrow> bool"
  for crc :: "bytes \<Rightarrow> u32" and N :: nat and ask :: "nat \<Rightarrow> pack" where
  registers: "\<lbrakk>i < N; ln_phase s i = Idle; register (lk_table (ln_link s)) (asked_key (ask i)) Oneshot_Sink = Inr (t, g)\<rbrakk>
     \<Longrightarrow> line_step crc N ask s (phase_is (s\<lparr>ln_link := (ln_link s)\<lparr>lk_table := t\<rparr>\<rparr>) i (Registered g))"
| refused: "\<lbrakk>i < N; ln_phase s i = Idle; register (lk_table (ln_link s)) (asked_key (ask i)) Oneshot_Sink = Inl e\<rbrakk>
     \<Longrightarrow> line_step crc N ask s (phase_is s i (Returned (Inl e)))"
| checks: "\<lbrakk>ln_phase s i = Registered g; \<not> lk_closed (ln_link s); encode crc (ask i) = Inr bs\<rbrakk>
     \<Longrightarrow> line_step crc N ask s (phase_is s i (Checked g bs))"
| unencodable: "\<lbrakk>ln_phase s i = Registered g; \<not> lk_closed (ln_link s); encode crc (ask i) = Inl e\<rbrakk>
     \<Longrightarrow> line_step crc N ask s
          (phase_is (s\<lparr>ln_link := on_table (\<lambda>t. drop_handle t (asked_key (ask i)) g) (ln_link s)\<rparr>) i (Returned (Inl (sdk_of_encode_error e))))"
| finds_closed: "\<lbrakk>ln_phase s i = Registered g; lk_closed (ln_link s)\<rbrakk>
     \<Longrightarrow> line_step crc N ask s
          (phase_is (s\<lparr>ln_link := on_table (\<lambda>t. drop_handle t (asked_key (ask i)) g) (ln_link s)\<rparr>) i (Returned (Inl Network)))"
| queues: "\<lbrakk>ln_phase s i = Checked g bs; enqueue (ln_link s) bs = Some (Inr lk)\<rbrakk>
     \<Longrightarrow> line_step crc N ask s (phase_is (s\<lparr>ln_link := lk\<rparr>) i (Waiting g))"
| not_queued: "\<lbrakk>ln_phase s i = Checked g bs; \<not> (\<exists>lk. enqueue (ln_link s) bs = Some (Inr lk))\<rbrakk>
     \<Longrightarrow> line_step crc N ask s
          (phase_is (s\<lparr>ln_link := on_table (\<lambda>t. drop_handle t (asked_key (ask i)) g) (ln_link s)\<rparr>) i (Returned (Inl Network)))"
| is_answered: "\<lbrakk>ln_phase s i = Waiting g; pending_wait (lk_table (ln_link s)) g = Some r\<rbrakk>
     \<Longrightarrow> line_step crc N ask s
          (phase_is (s\<lparr>ln_link := on_table (\<lambda>t. drop_handle t (asked_key (ask i)) g) (ln_link s)\<rparr>) i (Returned r))"
| gives_up: "\<lbrakk>ln_phase s i = Waiting g; \<not> lk_closed (ln_link s)\<rbrakk>
     \<Longrightarrow> line_step crc N ask s
          (phase_is (s\<lparr>ln_link := on_table (\<lambda>t. drop_handle t (asked_key (ask i)) g) (ln_link s)\<rparr>) i (Returned (Inl Timeout)))"
| receives: "line_step crc N ask s (s\<lparr>ln_link := on_table (\<lambda>t. dispatch t p) (ln_link s)\<rparr>)"
| writes: "line_step crc N ask s (s\<lparr>ln_link := write_one True (ln_link s)\<rparr>)"
| swaps: "swap_closed (ln_link s) = (lk, False) \<Longrightarrow> line_step crc N ask s (s\<lparr>ln_link := lk, ln_closing := True\<rparr>)"
| fails: "ln_closing s \<Longrightarrow> line_step crc N ask s (s\<lparr>ln_link := fail_and_abort (ln_link s), ln_closing := False\<rparr>)"

inductive_cases line_stepE: "line_step crc N ask s s'"

definition line_start :: line where
  "line_start = \<lparr>ln_link = link_start, ln_closing = False, ln_phase = (\<lambda>_. Idle)\<rparr>"

definition line_reachable :: "(bytes \<Rightarrow> u32) \<Rightarrow> nat \<Rightarrow> (nat \<Rightarrow> pack) \<Rightarrow> line \<Rightarrow> bool" where
  "line_reachable crc N ask s \<longleftrightarrow> (line_step crc N ask)\<^sup>*\<^sup>* line_start s"

definition phase_slot :: "phase \<Rightarrow> u64 option" where
  "phase_slot ph = (case ph of Registered g \<Rightarrow> Some g | Checked g bs \<Rightarrow> Some g | Waiting g \<Rightarrow> Some g | _ \<Rightarrow> None)"

text \<open>
  The invariant: the table is sound and has handed out at most one number per caller that started; every
  slot in a caller's hand is one of them; and once the closing is over, nobody who saw the link open is
  in the table any more and nothing enters the queue.
\<close>

definition line_inv :: "nat \<Rightarrow> line \<Rightarrow> bool" where
  "line_inv N s \<longleftrightarrow>
     (\<exists>n\<le>card {i. i < N \<and> ln_phase s i \<noteq> Idle}. table_inv n (lk_table (ln_link s))
        \<and> (\<forall>i g. phase_slot (ln_phase s i) = Some g \<longrightarrow> issued n g))
     \<and> (ln_closing s \<longrightarrow> lk_closed (ln_link s))
     \<and> (lk_closed (ln_link s) \<and> \<not> ln_closing s \<longrightarrow>
          \<not> lk_writer (ln_link s)
          \<and> (\<forall>i g bs. ln_phase s i = Waiting g \<or> ln_phase s i = Checked g bs \<longrightarrow> pending_wait (lk_table (ln_link s)) g \<noteq> None))"

lemma line_inv_start: "line_inv N line_start"
  unfolding line_inv_def
  by (intro conjI exI [of _ 0]) (auto simp: line_start_def link_start_def table_inv_new phase_slot_def)

text \<open>A step that runs a table operation and moves at most one caller that has started.\<close>

lemma line_inv_op:
  assumes inv: "line_inv N s" and tab: "lk_table (ln_link s') = table_op c (lk_table (ln_link s))"
    and started: "{i. ln_phase s i \<noteq> Idle} \<subseteq> {i. ln_phase s' i \<noteq> Idle}"
    and slots: "\<And>i g. phase_slot (ln_phase s' i) = Some g \<Longrightarrow> phase_slot (ln_phase s i) = Some g"
    and closing: "ln_closing s' \<longrightarrow> lk_closed (ln_link s')"
    and after: "lk_closed (ln_link s') \<and> \<not> ln_closing s' \<Longrightarrow> \<not> lk_writer (ln_link s')
       \<and> (\<forall>i g bs. ln_phase s' i = Waiting g \<or> ln_phase s' i = Checked g bs \<longrightarrow>
            c = Ev_Fail_All \<or> pending_wait (lk_table (ln_link s)) g \<noteq> None)"
  shows "line_inv N s'"
proof -
  let ?t = "lk_table (ln_link s)" and ?c = "\<lambda>ph. card {i. i < N \<and> ph i \<noteq> Idle}"
  obtain n where n: "n \<le> ?c (ln_phase s)" "table_inv n ?t" "\<And>i g. phase_slot (ln_phase s i) = Some g \<Longrightarrow> issued n g"
    using inv unfolding line_inv_def by blast
  have more: "?c (ln_phase s) \<le> ?c (ln_phase s')" by (rule card_mono) (use started in auto)
  have inv': "table_inv n (lk_table (ln_link s'))" unfolding tab by (rule tw.run_op_inv [OF n(2)])
  have hold: "\<And>i g. phase_slot (ln_phase s' i) = Some g \<Longrightarrow> issued n g" using slots n(3) by blast
  have "pending_wait (lk_table (ln_link s')) g \<noteq> None"
    if "lk_closed (ln_link s') \<and> \<not> ln_closing s'" "ln_phase s' i = Waiting g \<or> ln_phase s' i = Checked g bs" for i g bs
  proof -
    have g: "issued n g" using hold [of i g] that(2) by (auto simp: phase_slot_def)
    show ?thesis
    proof (cases "c = Ev_Fail_All")
      case True
      then show ?thesis using tw.shut_ends [OF n(2) g] by (simp add: tab table_op_def)
    next
      case False
      then have "pending_wait ?t g \<noteq> None" using after [OF that(1), THEN conjunct2, rule_format, OF that(2)] by simp
      then show ?thesis using tw.run_op_ends [OF n(2) g, of c] unfolding tab by metis
    qed
  qed
  note answered = this
  show ?thesis
    unfolding line_inv_def
  proof (intro conjI impI exI [of _ n])
    show "n \<le> ?c (ln_phase s')" using n(1) more by simp
    show "table_inv n (lk_table (ln_link s'))" by (rule inv')
    show "\<forall>i g. phase_slot (ln_phase s' i) = Some g \<longrightarrow> issued n g" using hold by blast
    show "lk_closed (ln_link s')" if "ln_closing s'" using closing that by blast
    show "\<not> lk_writer (ln_link s')" if "lk_closed (ln_link s') \<and> \<not> ln_closing s'" using after [OF that] by blast
    show "\<forall>i g bs. ln_phase s' i = Waiting g \<or> ln_phase s' i = Checked g bs \<longrightarrow> pending_wait (lk_table (ln_link s')) g \<noteq> None"
      if "lk_closed (ln_link s') \<and> \<not> ln_closing s'" using answered [OF that] by blast
  qed
qed

text \<open>The operations of the steps, as operations of the contract.\<close>

lemma drop_op: "drop_handle t k g = table_op (Ev_Drop k g) t"
  and dispatch_op: "dispatch t p = table_op (Ev_Dispatch p) t"
  and fail_op: "fail_all t = table_op Ev_Fail_All t"
  and same_op: "t\<lparr>st_channels := st_channels t\<rparr> = t"
  by (simp_all add: table_op_def)

lemma line_inv_registers:
  assumes inv: "line_inv N s" and N: "N < 2 ^ 64" and i: "i < N" "ln_phase s i = Idle"
    and r: "register (lk_table (ln_link s)) k Oneshot_Sink = Inr (t, g)"
  shows "line_inv N (phase_is (s\<lparr>ln_link := (ln_link s)\<lparr>lk_table := t\<rparr>\<rparr>) i (Registered g))"
proof -
  let ?s' = "phase_is (s\<lparr>ln_link := (ln_link s)\<lparr>lk_table := t\<rparr>\<rparr>) i (Registered g)"
  let ?A = "{j. j < N \<and> ln_phase s j \<noteq> Idle}" and ?B = "{j. j < N \<and> ln_phase ?s' j \<noteq> Idle}"
  obtain n where n: "n \<le> card ?A" "table_inv n (lk_table (ln_link s))"
    "\<And>j h. phase_slot (ln_phase s j) = Some h \<Longrightarrow> issued n h"
    using inv unfolding line_inv_def by blast
  have B: "?B = insert i ?A" "i \<notin> ?A" using i by auto
  have card: "card ?B = card ?A + 1" unfolding B(1) using B(2) by simp
  have "card ?B \<le> card {..<N}" by (rule card_mono) auto
  then have bound: "n + 1 < 2 ^ 64" using card n(1) N by simp
  have reg: "table_reg (lk_table (ln_link s)) (k, Oneshot_Sink) = Some (t, g)" using r by (simp add: table_reg_def)
  note fresh = tw.reg_fresh [OF n(2) reg bound]
  have keeps: "issued (n + 1) h" "pending_wait t h = None \<Longrightarrow> pending_wait (lk_table (ln_link s)) h = None" if "issued n h" for h
    using tw.reg_adds [OF n(2) reg bound that] by blast+
  show ?thesis
    unfolding line_inv_def
  proof (intro conjI impI exI [of _ "n + 1"])
    show "n + 1 \<le> card ?B" using card n(1) by simp
    show "table_inv (n + 1) (lk_table (ln_link ?s'))" using fresh by simp
    show "\<forall>j h. phase_slot (ln_phase ?s' j) = Some h \<longrightarrow> issued (n + 1) h"
      using fresh n(3) keeps(1) by (auto simp: phase_slot_def [of "Registered g"])
    show "lk_closed (ln_link ?s')" if "ln_closing ?s'" using inv that by (simp add: line_inv_def)
    show "\<not> lk_writer (ln_link ?s')" if "lk_closed (ln_link ?s') \<and> \<not> ln_closing ?s'" using inv that by (simp add: line_inv_def)
    show "\<forall>j h bs. ln_phase ?s' j = Waiting h \<or> ln_phase ?s' j = Checked h bs \<longrightarrow> pending_wait (lk_table (ln_link ?s')) h \<noteq> None"
      if over: "lk_closed (ln_link ?s') \<and> \<not> ln_closing ?s'"
    proof (intro allI impI)
      fix j h bs assume j: "ln_phase ?s' j = Waiting h \<or> ln_phase ?s' j = Checked h bs"
      then have old: "ln_phase s j = Waiting h \<or> ln_phase s j = Checked h bs" by (auto split: if_splits)
      then have "issued n h" using n(3) [of j h] by (auto simp: phase_slot_def)
      moreover have "pending_wait (lk_table (ln_link s)) h \<noteq> None" using inv old over by (auto simp: line_inv_def)
      ultimately show "pending_wait (lk_table (ln_link ?s')) h \<noteq> None" using keeps(2) [of h] by (simp del: not_None_eq) blast
    qed
  qed
qed


text \<open>A caller that has started lets go of its slot.\<close>

lemma line_inv_return:
  assumes "line_inv N s" "ln_phase s i \<noteq> Idle"
  shows "line_inv N (phase_is (s\<lparr>ln_link := on_table (\<lambda>t. drop_handle t k g) (ln_link s)\<rparr>) i (Returned r))"
  by (rule line_inv_op [OF assms(1), of _ "Ev_Drop k g"])
    (use assms in \<open>auto simp: drop_op phase_slot_def line_inv_def split: if_splits\<close>)

text \<open>A step that leaves the table alone.\<close>

lemma line_inv_same:
  assumes "line_inv N s" "lk_table (ln_link s') = lk_table (ln_link s)"
    and "{i. ln_phase s i \<noteq> Idle} \<subseteq> {i. ln_phase s' i \<noteq> Idle}"
    and "\<And>i g. phase_slot (ln_phase s' i) = Some g \<Longrightarrow> phase_slot (ln_phase s i) = Some g"
    and "ln_closing s' \<longrightarrow> lk_closed (ln_link s')"
    and "lk_closed (ln_link s') \<and> \<not> ln_closing s' \<Longrightarrow> \<not> lk_writer (ln_link s')
       \<and> (\<forall>i g bs. ln_phase s' i = Waiting g \<or> ln_phase s' i = Checked g bs \<longrightarrow> pending_wait (lk_table (ln_link s)) g \<noteq> None)"
  shows "line_inv N s'"
  by (rule line_inv_op [OF assms(1), of _ "Ev_Register undefined undefined"]) (use assms(2-6) in \<open>auto simp: table_op_def\<close>)

lemma line_inv_step:
  assumes step: "line_step crc N ask s s'" and inv: "line_inv N s" and N: "N < 2 ^ 64"
  shows "line_inv N s'"
  using step inv
proof (cases rule: line_step.cases)
  case (registers i t g)
  then show ?thesis using line_inv_registers [OF inv N] by simp
next
  case (refused i e)
  show ?thesis unfolding refused(1)
    by (rule line_inv_same [OF inv]) (use inv in \<open>auto simp: phase_slot_def line_inv_def split: if_splits\<close>)
next
  case (checks i g bs)
  show ?thesis unfolding checks(1)
    by (rule line_inv_same [OF inv]) (use inv checks in \<open>auto simp: phase_slot_def line_inv_def split: if_splits\<close>)
next
  case (unencodable i g e)
  then show ?thesis using line_inv_return [OF inv] by simp
next
  case (finds_closed i g)
  then show ?thesis using line_inv_return [OF inv] by simp
next
  case (queues i g bs lk)
  have lk: "lk = (ln_link s)\<lparr>lk_outgoing := lk_outgoing (ln_link s) @ [bs]\<rparr>" "lk_writer (ln_link s)"
    using queues(3) by (auto simp: enqueue_def split: if_splits)
  show ?thesis unfolding queues(1)
    by (rule line_inv_same [OF inv]) (use inv queues(2) lk in \<open>auto simp: phase_slot_def line_inv_def split: if_splits\<close>)
next
  case (not_queued i g bs)
  then show ?thesis using line_inv_return [OF inv] by simp
next
  case (is_answered i g r)
  then show ?thesis using line_inv_return [OF inv] by simp
next
  case (gives_up i g)
  then show ?thesis using line_inv_return [OF inv] by simp
next
  case (receives p)
  show ?thesis unfolding receives
    by (rule line_inv_op [OF inv, of _ "Ev_Dispatch p"]) (use inv in \<open>auto simp: dispatch_op line_inv_def\<close>)
next
  case writes
  have w: "lk_table (write_one True (ln_link s)) = lk_table (ln_link s)" "lk_closed (write_one True (ln_link s)) = lk_closed (ln_link s)"
    "lk_writer (write_one True (ln_link s)) = lk_writer (ln_link s)"
    by (auto simp: write_one_def split: list.splits)
  show ?thesis unfolding writes
    by (rule line_inv_same [OF inv]) (use inv w in \<open>auto simp: line_inv_def\<close>)
next
  case (swaps lk)
  then show ?thesis
    by (intro line_inv_same [OF inv]) (use inv in \<open>auto simp: swap_closed_def line_inv_def\<close>)
next
  case fails
  show ?thesis unfolding fails(1)
    by (rule line_inv_op [OF inv, of _ Ev_Fail_All]) (use inv fails in \<open>auto simp: fail_and_abort_def fail_op line_inv_def\<close>)
qed

text \<open>
  C17. However the steps of the callers, of the tasks and of whoever closes interleave: once the closing
  is over, nobody is left waiting.  Every caller that waits has its answer; every caller that had found
  the connection open before is refused by the queue; and whoever looks at the flag from then on finds it
  closed.  So no step is left that makes a caller wait, and no waiting caller is left without an answer.
\<close>

theorem closed_link_answers_everybody:
  assumes "line_reachable crc N ask s" "N < 2 ^ 64" "lk_closed (ln_link s)" "\<not> ln_closing s"
  shows "(\<forall>i. case ln_phase s i of
       Waiting g \<Rightarrow> pending_wait (lk_table (ln_link s)) g \<noteq> None
     | Checked g bs \<Rightarrow> enqueue (ln_link s) bs = Some (Inl Network)
     | _ \<Rightarrow> True)
   \<and> (\<forall>s'. line_step crc N ask s s' \<longrightarrow>
       lk_closed (ln_link s') \<and> \<not> ln_closing s'
       \<and> (\<forall>i g. ln_phase s' i = Waiting g \<longrightarrow> ln_phase s i = Waiting g)
       \<and> (\<forall>i g bs. ln_phase s' i = Checked g bs \<longrightarrow> ln_phase s i = Checked g bs))"
proof (intro conjI allI impI)
  have inv: "line_inv N s"
    using assms(1) unfolding line_reachable_def
    by (induction rule: rtranclp_induct) (auto intro: line_inv_start line_inv_step assms(2))
  have refused: "enqueue (ln_link s) bs = Some (Inl Network)" for bs
    using inv assms(3,4) by (simp add: line_inv_def enqueue_def)
  show "case ln_phase s i of
       Waiting g \<Rightarrow> pending_wait (lk_table (ln_link s)) g \<noteq> None
     | Checked g bs \<Rightarrow> enqueue (ln_link s) bs = Some (Inl Network)
     | _ \<Rightarrow> True" for i
    using inv assms(3,4) refused by (auto simp: line_inv_def split: phase.split)
  fix s' assume "line_step crc N ask s s'"
  then have "lk_closed (ln_link s') \<and> \<not> ln_closing s'
     \<and> (\<forall>i g. ln_phase s' i = Waiting g \<longrightarrow> ln_phase s i = Waiting g)
     \<and> (\<forall>i g bs. ln_phase s' i = Checked g bs \<longrightarrow> ln_phase s i = Checked g bs)"
    using assms(3,4) refused
    by cases (auto simp: swap_closed_def write_one_def split: if_splits list.splits)
  then show "lk_closed (ln_link s')" "\<not> ln_closing s'" "\<And>i g. ln_phase s' i = Waiting g \<Longrightarrow> ln_phase s i = Waiting g"
    "\<And>i g bs. ln_phase s' i = Checked g bs \<Longrightarrow> ln_phase s i = Checked g bs" by blast+
qed

lemma closed_link_answers_everybody_witness:
  "\<exists>s. line_reachable (\<lambda>_. 0) 1 (\<lambda>_. ping 5) s \<and> ln_phase s 0 = Waiting 1 \<and> lk_closed (ln_link s)
     \<and> pending_wait (lk_table (ln_link s)) 1 \<noteq> None"
proof -
  let ?step = "line_step (\<lambda>_. 0) 1 (\<lambda>_. ping 5)"
  obtain bs where bs: "encode (\<lambda>_. 0) (ping 5) = Inr bs"
    by (simp add: encode_def ping_def rbind_def ensure_def KNOWN_def WANT_ACK_def META_ENCRYPTED_def IS_RESPONSE_def IS_LAST_def
        IS_BRIDGED_def ok_or_def u32_try_from_def Let_def)
  let ?t = "run_table [Ev_Register (Reply_Key 0 5) Oneshot_Sink] table_new"
  have "register table_new (Reply_Key 0 5) Oneshot_Sink = Inr (?t, 1)"
    by (simp add: run_table_def register_def table_new_def Let_def)
  obtain s1 where s1: "s1 = phase_is (line_start\<lparr>ln_link := link_start\<lparr>lk_table := ?t\<rparr>\<rparr>) 0 (Registered 1)" by simp
  obtain s2 where s2: "s2 = phase_is s1 0 (Checked 1 bs)" by simp
  obtain s3 where s3: "s3 = phase_is (s2\<lparr>ln_link := (ln_link s2)\<lparr>lk_outgoing := [bs]\<rparr>\<rparr>) 0 (Waiting 1)" by simp
  obtain s4 where s4: "s4 = s3\<lparr>ln_link := (ln_link s3)\<lparr>lk_closed := True\<rparr>, ln_closing := True\<rparr>" by simp
  obtain s5 where s5: "s5 = s4\<lparr>ln_link := fail_and_abort (ln_link s4), ln_closing := False\<rparr>" by simp
  have a1: "?step line_start s1"
    using line_step.registers [of 0 1 line_start "\<lambda>_. ping 5" ?t 1] \<open>register table_new _ _ = _\<close>
    by (simp add: s1 line_start_def link_start_def ping_def)
  have a2: "?step s1 s2"
    using line_step.checks [of s1 0 1 "\<lambda>_. 0" "\<lambda>_. ping 5" bs] bs by (simp add: s1 s2 line_start_def link_start_def)
  have a3: "?step s2 s3"
    using line_step.queues [of s2 0 1 bs "(ln_link s2)\<lparr>lk_outgoing := [bs]\<rparr>"]
    by (simp add: s1 s2 s3 line_start_def link_start_def enqueue_def SEND_QUEUE_PACKS_def)
  have a4: "?step s3 s4"
    using line_step.swaps [of s3 "(ln_link s3)\<lparr>lk_closed := True\<rparr>"] by (simp add: s1 s2 s3 s4 line_start_def link_start_def swap_closed_def)
  have a5: "?step s4 s5" using line_step.fails [of s4] by (simp add: s4 s5)
  note go = rtranclp.rtrancl_into_rtrancl [of ?step]
  have "?step\<^sup>*\<^sup>* line_start s5"
    by (rule go [OF go [OF go [OF go [OF go [OF rtranclp.rtrancl_refl a1] a2] a3] a4] a5])
  then have reach: "line_reachable (\<lambda>_. 0) 1 (\<lambda>_. ping 5) s5" by (simp only: line_reachable_def)
  have at: "lk_closed (ln_link s5)" "\<not> ln_closing s5" "ln_phase s5 0 = Waiting 1"
    by (simp_all add: s1 s2 s3 s4 s5 fail_and_abort_def)
  have one: "(1 :: nat) < 2 ^ 64" by simp
  have "pending_wait (lk_table (ln_link s5)) 1 \<noteq> None"
    using closed_link_answers_everybody [OF reach one at(1,2), THEN conjunct1, THEN spec, of 0] by (simp add: at(3) del: not_None_eq)
  then show ?thesis using reach at(1,3) by blast
qed

section \<open>The numbers a line hands out\<close>

primrec draw_seqs :: "nat \<Rightarrow> link \<Rightarrow> u32 list" where
  "draw_seqs 0 lk = []"
| "draw_seqs (Suc k) lk = snd (next_seq lk) # draw_seqs k (fst (next_seq lk))"

lemma draw_seqs_nth: "i < k \<Longrightarrow> draw_seqs k lk ! i = (lk_next_seq lk + of_nat i) OR FIRST_LINE_SEQ"
proof (induction k arbitrary: lk i)
  case (Suc k)
  then show ?case
    using Suc.IH [of "i - 1" "fst (next_seq lk)"] by (cases i) (auto simp: next_seq_def add.assoc)
qed simp

lemma length_draw_seqs [simp]: "length (draw_seqs k lk) = k"
  by (induction k arbitrary: lk) auto

lemma upper_half_eq:
  assumes "x OR FIRST_LINE_SEQ = y OR FIRST_LINE_SEQ"
  shows "uint x mod 2 ^ 31 = uint y mod 2 ^ 31"
proof -
  have "bit (take_bit 31 x) n = bit (take_bit 31 y) n" for n
  proof -
    have "bit (x OR FIRST_LINE_SEQ) n = bit (y OR FIRST_LINE_SEQ) n" using assms by simp
    moreover have "bit FIRST_LINE_SEQ n \<longleftrightarrow> n = 31"
      unfolding FIRST_LINE_SEQ_def by (subst bit_push_bit_iff) (auto simp: bit_1_iff)
    ultimately show ?thesis by (cases "n < 31") (auto simp: bit_take_bit_iff bit_or_iff)
  qed
  then have "take_bit 31 x = take_bit 31 y" by (intro bit_word_eqI) simp
  then have "take_bit 31 (uint x) = take_bit 31 (uint y)"
    by (simp only: flip: unsigned_take_bit_eq)
  then show ?thesis by (simp add: take_bit_eq_mod)
qed

lemma seqs_apart:
  assumes "(s + of_nat i :: u32) OR FIRST_LINE_SEQ = (s + of_nat j) OR FIRST_LINE_SEQ" "i < 2 ^ 31" "j < 2 ^ 31"
  shows "i = j"
proof -
  have u: "uint (s + of_nat k :: u32) mod 2 ^ 31 = (uint s + int k) mod 2 ^ 31" for k
  proof -
    have "uint (s + of_nat k :: u32) = (uint s + int k) mod 2 ^ 32"
      by (simp add: uint_word_ariths unsigned_of_nat take_bit_nat_eq_self of_nat_mod take_bit_eq_mod mod_add_right_eq)
    then show ?thesis by (simp add: mod_mod_cancel)
  qed
  from upper_half_eq [OF assms(1)] have "(uint s + int i) mod 2 ^ 31 = (uint s + int j) mod 2 ^ 31" by (simp only: u)
  then have "int i mod 2 ^ 31 = int j mod 2 ^ 31"
    using mod_diff_cong [of "uint s + int i" "2 ^ 31" "uint s + int j" "uint s" "uint s"] by simp
  then show ?thesis using assms(2,3) by simp
qed

lemma upper_half_ge: "(x OR FIRST_LINE_SEQ :: u32) \<ge> 2 ^ 31"
proof -
  have "FIRST_LINE_SEQ \<le> (x OR FIRST_LINE_SEQ)" using le_word_or2 [of FIRST_LINE_SEQ x] by (simp only: or.commute)
  then show ?thesis by (simp add: FIRST_LINE_SEQ_def push_bit_eq_mult)
qed

text \<open>
  The numbers a connection hands out stay apart: any \<open>2 ^ 31\<close> consecutive request numbers are
  different and in the upper half (the lower half belongs to upload chunk numbers), also where the
  counter wraps; and a session number is never 0, fits the value part of an id, and is read back from it.
\<close>

lemma line_numbers_in_range:
  assumes "k \<le> 2 ^ 31"
  shows "distinct (draw_seqs k lk) \<and> (\<forall>q\<in>set (draw_seqs k lk). 2 ^ 31 \<le> q)
     \<and> (let number = snd (next_session_number lk) in
          number \<noteq> 0 \<and> number \<le> MAX_VALUE
          \<and> compose ID_SESSION number = Some (compose_masked ID_SESSION number)
          \<and> value_of (compose_masked ID_SESSION number) = number \<and> type_of (compose_masked ID_SESSION number) = ID_SESSION)"
proof -
  have "distinct (draw_seqs k lk)"
    unfolding distinct_conv_nth using assms by (auto simp: draw_seqs_nth dest: seqs_apart)
  moreover have "\<forall>q\<in>set (draw_seqs k lk). 2 ^ 31 \<le> q"
  proof
    fix q assume "q \<in> set (draw_seqs k lk)"
    then obtain i where "i < k" "q = (lk_next_seq lk + of_nat i) OR FIRST_LINE_SEQ"
      by (auto simp: in_set_conv_nth draw_seqs_nth)
    then show "2 ^ 31 \<le> q" using upper_half_ge by blast
  qed
  moreover obtain m where m: "snd (next_session_number lk) = m AND MAX_VALUE" "m AND MAX_VALUE \<noteq> 0"
  proof -
    have "snd (next_session_from n) \<noteq> 0 \<and> (\<exists>m. snd (next_session_from n) = m AND MAX_VALUE)" for n
      by (induction n rule: next_session_from.induct) (subst next_session_from.simps, subst next_session_from.simps, auto simp: Let_def)
    then show ?thesis using that [of _] by (metis (no_types, lifting) next_session_number_def split_beta snd_conv)
  qed
  moreover have "m AND MAX_VALUE \<le> MAX_VALUE" by (rule word_and_le1)
  ultimately show ?thesis
    using compose_iff_parts [of ID_SESSION "m AND MAX_VALUE"] by (simp add: Let_def ac_simps)
qed

lemma line_numbers_in_range_witness:
  "draw_seqs 3 (link_start\<lparr>lk_next_seq := - 1\<rparr>) = [0xFFFFFFFF, 0x80000000, 0x80000001]
   \<and> distinct (draw_seqs 3 (link_start\<lparr>lk_next_seq := - 1\<rparr>))"
proof -
  have "draw_seqs 3 (link_start\<lparr>lk_next_seq := - 1\<rparr>) = [0xFFFFFFFF, 0x80000000, 0x80000001]"
    by (simp add: numeral_3_eq_3 next_seq_def FIRST_LINE_SEQ_def)
  with line_numbers_in_range [of 3 "link_start\<lparr>lk_next_seq := - 1\<rparr>"] show ?thesis by simp
qed

section \<open>When the read task gives up\<close>

definition undecodable :: "(bytes \<Rightarrow> u32) \<Rightarrow> sdk_error + bytes option \<Rightarrow> bool" where
  "undecodable crc frame \<longleftrightarrow> (case frame of Inr (Some bs) \<Rightarrow> (\<exists>e. decode crc bs = Inl e) | _ \<Rightarrow> False)"

definition ends_reading :: "sdk_error + bytes option \<Rightarrow> bool" where
  "ends_reading frame \<longleftrightarrow> (case frame of Inr (Some bs) \<Rightarrow> False | _ \<Rightarrow> True)"

text \<open>The packs a list of frames decodes to.\<close>

definition packs_in :: "(bytes \<Rightarrow> u32) \<Rightarrow> (sdk_error + bytes option) list \<Rightarrow> pack list" where
  "packs_in crc frames =
     List.map_filter (\<lambda>f. case f of Inr (Some bs) \<Rightarrow> (case decode crc bs of Inr p \<Rightarrow> Some p | Inl e \<Rightarrow> None) | _ \<Rightarrow> None) frames"

lemma packs_in_simps [simp]:
  "packs_in crc [] = []"
  "packs_in crc (Inl e # fs) = packs_in crc fs"
  "packs_in crc (Inr None # fs) = packs_in crc fs"
  "packs_in crc (Inr (Some bs) # fs) = (case decode crc bs of Inr p \<Rightarrow> p # packs_in crc fs | Inl e \<Rightarrow> packs_in crc fs)"
  by (simp_all add: packs_in_def map_filter_simps split: sum.split)

lemma shut_down_simps [simp]:
  "lk_closed (shut_down lk)"
  "lk_closed lk \<Longrightarrow> shut_down lk = lk"
  "\<not> lk_closed lk \<Longrightarrow> lk_table (shut_down lk) = fail_all (lk_table lk)"
  by (simp_all add: shut_down_def swap_closed_def fail_and_abort_def)

lemma closed_reading [simp]: "lk_closed lk \<Longrightarrow> read_and_dispatch crc frames lk = lk"
  unfolding read_and_dispatch_def by (induction frames) (simp_all add: read_frame_def)

text \<open>Some frame ends the connection: from a count of \<open>b\<close> undecodable frames in a row on.\<close>

definition hopeless :: "(bytes \<Rightarrow> u32) \<Rightarrow> nat \<Rightarrow> (sdk_error + bytes option) list \<Rightarrow> bool" where
  "hopeless crc b frames \<longleftrightarrow>
     (\<exists>f\<in>set frames. ends_reading f)
     \<or> (\<exists>zs. prefix zs frames \<and> length zs = 8 - b \<and> (\<forall>f\<in>set zs. undecodable crc f))
     \<or> (\<exists>zs. sublist zs frames \<and> length zs = 8 \<and> (\<forall>f\<in>set zs. undecodable crc f))"

lemma prefix_bad_shorter:
  assumes "prefix zs xs" "length zs = m" "\<forall>f\<in>set zs. P f" "k \<le> m"
  shows "\<exists>ys. prefix ys xs \<and> length ys = k \<and> (\<forall>f\<in>set ys. P f)"
  using assms by (intro exI [of _ "take k zs"]) (auto intro: prefix_order.trans [OF take_is_prefix] dest: in_set_takeD)

lemma hopeless_nil: "b < 8 \<Longrightarrow> \<not> hopeless crc b []"
  by (auto simp: hopeless_def)

lemma hopeless_end: "ends_reading f \<Longrightarrow> hopeless crc b (f # fs)"
  by (auto simp: hopeless_def)

lemma hopeless_good:
  assumes "\<not> ends_reading f" "\<not> undecodable crc f" "b < 8"
  shows "hopeless crc b (f # fs) \<longleftrightarrow> hopeless crc 0 fs"
proof -
  have no: "\<not> (prefix zs (f # fs) \<and> length zs = Suc k \<and> (\<forall>f\<in>set zs. undecodable crc f))" for zs k
    using assms(2) by (cases zs) auto
  have none: "\<not> (\<exists>zs. prefix zs (f # fs) \<and> length zs = 8 - b \<and> (\<forall>f\<in>set zs. undecodable crc f))"
    "\<not> (\<exists>zs. prefix zs (f # fs) \<and> length zs = 8 \<and> (\<forall>f\<in>set zs. undecodable crc f))"
    using no [where k = "7 - b"] no [where k = 7] assms(3) by (simp_all flip: Suc_diff_le)
  have sub: "(\<exists>zs. sublist zs (f # fs) \<and> length zs = 8 \<and> (\<forall>f\<in>set zs. undecodable crc f))
     \<longleftrightarrow> (\<exists>zs. sublist zs fs \<and> length zs = 8 \<and> (\<forall>f\<in>set zs. undecodable crc f))"
    using none(2) unfolding sublist_Cons_right by blast
  have pre: "\<exists>zs. sublist zs fs \<and> length zs = 8 \<and> (\<forall>f\<in>set zs. undecodable crc f)"
    if "\<exists>zs. prefix zs fs \<and> length zs = 8 \<and> (\<forall>f\<in>set zs. undecodable crc f)"
    using that by (auto dest: prefix_imp_sublist)
  have all: "(\<exists>x\<in>set (f # fs). ends_reading x) \<longleftrightarrow> (\<exists>x\<in>set fs. ends_reading x)" using assms(1) by simp
  show ?thesis unfolding hopeless_def all sub diff_zero using none(1) pre by blast
qed

lemma hopeless_bad:
  assumes "undecodable crc f" "b < 8"
  shows "hopeless crc b (f # fs) \<longleftrightarrow> b = 7 \<or> hopeless crc (Suc b) fs"
proof -
  have f: "\<not> ends_reading f" using assms(1) by (auto simp: undecodable_def ends_reading_def split: sum.splits option.splits)
  have head: "(\<exists>zs. prefix zs (f # fs) \<and> length zs = Suc k \<and> (\<forall>f\<in>set zs. undecodable crc f))
     \<longleftrightarrow> (\<exists>zs. prefix zs fs \<and> length zs = k \<and> (\<forall>f\<in>set zs. undecodable crc f))" for k
  proof
    assume "\<exists>zs. prefix zs (f # fs) \<and> length zs = Suc k \<and> (\<forall>f\<in>set zs. undecodable crc f)"
    then obtain zs where zs: "prefix zs (f # fs)" "length zs = Suc k" "\<forall>f\<in>set zs. undecodable crc f" by blast
    then obtain z zs' where "zs = z # zs'" by (cases zs) auto
    then show "\<exists>zs. prefix zs fs \<and> length zs = k \<and> (\<forall>f\<in>set zs. undecodable crc f)" using zs by auto
  next
    assume "\<exists>zs. prefix zs fs \<and> length zs = k \<and> (\<forall>f\<in>set zs. undecodable crc f)"
    then obtain zs where "prefix zs fs" "length zs = k" "\<forall>f\<in>set zs. undecodable crc f" by blast
    then show "\<exists>zs. prefix zs (f # fs) \<and> length zs = Suc k \<and> (\<forall>f\<in>set zs. undecodable crc f)"
      using assms(1) by (intro exI [of _ "f # zs"]) auto
  qed
  have b: "8 - b = Suc (7 - b)" using assms(2) by simp
  have whole: "\<exists>zs. prefix zs fs \<and> length zs = 7 - b \<and> (\<forall>f\<in>set zs. undecodable crc f)"
    if "prefix zs (f # fs)" "length zs = 8" "\<forall>f\<in>set zs. undecodable crc f" for zs
  proof -
    have "\<exists>zs. prefix zs (f # fs) \<and> length zs = Suc (7 - b) \<and> (\<forall>f\<in>set zs. undecodable crc f)"
      by (rule prefix_bad_shorter [OF that]) simp
    then show ?thesis by (simp only: head)
  qed
  show ?thesis
  proof (cases "b = 7")
    case True
    then show ?thesis using assms(1) unfolding hopeless_def b head by (auto intro!: exI [of _ "[]"])
  next
    case False
    then have "8 - Suc b = 7 - b" using assms(2) by simp
    then show ?thesis
      using False f whole unfolding hopeless_def b head sublist_Cons_right by auto
  qed
qed

lemma reading_outcome:
  assumes "\<not> lk_closed lk" "unat (lk_bad_frames lk) = b" "b < 8"
  shows "(lk_closed (read_and_dispatch crc frames lk) \<longleftrightarrow> hopeless crc b frames)
     \<and> (\<not> hopeless crc b frames \<longrightarrow>
          lk_table (read_and_dispatch crc frames lk) = fold (\<lambda>p t. dispatch t p) (packs_in crc frames) (lk_table lk)
          \<and> lk_received (read_and_dispatch crc frames lk) = lk_received lk + of_nat (length (packs_in crc frames))
          \<and> lk_answered (read_and_dispatch crc frames lk)
            = lk_answered lk + of_nat (length (filter (\<lambda>p. \<not> is_pong p) (packs_in crc frames))))"
  using assms
proof (induction frames arbitrary: lk b)
  case Nil
  then show ?case by (simp add: hopeless_nil read_and_dispatch_def)
next
  case (Cons f fs)
  have step: "read_and_dispatch crc (f # fs) lk = read_and_dispatch crc fs (read_frame crc f lk)"
    by (simp add: read_and_dispatch_def)
  show ?case
  proof (cases "ends_reading f")
    case True
    then have "read_frame crc f lk = shut_down lk"
      using Cons.prems(1) by (auto simp: read_frame_def ends_reading_def split: sum.splits option.splits)
    then show ?thesis using hopeless_end [OF True] by (simp add: step)
  next
    case False
    then obtain bs where f: "f = Inr (Some bs)" by (auto simp: ends_reading_def split: sum.splits option.splits)
    show ?thesis
    proof (cases "decode crc bs")
      case (Inr p)
      have "\<not> undecodable crc f" by (simp add: f undecodable_def Inr)
      note h = hopeless_good [OF False this Cons.prems(3), of fs]
      let ?lk = "read_frame crc f lk"
      have lk: "\<not> lk_closed ?lk" "unat (lk_bad_frames ?lk) = 0" "lk_table ?lk = dispatch (lk_table lk) p"
        "lk_received ?lk = lk_received lk + 1" "lk_answered ?lk = (if is_pong p then lk_answered lk else lk_answered lk + 1)"
        using Cons.prems(1) by (simp_all add: f read_frame_def Inr)
      show ?thesis unfolding step h using Cons.IH [OF lk(1,2)] lk(3-5) by (simp add: f Inr)
    next
      case (Inl e)
      have bad: "undecodable crc f" by (simp add: f undecodable_def Inl)
      note h = hopeless_bad [OF bad Cons.prems(3), of fs]
      have count: "unat (lk_bad_frames lk + 1) = Suc b"
        using Cons.prems(2,3) by (simp add: unat_word_ariths)
      have budget: "CORRUPT_FRAME_BUDGET \<le> lk_bad_frames lk + 1 \<longleftrightarrow> b = 7"
        using Cons.prems(3) by (simp add: word_le_nat_alt CORRUPT_FRAME_BUDGET_def count) arith
      show ?thesis
      proof (cases "b = 7")
        case True
        then have "lk_closed (read_frame crc f lk)" using Cons.prems(1) budget by (simp add: f read_frame_def Inl Let_def)
        then show ?thesis unfolding step h using True by simp
      next
        case False
        let ?lk = "lk\<lparr>lk_bad_frames := lk_bad_frames lk + 1\<rparr>"
        have "read_frame crc f lk = ?lk" using Cons.prems(1) False budget by (simp add: f read_frame_def Inl Let_def)
        then show ?thesis unfolding step h
          using Cons.IH [of ?lk "Suc b"] Cons.prems(1,3) count False by (simp add: f Inl)
      qed
    qed
  qed
qed

text \<open>
  The read task closes the connection exactly when a frame says so (the peer closed, the socket
  failed) or eight frames in a row do not decode, wherever they are in the stream; as long as it does not,
  every frame that decodes is dispatched, in order, and counted, and the others change nothing.
\<close>

lemma read_task_gives_up_iff:
  assumes "\<not> lk_closed lk" "lk_bad_frames lk = 0"
  shows "(lk_closed (read_and_dispatch crc frames lk) \<longleftrightarrow>
       (\<exists>f\<in>set frames. ends_reading f)
       \<or> (\<exists>zs. sublist zs frames \<and> length zs = unat CORRUPT_FRAME_BUDGET \<and> (\<forall>f\<in>set zs. undecodable crc f)))
     \<and> (\<not> lk_closed (read_and_dispatch crc frames lk) \<longrightarrow>
          lk_table (read_and_dispatch crc frames lk) = fold (\<lambda>p t. dispatch t p) (packs_in crc frames) (lk_table lk)
          \<and> lk_received (read_and_dispatch crc frames lk) = lk_received lk + of_nat (length (packs_in crc frames))
          \<and> lk_answered (read_and_dispatch crc frames lk)
            = lk_answered lk + of_nat (length (filter (\<lambda>p. \<not> is_pong p) (packs_in crc frames))))"
proof -
  have "hopeless crc 0 frames \<longleftrightarrow> (\<exists>f\<in>set frames. ends_reading f)
      \<or> (\<exists>zs. sublist zs frames \<and> length zs = unat CORRUPT_FRAME_BUDGET \<and> (\<forall>f\<in>set zs. undecodable crc f))"
    by (auto simp: hopeless_def CORRUPT_FRAME_BUDGET_def dest: prefix_imp_sublist)
  then show ?thesis using reading_outcome [OF assms(1), of 0 crc frames] assms(2) by simp
qed

lemma read_task_gives_up_iff_witness:
  "\<not> lk_closed (read_and_dispatch (\<lambda>_. 0) (replicate 7 (Inr (Some []))) link_start)
   \<and> lk_closed (read_and_dispatch (\<lambda>_. 0) (replicate 8 (Inr (Some []))) link_start)"
proof -
  have bad: "undecodable (\<lambda>_. 0) (Inr (Some []))" by (simp add: undecodable_def decode_def MIN_PACK_LEN_def)
  have start: "\<not> lk_closed link_start" "lk_bad_frames link_start = 0" by (simp_all add: link_start_def)
  note iff = read_task_gives_up_iff [OF start, of "\<lambda>_. 0", THEN conjunct1]
  have len: "unat CORRUPT_FRAME_BUDGET = 8" by (simp add: CORRUPT_FRAME_BUDGET_def)
  have "\<not> lk_closed (read_and_dispatch (\<lambda>_. 0) (replicate 7 (Inr (Some []))) link_start)"
    unfolding iff len by (auto simp: ends_reading_def dest: sublist_length_le)
  moreover have "lk_closed (read_and_dispatch (\<lambda>_. 0) (replicate 8 (Inr (Some []))) link_start)"
    unfolding iff len using bad by (intro disjI2 exI [of _ "replicate 8 (Inr (Some []))"]) simp
  ultimately show ?thesis ..
qed

section \<open>Asking, and asking again\<close>

text \<open>The line while a request waits: nothing in the queue, its slot in the table.\<close>

definition asking :: "link \<Rightarrow> session_key \<Rightarrow> u64 \<Rightarrow> (session_key \<times> entry) list \<Rightarrow> bool" where
  "asking lk key g others \<longleftrightarrow>
     \<not> lk_closed lk \<and> lk_writer lk \<and> lk_outgoing lk = []
     \<and> st_entries (lk_table lk) = (key, \<lparr>en_generation = g, en_sink = Oneshot_Sink\<rparr>) # others
     \<and> key \<notin> fst ` set others
     \<and> ch_sender (st_channels (lk_table lk) g) \<and> ch_receiver (st_channels (lk_table lk) g)
     \<and> ch_answer (st_channels (lk_table lk) g) = None"

lemma ask_once:
  assumes "asking lk key g others" "encode crc p = Inr bs"
  obtains lk1 where "send crc [] lk p = (lk1, Inr ())" "asking (run_link crc [Le_Write True] lk1) key g others"
    "lk_written (run_link crc [Le_Write True] lk1) = lk_written lk @ [bs]"
    "lk_table (run_link crc [Le_Write True] lk1) = lk_table lk"
    "\<forall>ev. run_link crc [Le_Write True, ev] lk1 = run_link crc [ev] (run_link crc [Le_Write True] lk1)"
  using that [of "lk\<lparr>lk_outgoing := [bs]\<rparr>"] assms
  by (simp add: asking_def send_def run_link_def enqueue_def SEND_QUEUE_PACKS_def write_one_def)

lemma asking_waits: "asking lk key g others \<Longrightarrow> pending_wait (lk_table lk) g = None"
  by (simp add: asking_def pending_wait_def)

text \<open>What the server's answer looks like to the table.\<close>

definition answers :: "pack \<Rightarrow> pack \<Rightarrow> bool" where
  "answers p r \<longleftrightarrow> pk_kind r = Control \<and> pk_flags r AND IS_RESPONSE \<noteq> 0 \<and> pk_id r = pk_id p \<and> pk_seq r = pk_seq p"

lemma answered_once:
  assumes ask: "asking lk (asked_key p) g others" and r: "answers p r" "decode crc rbs = Inr r"
    and alone: "pk_id p = 0 \<or> Session_Key (pk_id p) \<notin> fst ` set others"
  shows "pending_wait (lk_table (run_link crc [Le_Read (Inr (Some rbs))] lk)) g = Some (Inr r)"
    and "st_entries (lk_table (run_link crc [Le_Read (Inr (Some rbs))] lk)) = others"
    and "lk_written (run_link crc [Le_Read (Inr (Some rbs))] lk) = lk_written lk"
    and "lk_closed (run_link crc [Le_Read (Inr (Some rbs))] lk) = False"
proof -
  have key: "find_key (lk_table lk) r = Some (asked_key p)"
    using ask r(1) alone by (auto simp: find_key_def asking_def answers_def Let_def map_of_eq_None_iff)
  have d: "dispatch (lk_table lk) r = (set_channel (lk_table lk) g
      ((st_channels (lk_table lk) g)\<lparr>ch_answer := Some (Inr r), ch_sender := False\<rparr>))\<lparr>st_entries := others\<rparr>"
    using ask by (simp add: dispatch_def key asking_def oneshot_send_def)
  show "pending_wait (lk_table (run_link crc [Le_Read (Inr (Some rbs))] lk)) g = Some (Inr r)"
    "st_entries (lk_table (run_link crc [Le_Read (Inr (Some rbs))] lk)) = others"
    "lk_written (run_link crc [Le_Read (Inr (Some rbs))] lk) = lk_written lk"
    "lk_closed (run_link crc [Le_Read (Inr (Some rbs))] lk) = False"
    using ask r(2) by (simp_all add: run_link_def read_frame_def d asking_def pending_wait_def)
qed

text \<open>The socket takes every copy; the answer arrives while attempt \<open>j\<close> waits.\<close>

definition answered_at :: "nat \<Rightarrow> bytes \<Rightarrow> nat \<Rightarrow> link_event list \<times> link_event list" where
  "answered_at j rbs a = ([], Le_Write True # (if a = j then [Le_Read (Inr (Some rbs))] else []))"

lemma policy_loop_outcome:
  assumes "asking lk (asked_key p) g others" "encode crc p = Inr bs" "answers p r" "decode crc rbs = Inr r"
    and "pk_id p = 0 \<or> Session_Key (pk_id p) \<notin> fst ` set others" "a \<le> j"
  shows "\<exists>lk'. policy_loop crc (answered_at j rbs) a n lk g p = (lk', if j \<le> a + n then Inr r else Inl Timeout)
     \<and> lk_written lk' = lk_written lk @ replicate (min (Suc j - a) (Suc n)) bs
     \<and> \<not> lk_closed lk'
     \<and> (if j \<le> a + n then st_entries (lk_table lk') = others else asking lk' (asked_key p) g others)"
  using assms
proof (induction n arbitrary: a lk)
  case (0 a lk)
  obtain lk1 where lk1: "send crc [] lk p = (lk1, Inr ())"
    "asking (run_link crc [Le_Write True] lk1) (asked_key p) g others"
    "lk_written (run_link crc [Le_Write True] lk1) = lk_written lk @ [bs]"
    "\<forall>ev. run_link crc [Le_Write True, ev] lk1 = run_link crc [ev] (run_link crc [Le_Write True] lk1)"
    by (rule ask_once [OF 0(1,2)]) blast
  show ?case
  proof (cases "a = j")
    case True
    then show ?thesis
      using lk1 answered_once [OF lk1(2) 0(3,4,5)] by (simp add: answered_at_def)
  next
    case False
    then show ?thesis
      using lk1 0(6) asking_waits [OF lk1(2)] by (simp add: answered_at_def no_reply_error_def asking_def Suc_diff_le)
  qed
next
  case (Suc n a lk)
  obtain lk1 where lk1: "send crc [] lk p = (lk1, Inr ())"
    "asking (run_link crc [Le_Write True] lk1) (asked_key p) g others"
    "lk_written (run_link crc [Le_Write True] lk1) = lk_written lk @ [bs]"
    "\<forall>ev. run_link crc [Le_Write True, ev] lk1 = run_link crc [ev] (run_link crc [Le_Write True] lk1)"
    by (rule ask_once [OF Suc.prems(1,2)]) blast
  show ?case
  proof (cases "a = j")
    case True
    then show ?thesis
      using lk1 answered_once [OF lk1(2) Suc.prems(3,4,5)] by (simp add: answered_at_def)
  next
    case False
    let ?lk = "run_link crc [Le_Write True] lk1"
    have next_a: "a + 1 \<le> j" using False Suc.prems(6) by simp
    from Suc.IH [OF lk1(2) Suc.prems(2-5) next_a] obtain lk' where lk':
      "policy_loop crc (answered_at j rbs) (a + 1) n ?lk g p = (lk', if j \<le> a + 1 + n then Inr r else Inl Timeout)"
      "lk_written lk' = lk_written ?lk @ replicate (min (Suc j - (a + 1)) (Suc n)) bs" "\<not> lk_closed lk'"
      "if j \<le> a + 1 + n then st_entries (lk_table lk') = others else asking lk' (asked_key p) g others" by blast
    have "policy_loop crc (answered_at j rbs) a (Suc n) lk g p = policy_loop crc (answered_at j rbs) (a + 1) n ?lk g p"
      using False lk1(1) asking_waits [OF lk1(2)] by (simp add: answered_at_def)
    moreover have "min (Suc j - a) (Suc (Suc n)) = Suc (min (Suc j - (a + 1)) (Suc n))" using next_a by simp
    ultimately show ?thesis using lk' lk1(3) by (intro exI [of _ lk']) simp
  qed
qed

text \<open>
  C18. A request is sent again, unchanged, until it is answered: when the answer arrives while attempt
  \<open>j\<close> waits, exactly \<open>min j attempts\<close> copies of the one encoding go out, the caller gets that answer if
  \<open>j\<close> was among its attempts and \<open>Timeout\<close> otherwise, the link stays open, and the table is left with
  exactly the sessions it had.
\<close>

theorem request_resent_until_answered:
  fixes policy :: ack_policy
  assumes "\<not> lk_closed lk" "lk_writer lk" "lk_outgoing lk = []"
    and "find_entry (lk_table lk) (asked_key p) = None"
    and "pk_id p = 0 \<or> find_entry (lk_table lk) (Session_Key (pk_id p)) = None"
    and "encode crc p = Inr bs" "encode crc r = Inr rbs" "answers p r" "1 \<le> j"
  defines "attempts \<equiv> max (unat (ap_attempts policy)) 1"
  shows "case request_with_policy crc (answered_at j rbs) lk p policy of (lk', outcome) \<Rightarrow>
     outcome = (if j \<le> attempts then Inr r else Inl Timeout)
     \<and> lk_written lk' = lk_written lk @ replicate (min j attempts) bs
     \<and> \<not> lk_closed lk'
     \<and> st_entries (lk_table lk') = st_entries (lk_table lk)"
proof -
  let ?key = "asked_key p" and ?others = "st_entries (lk_table lk)"
  let ?g = "st_next_generation (lk_table lk) + 1"
  obtain t where t: "register (lk_table lk) ?key Oneshot_Sink = Inr (t, ?g)"
    "asking (lk\<lparr>lk_table := t\<rparr>) ?key ?g ?others"
    using assms(1-4) by (simp add: register_def Let_def asking_def new_channel_def map_of_eq_None_iff)
  have alone: "pk_id p = 0 \<or> Session_Key (pk_id p) \<notin> fst ` set ?others" using assms(5) by (simp add: map_of_eq_None_iff)
  have dec: "decode crc rbs = Inr r" using assms(7) by (simp add: decode_encode_iff)
  have n: "unat (max (ap_attempts policy) 1) - 1 = attempts - 1"
    unfolding attempts_def by (simp add: max_def word_le_nat_alt)
  have a: "1 + (attempts - 1) = attempts" unfolding attempts_def by simp
  have written: "min (Suc j - 1) (Suc (attempts - 1)) = min j attempts" unfolding attempts_def by (simp add: max_def)
  from policy_loop_outcome [OF t(2) assms(6,8) dec alone assms(9), of "attempts - 1"] obtain lk' where lk':
    "policy_loop crc (answered_at j rbs) 1 (attempts - 1) (lk\<lparr>lk_table := t\<rparr>) ?g p = (lk', if j \<le> attempts then Inr r else Inl Timeout)"
    "lk_written lk' = lk_written lk @ replicate (min j attempts) bs" "\<not> lk_closed lk'"
    "if j \<le> attempts then st_entries (lk_table lk') = ?others else asking lk' ?key ?g ?others"
    unfolding a written by auto
  have "st_entries (fst (remove_if (lk_table lk') ?key ?g)) = ?others"
  proof (cases "j \<le> attempts")
    case True
    then show ?thesis using lk'(4) assms(4) by (simp add: remove_if_def)
  next
    case False
    then show ?thesis using lk'(4) by (simp add: asking_def remove_if_def delete_id)
  qed
  then show ?thesis
    using lk' t(1) n by (simp add: request_with_policy_def Let_def del: policy_loop.simps)
qed

definition pong :: "u32 \<Rightarrow> pack" where
  "pong seq = (ping seq)\<lparr>pk_subtype := PONG, pk_flags := IS_RESPONSE\<rparr>"

lemma request_resent_until_answered_witness:
  "\<exists>bs rbs. encode (\<lambda>_. 9) (ping 5) = Inr bs
     \<and> (case request_with_policy (\<lambda>_. 9) (answered_at 2 rbs) link_start (ping 5) \<lparr>ap_attempts = 3\<rparr> of
          (lk', outcome) \<Rightarrow> outcome = Inr (pong 5) \<and> lk_written lk' = [bs, bs] \<and> st_entries (lk_table lk') = [])"
proof -
  note enc = encode_def rbind_def ensure_def KNOWN_def WANT_ACK_def META_ENCRYPTED_def IS_RESPONSE_def IS_LAST_def
    IS_BRIDGED_def ok_or_def u32_try_from_def Let_def
  obtain bs where bs: "encode (\<lambda>_. 9) (ping 5) = Inr bs" by (simp add: ping_def enc)
  obtain rbs where rbs: "encode (\<lambda>_. 9) (pong 5) = Inr rbs" by (simp add: pong_def ping_def enc)
  have "answers (ping 5) (pong 5)" by (simp add: answers_def ping_def pong_def IS_RESPONSE_def)
  have start: "\<not> lk_closed link_start" "lk_writer link_start" "lk_outgoing link_start = []" "lk_written link_start = []"
    "st_entries (lk_table link_start) = []" by (simp_all add: link_start_def table_new_def)
  have "pk_id (ping 5) = 0" by (simp add: ping_def)
  have "case request_with_policy (\<lambda>_. 9) (answered_at 2 rbs) link_start (ping 5) \<lparr>ap_attempts = 3\<rparr> of (lk', outcome) \<Rightarrow>
     outcome = (if 2 \<le> max (unat (ap_attempts \<lparr>ap_attempts = 3\<rparr>)) 1 then Inr (pong 5) else Inl Timeout)
     \<and> lk_written lk' = lk_written link_start @ replicate (min 2 (max (unat (ap_attempts \<lparr>ap_attempts = 3\<rparr>)) 1)) bs
     \<and> \<not> lk_closed lk' \<and> st_entries (lk_table lk') = st_entries (lk_table link_start)"
    by (rule request_resent_until_answered [OF start(1-3) _ _ bs rbs \<open>answers (ping 5) (pong 5)\<close>])
      (simp_all add: start \<open>pk_id (ping 5) = 0\<close>)
  then have "case request_with_policy (\<lambda>_. 9) (answered_at 2 rbs) link_start (ping 5) \<lparr>ap_attempts = 3\<rparr> of
      (lk', outcome) \<Rightarrow> outcome = Inr (pong 5) \<and> lk_written lk' = [bs, bs] \<and> st_entries (lk_table lk') = []"
    by (simp add: start replicate_numeral split_beta)
  then show ?thesis using bs by (intro exI [of _ bs] exI [of _ rbs] conjI) assumption+
qed

section \<open>Silence\<close>

lemma read_frame_closed [simp]: "lk_closed lk \<Longrightarrow> read_frame crc f lk = lk"
  by (simp add: read_frame_def)

lemma link_step_closed: "lk_closed lk \<Longrightarrow> lk_closed (link_step crc ev lk)"
  by (cases ev) (auto simp: write_one_def split: list.split)

lemma run_link_closed: "lk_closed lk \<Longrightarrow> lk_closed (run_link crc evs lk)"
  unfolding run_link_def by (induction evs arbitrary: lk) (simp_all add: link_step_closed)

lemma run_link_append: "run_link crc (xs @ ys) lk = run_link crc ys (run_link crc xs lk)"
  by (simp add: run_link_def)

text \<open>The packs other than \<open>Pong\<close>s among the frames a line reads.\<close>

definition replies_in :: "(bytes \<Rightarrow> u32) \<Rightarrow> link_event list \<Rightarrow> pack list" where
  "replies_in crc evs = filter (\<lambda>p. \<not> is_pong p) (packs_in crc (List.map_filter (\<lambda>ev. case ev of Le_Read f \<Rightarrow> Some f | _ \<Rightarrow> None) evs))"

lemma shut_down_answered [simp]: "lk_answered (shut_down lk) = lk_answered lk"
  by (simp add: shut_down_def swap_closed_def fail_and_abort_def)

lemma answered_step:
  assumes "\<not> lk_closed (link_step crc ev lk)"
  shows "lk_answered (link_step crc ev lk) = lk_answered lk + of_nat (length (replies_in crc [ev]))"
proof (cases ev)
  case (Le_Read f)
  have open_before: "\<not> lk_closed lk" using assms link_step_closed by blast
  show ?thesis
  proof (cases "ends_reading f")
    case True
    then have "link_step crc ev lk = shut_down lk"
      using open_before Le_Read by (auto simp: read_frame_def ends_reading_def split: sum.splits option.splits)
    then show ?thesis using assms by simp
  next
    case False
    then obtain bs where "f = Inr (Some bs)" by (auto simp: ends_reading_def split: sum.splits option.splits)
    then show ?thesis
      using open_before Le_Read
      by (cases "decode crc bs") (simp_all add: read_frame_def replies_in_def map_filter_simps Let_def)
  qed
qed (auto simp: replies_in_def map_filter_simps write_one_def split: list.split)

lemma answered_run:
  assumes "\<not> lk_closed (run_link crc evs lk)"
  shows "lk_answered (run_link crc evs lk) = lk_answered lk + of_nat (length (replies_in crc evs))"
  using assms
proof (induction evs rule: rev_induct)
  case Nil
  then show ?case by (simp add: run_link_def replies_in_def map_filter_simps)
next
  case (snoc ev evs)
  have last: "run_link crc (evs @ [ev]) lk = link_step crc ev (run_link crc evs lk)" by (simp add: run_link_def)
  then have "\<not> lk_closed (run_link crc evs lk)" using snoc.prems link_step_closed by metis
  moreover have "replies_in crc (evs @ [ev]) = replies_in crc evs @ replies_in crc [ev]"
    by (simp add: replies_in_def packs_in_def map_filter_def)
  ultimately show ?case using snoc answered_step [of crc ev "run_link crc evs lk"] by (simp add: last add.assoc)
qed

text \<open>
  A wait ends by itself only on a silent line.  While every period brings some reply, whoever it
  is for, the wait goes on: what it returns is the answer of its own session and nothing else.  A period
  in which the line, still open, brought nothing but \<open>Pong\<close>s, undecodable frames or nothing at all
  ends the wait with \<open>Timeout\<close>.
\<close>

lemma wait_ends_on_silence_only:
  assumes "\<not> lk_closed (run_link crc (concat ws) lk)"
    and "\<And>w. w \<in> set ws \<Longrightarrow> replies_in crc w \<noteq> [] \<and> length (replies_in crc w) < 2 ^ 64"
  shows "(case silent_loop crc lk_answered ws lk g of
       (lk', Some outcome) \<Rightarrow> pending_wait (lk_table lk') g = Some outcome
     | (lk', None) \<Rightarrow> lk' = run_link crc (concat ws) lk)
     \<and> (snd (silent_loop crc lk_answered ws lk g) = None
        \<longrightarrow> \<not> lk_closed (run_link crc quiet (run_link crc (concat ws) lk)) \<longrightarrow> replies_in crc quiet = []
        \<longrightarrow> pending_wait (lk_table (run_link crc quiet (run_link crc (concat ws) lk))) g = None
        \<longrightarrow> silent_loop crc lk_answered (ws @ [quiet]) lk g
            = (run_link crc quiet (run_link crc (concat ws) lk), Some (Inl Timeout)))"
  using assms
proof (induction ws arbitrary: lk)
  case Nil
  then show ?case using answered_run [of crc quiet lk] by (simp add: run_link_def no_reply_error_def Let_def)
next
  case (Cons w ws)
  let ?lk = "run_link crc w lk"
  have rest: "\<not> lk_closed (run_link crc (concat ws) ?lk)" using Cons.prems(1) by (simp add: run_link_append)
  then have "\<not> lk_closed ?lk" using run_link_closed by metis
  from answered_run [OF this] have heard: "lk_answered ?lk = lk_answered lk + of_nat (length (replies_in crc w))" .
  have "(of_nat (length (replies_in crc w)) :: u64) \<noteq> 0"
    using Cons.prems(2) [of w] by (simp add: word_of_nat_eq_0_iff nat_dvd_not_less)
  then have moved: "lk_answered ?lk \<noteq> lk_answered lk" by (simp add: heard)
  have IH: "replies_in crc w' \<noteq> [] \<and> length (replies_in crc w') < 2 ^ 64" if "w' \<in> set ws" for w'
    using Cons.prems(2) that by simp
  show ?case
  proof (cases "pending_wait (lk_table ?lk) g")
    case None
    then have on: "silent_loop crc lk_answered (w # vs) lk g = silent_loop crc lk_answered vs ?lk g" for vs
      using moved by (simp add: Let_def)
    show ?thesis unfolding append.simps concat.simps run_link_append on by (rule Cons.IH [OF rest IH])
  qed (simp add: Let_def)
qed

lemma wait_ends_on_silence_only_witness:
  "snd (silent_loop (\<lambda>_. 9) lk_answered ([] @ [[Le_Read (Inr (Some []))]]) (link_start\<lparr>lk_table := session_opened Oneshot_Sink\<rparr>) 1)
   = Some (Inl Timeout)"
proof -
  let ?lk = "link_start\<lparr>lk_table := session_opened Oneshot_Sink\<rparr>" and ?quiet = "[Le_Read (Inr (Some []))]"
  have short: "decode (\<lambda>_. 9) [] = Inl TooShort" by (simp add: decode_def MIN_PACK_LEN_def)
  have quiet: "run_link (\<lambda>_. 9) ?quiet ?lk = ?lk\<lparr>lk_bad_frames := 1\<rparr>"
    by (simp add: run_link_def read_frame_def link_start_def short CORRUPT_FRAME_BUDGET_def Let_def word_le_def)
  have waits: "pending_wait (session_opened Oneshot_Sink) 1 = None" by code_simp
  have "silent_loop (\<lambda>_. 9) lk_answered ([] @ [?quiet]) ?lk 1 = (run_link (\<lambda>_. 9) ?quiet (run_link (\<lambda>_. 9) (concat []) ?lk), Some (Inl Timeout))"
    using wait_ends_on_silence_only [of "\<lambda>_. 9" "[]" ?lk 1 ?quiet] quiet waits
    by (simp add: run_link_def link_start_def replies_in_def map_filter_simps short)
  then show ?thesis by simp
qed

end
