(* ===== verification/Request_Line.thy ===== *)
theory Request_Line
  imports Link "HOL-Library.Multiset"
begin

text \<open>
  \<open>crates/wbf-core/src/link_requests.rs\<close>: the queue of one line and its sending task.  The task's loop
  is cut where it awaits: taking a request, and what becomes of it; in between the owner may push and
  withdraw.  Time is a count the events carry; the line borrowed from the pool is a number, and its
  sequence counter is part of the state because others draw from it too.  An action's type is the owner's
  (\<open>LineRequest\<close>); a reply's result is what \<open>expect_ack\<close> made of the response.
\<close>

text \<open>\<open>rl_hand\<close>: taken out of the queue, not sent yet.  \<open>rl_tasks\<close>: the tasks that wait for replies.\<close>

record 'a request_line =
  rl_queued :: "'a list"
  rl_hand :: "'a option"
  rl_on_wire :: "(u32 \<times> 'a) list"
  rl_heard_at :: nat
  rl_tasks :: "(nat \<times> u32) list"
  rl_replies :: "('a \<times> (sdk_error + pack)) list"
  rl_link :: nat
  rl_counter :: u32

definition line_open :: "nat \<Rightarrow> 'a request_line" where
  "line_open now = \<lparr>rl_queued = [], rl_hand = None, rl_on_wire = [], rl_heard_at = now, rl_tasks = [], rl_replies = [],
     rl_link = 0, rl_counter = FIRST_LINE_SEQ\<rparr>"

section \<open>The owner's side\<close>

definition push_back :: "'a \<Rightarrow> 'a request_line \<Rightarrow> 'a request_line" where
  "push_back a s = s\<lparr>rl_queued := rl_queued s @ [a]\<rparr>"

definition push_front :: "'a \<Rightarrow> 'a request_line \<Rightarrow> 'a request_line" where
  "push_front a s = s\<lparr>rl_queued := a # rl_queued s\<rparr>"

definition withdraw :: "'a \<Rightarrow> 'a request_line \<Rightarrow> 'a request_line \<times> bool" where
  "withdraw a s =
     (let queued = filter (\<lambda>x. x \<noteq> a) (rl_queued s)
      in (s\<lparr>rl_queued := queued\<rparr>, length queued \<noteq> length (rl_queued s)))"

section \<open>The sending task\<close>

definition time_out_if_silent :: "nat \<Rightarrow> nat \<Rightarrow> 'a request_line \<Rightarrow> 'a request_line" where
  "time_out_if_silent silence now s =
     (if rl_on_wire s = [] \<or> now - rl_heard_at s < silence then s
      else s\<lparr>rl_on_wire := [], rl_tasks := [],
             rl_replies := rl_replies s @ map (\<lambda>(q, a). (a, Inl Timeout)) (rl_on_wire s)\<rparr>)"

definition take_request :: "nat \<Rightarrow> nat \<Rightarrow> 'a request_line \<Rightarrow> 'a request_line" where
  "take_request silence now s =
     (let s1 = time_out_if_silent silence now s in
      case rl_queued s1 of
        [] \<Rightarrow> s1
      | a # rest \<Rightarrow> s1\<lparr>rl_queued := rest, rl_hand := Some a\<rparr>)"

text \<open>The pool has no open line: the request goes back where it was.\<close>

definition no_link :: "'a request_line \<Rightarrow> 'a request_line" where
  "no_link s = (case rl_hand s of None \<Rightarrow> s | Some a \<Rightarrow> push_front a (s\<lparr>rl_hand := None\<rparr>))"

text \<open>The line was closed and the pool has another one, whose numbers start from the beginning.\<close>

definition switch_link :: "'a request_line \<Rightarrow> 'a request_line" where
  "switch_link s = s\<lparr>rl_link := rl_link s + 1, rl_counter := FIRST_LINE_SEQ\<rparr>"

definition draw_seq :: "'a request_line \<Rightarrow> 'a request_line \<times> u32" where
  "draw_seq s = (s\<lparr>rl_counter := rl_counter s + 1\<rparr>, rl_counter s OR FIRST_LINE_SEQ)"

text \<open>\<open>HashMap::insert\<close>: an entry with the same number is replaced.\<close>

definition put_on_wire :: "nat \<Rightarrow> u32 \<Rightarrow> 'a \<Rightarrow> 'a request_line \<Rightarrow> 'a request_line" where
  "put_on_wire now q a s =
     s\<lparr>rl_heard_at := (if rl_on_wire s = [] then now else rl_heard_at s),
       rl_on_wire := (q, a) # AList.delete q (rl_on_wire s),
       rl_tasks := (rl_link s, q) # rl_tasks s\<rparr>"

text \<open>What becomes of the request in hand once \<open>send_request\<close> has returned.\<close>

definition sent :: "nat \<Rightarrow> sdk_error + unit \<Rightarrow> 'a request_line \<Rightarrow> 'a request_line" where
  "sent now outcome s =
     (case rl_hand s of
        None \<Rightarrow> s
      | Some a \<Rightarrow>
          (let (s1, q) = draw_seq s; s2 = s1\<lparr>rl_hand := None\<rparr> in
           case outcome of
             Inr u \<Rightarrow> put_on_wire now q a s2
           | Inl e \<Rightarrow>
               if e = Usage then push_front a s2
               else s2\<lparr>rl_replies := rl_replies s2 @ [(a, Inl e)]\<rparr>))"

text \<open>A waiting task has its result and runs to its end.\<close>

definition answered :: "nat \<Rightarrow> nat \<times> u32 \<Rightarrow> sdk_error + pack \<Rightarrow> 'a request_line \<Rightarrow> 'a request_line" where
  "answered now task result s =
     (let s1 = s\<lparr>rl_tasks := remove1 task (rl_tasks s), rl_heard_at := now,
                rl_on_wire := AList.delete (snd task) (rl_on_wire s)\<rparr>
      in case map_of (rl_on_wire s) (snd task) of
           Some a \<Rightarrow> s1\<lparr>rl_replies := rl_replies s1 @ [(a, result)]\<rparr>
         | None \<Rightarrow> s1)"

section \<open>Events\<close>

datatype 'a line_event =
    Push_Back 'a
  | Push_Front 'a
  | Withdraw 'a
  | Take nat
  | No_Link
  | New_Link
  | Other_Draw
  | Sent nat "sdk_error + unit"
  | Answered nat "nat \<times> u32" "sdk_error + pack"

text \<open>When an event can happen: the task holds one request at a time, and a reply has a task that waits.\<close>

fun can_happen :: "'a line_event \<Rightarrow> 'a request_line \<Rightarrow> bool" where
  "can_happen (Take now) s \<longleftrightarrow> rl_hand s = None"
| "can_happen (Sent now r) s \<longleftrightarrow> rl_hand s \<noteq> None"
| "can_happen No_Link s \<longleftrightarrow> rl_hand s \<noteq> None"
| "can_happen New_Link s \<longleftrightarrow> rl_hand s \<noteq> None"
| "can_happen (Answered now task r) s \<longleftrightarrow> task \<in> set (rl_tasks s)"
| "can_happen ev s \<longleftrightarrow> True"

fun line_do :: "nat \<Rightarrow> 'a line_event \<Rightarrow> 'a request_line \<Rightarrow> 'a request_line" where
  "line_do silence (Push_Back a) s = push_back a s"
| "line_do silence (Push_Front a) s = push_front a s"
| "line_do silence (Withdraw a) s = fst (withdraw a s)"
| "line_do silence (Take now) s = take_request silence now s"
| "line_do silence No_Link s = no_link s"
| "line_do silence New_Link s = switch_link s"
| "line_do silence Other_Draw s = fst (draw_seq s)"
| "line_do silence (Sent now r) s = sent now r s"
| "line_do silence (Answered now task r) s = answered now task r s"

fun possible :: "nat \<Rightarrow> 'a line_event list \<Rightarrow> 'a request_line \<Rightarrow> bool" where
  "possible silence [] s \<longleftrightarrow> True"
| "possible silence (ev # evs) s \<longleftrightarrow> can_happen ev s \<and> possible silence evs (line_do silence ev s)"

definition run_line :: "nat \<Rightarrow> 'a line_event list \<Rightarrow> 'a request_line \<Rightarrow> 'a request_line" where
  "run_line silence evs s = fold (line_do silence) evs s"

end
