(* ===== verification/Request_Line_Correct.thy ===== *)
theory Request_Line_Correct
  imports Request_Line
begin

text \<open>
  What a line promises its owner: every request handed in comes back exactly once, with the result of
  its own response; nobody is timed out while the line is heard; and where the first promise is broken,
  a line replaced under requests that still wait.
\<close>

section \<open>Ledgers\<close>

text \<open>
  The contract of a component that is handed items and hands them back: each event moves items between
  the places that hold them, takes in what it is given and lets go of what is taken, and loses nothing.
  Events may use up a budget (here: fresh numbers).
\<close>

locale ledger =
  fixes can :: "'e \<Rightarrow> 's \<Rightarrow> bool" and act :: "'e \<Rightarrow> 's \<Rightarrow> 's" and cost :: "'e \<Rightarrow> nat"
    and held :: "'s \<Rightarrow> 'a multiset" and given :: "'e \<Rightarrow> 'a multiset" and taken :: "'e \<Rightarrow> 's \<Rightarrow> 'a multiset"
    and inv :: "nat \<Rightarrow> 's \<Rightarrow> bool"
  assumes keeps: "\<lbrakk>inv (n + cost e) s; can e s\<rbrakk> \<Longrightarrow> inv n (act e s)"
    and balance: "\<lbrakk>inv (n + cost e) s; can e s\<rbrakk> \<Longrightarrow> held (act e s) + taken e s = held s + given e"
begin

primrec path :: "'e list \<Rightarrow> 's \<Rightarrow> bool" where
  "path [] s \<longleftrightarrow> True"
| "path (e # es) s \<longleftrightarrow> can e s \<and> path es (act e s)"

primrec all_taken :: "'e list \<Rightarrow> 's \<Rightarrow> 'a multiset" where
  "all_taken [] s = {#}"
| "all_taken (e # es) s = taken e s + all_taken es (act e s)"

lemma balance_run:
  assumes "inv (n + sum_list (map cost es)) s" "path es s"
  shows "inv n (fold act es s)
     \<and> held (fold act es s) + all_taken es s = held s + sum_list (map given es)"
  using assms
proof (induction es arbitrary: s)
  case (Cons e es)
  have inv: "inv ((n + sum_list (map cost es)) + cost e) s" using Cons.prems(1) by (simp add: ac_simps)
  have can: "can e s" using Cons.prems(2) by simp
  have IH: "inv n (fold act es (act e s))"
    "held (fold act es (act e s)) + all_taken es (act e s) = held (act e s) + sum_list (map given es)"
    using Cons.IH [OF keeps [OF inv can]] Cons.prems(2) by simp_all
  have "held (fold act es (act e s)) + (taken e s + all_taken es (act e s))
      = (held (act e s) + taken e s) + sum_list (map given es)"
    using IH(2) by (metis add.assoc add.commute)
  then show ?case using IH(1) balance [OF inv can] by (simp add: ac_simps)
qed simp

end

section \<open>The line is a ledger\<close>

definition in_hand :: "'a request_line \<Rightarrow> 'a multiset" where
  "in_hand s = (case rl_hand s of None \<Rightarrow> {#} | Some a \<Rightarrow> {#a#})"

text \<open>Where a request can be: queued, in the task's hand, on the wire, or given back with its result.\<close>

definition accounted_for :: "'a request_line \<Rightarrow> 'a multiset" where
  "accounted_for s = mset (rl_queued s) + in_hand s + image_mset snd (mset (rl_on_wire s)) + image_mset fst (mset (rl_replies s))"

definition pushed_by :: "'a line_event \<Rightarrow> 'a multiset" where
  "pushed_by ev = (case ev of Push_Back a \<Rightarrow> {#a#} | Push_Front a \<Rightarrow> {#a#} | _ \<Rightarrow> {#})"

definition withdrawn_by :: "'a line_event \<Rightarrow> 'a request_line \<Rightarrow> 'a multiset" where
  "withdrawn_by ev s = (case ev of Withdraw a \<Rightarrow> mset (filter (\<lambda>x. x = a) (rl_queued s)) | _ \<Rightarrow> {#})"

definition draws_of :: "'a line_event \<Rightarrow> nat" where
  "draws_of ev = (case ev of Sent _ _ \<Rightarrow> 1 | Other_Draw \<Rightarrow> 1 | _ \<Rightarrow> 0)"

text \<open>An event that can happen, where the line is replaced only while nothing waits on it.\<close>

definition calm :: "'a line_event \<Rightarrow> 'a request_line \<Rightarrow> bool" where
  "calm ev s \<longleftrightarrow> can_happen ev s \<and> (ev = New_Link \<longrightarrow> rl_on_wire s = [] \<and> rl_tasks s = [])"

text \<open>\<open>n\<close> numbers can still be drawn before the counter wraps.\<close>

definition line_ok :: "nat \<Rightarrow> 'a request_line \<Rightarrow> bool" where
  "line_ok n s \<longleftrightarrow>
     2 ^ 31 \<le> unat (rl_counter s) \<and> unat (rl_counter s) + n < 2 ^ 32
     \<and> distinct (map fst (rl_on_wire s))
     \<and> (\<forall>q\<in>fst ` set (rl_on_wire s). unat q < unat (rl_counter s) \<and> (\<exists>l. (l, q) \<in> set (rl_tasks s)))"

lemma upper_counter:
  assumes "2 ^ 31 \<le> unat (c :: u32)"
  shows "c OR FIRST_LINE_SEQ = c"
proof -
  have "bit c 31"
  proof (rule ccontr)
    assume "\<not> bit c 31"
    then have "take_bit 31 c = c"
      by (intro bit_word_eqI) (auto simp: bit_take_bit_iff less_Suc_eq_le intro: le_neq_implies_less
          dest: bit_imp_le_length)
    then have "unat c < 2 ^ 31" by (metis take_bit_nat_less_exp unsigned_take_bit_eq)
    then show False using assms by simp
  qed
  moreover have "bit FIRST_LINE_SEQ n \<longleftrightarrow> n = 31" for n
    unfolding FIRST_LINE_SEQ_def by (subst bit_push_bit_iff) (auto simp: bit_1_iff)
  ultimately show ?thesis by (intro bit_word_eqI) (auto simp: bit_or_iff)
qed

lemma draw_ok:
  assumes "line_ok (n + 1) s"
  shows "snd (draw_seq s) = rl_counter s" and "unat (rl_counter (fst (draw_seq s))) = unat (rl_counter s) + 1"
    and "rl_counter s \<notin> fst ` set (rl_on_wire s)" and "line_ok n (fst (draw_seq s))"
proof -
  have c: "2 ^ 31 \<le> unat (rl_counter s)" "unat (rl_counter s) + (n + 1) < 2 ^ 32" using assms by (simp_all add: line_ok_def)
  show "snd (draw_seq s) = rl_counter s" using upper_counter [OF c(1)] by (simp add: draw_seq_def)
  show next_c: "unat (rl_counter (fst (draw_seq s))) = unat (rl_counter s) + 1"
    using c(2) by (simp add: draw_seq_def unat_word_ariths)
  show "rl_counter s \<notin> fst ` set (rl_on_wire s)" using assms unfolding line_ok_def by (metis less_irrefl)
  show "line_ok n (fst (draw_seq s))"
    using assms next_c c unfolding line_ok_def by (auto simp: draw_seq_def)
qed

lemma delete_absent: "q \<notin> fst ` set xs \<Longrightarrow> AList.delete q xs = xs"
  by (rule delete_id)

lemma delete_present:
  assumes "distinct (map fst xs)" "map_of xs q = Some a"
  shows "image_mset snd (mset xs) = image_mset snd (mset (AList.delete q xs)) + {#a#}"
  using assms
proof (induction xs)
  case (Cons x xs)
  show ?case
  proof (cases "fst x = q")
    case True
    then have "q \<notin> fst ` set xs" "snd x = a" using Cons.prems by auto
    then show ?thesis using True by (cases x) (simp add: delete_absent)
  next
    case False
    then show ?thesis using Cons by (cases x) auto
  qed
qed simp

lemma time_out_ok:
  assumes "line_ok n s"
  shows "line_ok n (time_out_if_silent silence now s)"
    and "accounted_for (time_out_if_silent silence now s) = accounted_for s"
    and "rl_queued (time_out_if_silent silence now s) = rl_queued s" "rl_hand (time_out_if_silent silence now s) = rl_hand s"
  using assms
  by (auto simp: time_out_if_silent_def line_ok_def accounted_for_def in_hand_def image_mset.compositionality comp_def case_prod_unfold)

lemma put_on_wire_ok:
  assumes "line_ok n s" "q \<notin> fst ` set (rl_on_wire s)" "unat q < unat (rl_counter s)"
  shows "line_ok n (put_on_wire now q a s)" and "accounted_for (put_on_wire now q a s) = accounted_for s + {#a#}"
  using assms by (auto simp: put_on_wire_def line_ok_def accounted_for_def in_hand_def delete_absent)

lemma answered_ok:
  assumes "line_ok n s"
  shows "line_ok n (answered now task r s)" and "accounted_for (answered now task r s) = accounted_for s"
proof -
  let ?q = "snd task" and ?wire = "AList.delete (snd task) (rl_on_wire s)"
  have wire: "set ?wire = {x \<in> set (rl_on_wire s). fst x \<noteq> ?q}" by (auto simp: AList.delete_eq)
  have "distinct (map fst ?wire)" using assms by (simp add: line_ok_def distinct_delete)
  moreover have "unat q < unat (rl_counter s) \<and> (\<exists>l. (l, q) \<in> set (remove1 task (rl_tasks s)))" if "q \<in> fst ` set ?wire" for q
  proof -
    have q: "q \<in> fst ` set (rl_on_wire s)" "q \<noteq> ?q" using that wire by auto
    then obtain l where "unat q < unat (rl_counter s)" "(l, q) \<in> set (rl_tasks s)" using assms by (auto simp: line_ok_def)
    then show ?thesis using q(2) by (metis in_set_remove1 snd_conv)
  qed
  ultimately show "line_ok n (answered now task r s)"
    using assms by (simp add: answered_def line_ok_def Let_def split: option.split)
  show "accounted_for (answered now task r s) = accounted_for s"
  proof (cases "map_of (rl_on_wire s) ?q")
    case None
    then have "?wire = rl_on_wire s" by (intro delete_absent) (simp add: map_of_eq_None_iff)
    then show ?thesis using None by (simp add: answered_def accounted_for_def in_hand_def Let_def)
  next
    case (Some a)
    have "distinct (map fst (rl_on_wire s))" using assms by (simp add: line_ok_def)
    from delete_present [OF this Some] show ?thesis
      using Some by (simp add: answered_def accounted_for_def in_hand_def Let_def)
  qed
qed

lemma sent_ok:
  assumes "line_ok (n + 1) s"
  shows "line_ok n (sent now r s)" and "accounted_for (sent now r s) = accounted_for s"
proof -
  note d = draw_ok [OF assms]
  let ?q = "rl_counter s"
  have draw: "draw_seq s = (fst (draw_seq s), ?q)" using d(1) by (metis prod.collapse)
  have weaker: "line_ok n s" using assms by (auto simp: line_ok_def)
  have "line_ok n (sent now r s) \<and> accounted_for (sent now r s) = accounted_for s"
  proof (cases "rl_hand s")
    case None
    then show ?thesis using weaker by (simp add: sent_def)
  next
    case (Some a)
    define s2 where "s2 = (fst (draw_seq s))\<lparr>rl_hand := None\<rparr>"
    have s2: "line_ok n s2" "accounted_for s2 + {#a#} = accounted_for s" "rl_on_wire s2 = rl_on_wire s"
      "unat (rl_counter s2) = unat ?q + 1" "rl_queued s2 = rl_queued s" "rl_hand s2 = None" "rl_replies s2 = rl_replies s"
      using d(2,4) Some by (auto simp: s2_def line_ok_def draw_seq_def accounted_for_def in_hand_def)
    have out: "sent now r s = (case r of Inr u \<Rightarrow> put_on_wire now ?q a s2
        | Inl e \<Rightarrow> if e = Usage then push_front a s2 else s2\<lparr>rl_replies := rl_replies s2 @ [(a, Inl e)]\<rparr>)"
      using Some by (subst sent_def, subst draw) (simp add: s2_def Let_def split: sum.split)
    show ?thesis
    proof (cases r)
      case (Inr u)
      have "?q \<notin> fst ` set (rl_on_wire s2)" "unat ?q < unat (rl_counter s2)" using d(3) s2(3,4) by simp_all
      from put_on_wire_ok [OF s2(1) this] show ?thesis unfolding out using s2(2) by (simp add: Inr)
    next
      case (Inl e)
      then show ?thesis unfolding out using s2 by (auto simp: push_front_def accounted_for_def in_hand_def line_ok_def)
    qed
  qed
  then show "line_ok n (sent now r s)" "accounted_for (sent now r s) = accounted_for s" by simp_all
qed

lemma line_ok_weaken: "line_ok (n + k) s \<Longrightarrow> line_ok n s"
  by (auto simp: line_ok_def)

lemma mset_split: "mset (filter (\<lambda>x. x \<noteq> a) xs) + mset (filter (\<lambda>x. x = a) xs) = mset xs"
  by (induction xs) auto

lemma calm_step:
  assumes "line_ok (n + draws_of ev) s" "calm ev s"
  shows "line_ok n (line_do silence ev s) \<and> accounted_for (line_do silence ev s) + withdrawn_by ev s = accounted_for s + pushed_by ev"
proof (cases ev)
  case (Withdraw a)
  have "mset (filter (\<lambda>x. x \<noteq> a) (rl_queued s)) + mset (filter (\<lambda>x. x = a) (rl_queued s)) = mset (rl_queued s)"
    by (rule mset_split)
  then show ?thesis
    using assms Withdraw
    by (simp add: draws_of_def pushed_by_def withdrawn_by_def withdraw_def Let_def accounted_for_def in_hand_def line_ok_def ac_simps)
next
  case (Take now)
  have ok: "line_ok n s" "rl_hand s = None" using assms Take by (simp_all add: draws_of_def calm_def)
  note t = time_out_ok [OF ok(1), of silence now]
  show ?thesis
    using t ok(2) Take
    by (cases "rl_queued s") (simp_all add: take_request_def Let_def pushed_by_def withdrawn_by_def accounted_for_def in_hand_def line_ok_def)
next
  case No_Link
  then show ?thesis
    using assms by (auto simp: no_link_def push_front_def draws_of_def pushed_by_def withdrawn_by_def accounted_for_def in_hand_def
        line_ok_def split: option.split)
next
  case New_Link
  have "unat FIRST_LINE_SEQ = 2 ^ 31" by (simp add: FIRST_LINE_SEQ_def push_bit_eq_mult)
  then show ?thesis
    using assms New_Link by (simp add: switch_link_def draws_of_def pushed_by_def withdrawn_by_def accounted_for_def in_hand_def
        line_ok_def calm_def)
next
  case Other_Draw
  have "line_ok (n + 1) s" using assms(1) Other_Draw by (simp add: draws_of_def)
  from draw_ok(4) [OF this] show ?thesis
    using Other_Draw by (simp add: pushed_by_def withdrawn_by_def accounted_for_def in_hand_def draw_seq_def)
next
  case (Sent now r)
  have "line_ok (n + 1) s" using assms(1) Sent by (simp add: draws_of_def)
  from sent_ok [OF this] show ?thesis using Sent by (simp add: pushed_by_def withdrawn_by_def)
next
  case (Answered now task r)
  have "line_ok n s" using assms(1) Answered by (simp add: draws_of_def)
  from answered_ok [OF this] show ?thesis using Answered by (simp add: pushed_by_def withdrawn_by_def)
qed (use assms in \<open>auto simp: push_back_def push_front_def draws_of_def pushed_by_def withdrawn_by_def accounted_for_def in_hand_def
    line_ok_def\<close>)

interpretation line: ledger calm "line_do silence" draws_of accounted_for pushed_by withdrawn_by line_ok
  for silence
  by unfold_locales (simp_all add: calm_step)

section \<open>Every request comes back once\<close>

text \<open>A calm life of a line, and what its owner withdrew during it.\<close>

primrec calm_run :: "nat \<Rightarrow> 'a line_event list \<Rightarrow> 'a request_line \<Rightarrow> bool" where
  "calm_run silence [] s \<longleftrightarrow> True"
| "calm_run silence (ev # evs) s \<longleftrightarrow> calm ev s \<and> calm_run silence evs (line_do silence ev s)"

primrec withdrawn_in :: "nat \<Rightarrow> 'a line_event list \<Rightarrow> 'a request_line \<Rightarrow> 'a multiset" where
  "withdrawn_in silence [] s = {#}"
| "withdrawn_in silence (ev # evs) s = withdrawn_by ev s + withdrawn_in silence evs (line_do silence ev s)"

lemma line_path: "line.path silence evs s \<longleftrightarrow> calm_run silence evs s"
  by (induction evs arbitrary: s) simp_all

lemma line_all_taken: "line.all_taken silence evs s = withdrawn_in silence evs s"
  by (induction evs arbitrary: s) simp_all

lemma line_open_ok: "line_ok (2 ^ 31 - 1) (line_open now)"
  by (simp add: line_ok_def line_open_def FIRST_LINE_SEQ_def push_bit_eq_mult)

text \<open>
  C19. Every request handed to a line comes back exactly once.  Whatever the owner pushes and withdraws
  and whatever the line does in between, as long as it is not replaced under waiting requests and fewer
  than \<open>2 ^ 31\<close> numbers are drawn: the requests pushed are, as multisets, those still queued, in the
  task's hand or on the wire, those given back with a result, and those withdrawn; no two requests on the
  wire share a number, and each has a task that will give it back.
\<close>

theorem every_request_comes_back_once:
  assumes "calm_run silence evs (line_open now)" "sum_list (map draws_of evs) < 2 ^ 31"
  shows "let s = run_line silence evs (line_open now) in
     mset (rl_queued s) + in_hand s + image_mset snd (mset (rl_on_wire s)) + image_mset fst (mset (rl_replies s))
       + withdrawn_in silence evs (line_open now)
     = sum_list (map pushed_by evs)
     \<and> distinct (map fst (rl_on_wire s))
     \<and> (\<forall>(q, a)\<in>set (rl_on_wire s). \<exists>l. (l, q) \<in> set (rl_tasks s))"
proof -
  let ?s = "run_line silence evs (line_open now)"
  have "2 ^ 31 - 1 = (2 ^ 31 - 1 - sum_list (map draws_of evs)) + sum_list (map draws_of evs)" using assms(2) by simp
  then have "line_ok ((2 ^ 31 - 1 - sum_list (map draws_of evs)) + sum_list (map draws_of evs)) (line_open now)"
    using line_open_ok [of now] by (simp only: )
  from line.balance_run [OF this assms(1) [folded line_path]] have
    ok: "line_ok (2 ^ 31 - 1 - sum_list (map draws_of evs)) ?s" and
    sums: "accounted_for ?s + withdrawn_in silence evs (line_open now) = accounted_for (line_open now) + sum_list (map pushed_by evs)"
    by (simp_all add: run_line_def line_all_taken)
  have "accounted_for (line_open now) = {#}" by (simp add: accounted_for_def line_open_def in_hand_def)
  then show ?thesis using ok sums unfolding accounted_for_def Let_def line_ok_def by force
qed


text \<open>The witness: two requests, one withdrawn, the other sent and answered.\<close>

lemma every_request_comes_back_once_witness:
  "let s = run_line 60 [Push_Back (1 :: nat), Push_Back 2, Take 0, Withdraw 2, Sent 0 (Inr ()),
       Answered 5 (0, FIRST_LINE_SEQ) (Inl Protocol)] (line_open 0) in
     rl_replies s = [(1, Inl Protocol)] \<and> image_mset fst (mset (rl_replies s)) + {#2#} = {#1, 2#}"
proof -
  let ?evs = "[Push_Back (1 :: nat), Push_Back 2, Take 0, Withdraw 2, Sent 0 (Inr ()), Answered 5 (0, FIRST_LINE_SEQ) (Inl Protocol)]"
  note ops = push_back_def withdraw_def take_request_def time_out_if_silent_def sent_def draw_seq_def put_on_wire_def answered_def
    line_open_def calm_def Let_def
  have calm: "calm_run 60 ?evs (line_open 0)" by (simp add: ops)
  have "sum_list (map draws_of ?evs) < 2 ^ 31" by (simp add: draws_of_def)
  note once = every_request_comes_back_once [OF calm this]
  have s: "run_line 60 ?evs (line_open 0) = \<lparr>rl_queued = [], rl_hand = None, rl_on_wire = [], rl_heard_at = 5, rl_tasks = [],
      rl_replies = [(1, Inl Protocol)], rl_link = 0, rl_counter = FIRST_LINE_SEQ + 1\<rparr>"
    by (simp add: run_line_def ops)
  have "withdrawn_in 60 ?evs (line_open 0) = {#2#}" by (simp add: withdrawn_by_def ops)
  then show ?thesis using once unfolding s by (simp add: in_hand_def pushed_by_def)
qed

section \<open>Silence\<close>

definition time_of :: "'a line_event \<Rightarrow> nat option" where
  "time_of ev = (case ev of Take now \<Rightarrow> Some now | Sent now r \<Rightarrow> Some now | Answered now task r \<Rightarrow> Some now | _ \<Rightarrow> None)"

lemma heard_at_step:
  assumes "\<And>now. time_of ev = Some now \<Longrightarrow> t \<le> now" "t \<le> rl_heard_at s"
  shows "t \<le> rl_heard_at (line_do silence ev s)"
  using assms
  by (cases ev)
    (auto simp: push_back_def push_front_def withdraw_def take_request_def time_out_if_silent_def no_link_def switch_link_def
      draw_seq_def sent_def put_on_wire_def answered_def Let_def time_of_def split: list.split option.split sum.split)

lemma heard_at_run:
  assumes "\<And>ev now. ev \<in> set evs \<Longrightarrow> time_of ev = Some now \<Longrightarrow> t \<le> now" "t \<le> rl_heard_at s"
  shows "t \<le> rl_heard_at (run_line silence evs s)"
  using assms
proof (induction evs arbitrary: s)
  case (Cons ev evs)
  have "t \<le> rl_heard_at (line_do silence ev s)" by (rule heard_at_step) (use Cons.prems in auto)
  then have "t \<le> rl_heard_at (run_line silence evs (line_do silence ev s))" using Cons.prems(1) by (intro Cons.IH) auto
  then show ?case by (simp add: run_line_def)
qed (simp add: run_line_def)

lemma answered_heard: "rl_heard_at (answered t task r s) = t"
  by (simp add: answered_def Let_def split: option.split)

text \<open>
  A line that is heard times nobody out, however long a request has waited: if a response came (or
  the first request of an idle line went out) at time \<open>t\<close>, then whatever happens from then on, a check at
  a time less than \<open>silence\<close> after \<open>t\<close> gives nothing back and leaves everything on the wire.
\<close>

lemma heard_line_times_nobody_out:
  assumes "ev = Answered t task r \<or> ev = Sent t (Inr ()) \<and> rl_on_wire s = [] \<and> rl_hand s \<noteq> None"
    and "\<And>later now'. later \<in> set evs \<Longrightarrow> time_of later = Some now' \<Longrightarrow> t \<le> now'" and "now - t < silence"
  shows "let s' = run_line silence (ev # evs) s in time_out_if_silent silence now s' = s'"
proof -
  have "t \<le> rl_heard_at (line_do silence ev s)"
    using assms(1) by (auto simp: answered_heard sent_def draw_seq_def put_on_wire_def Let_def)
  then have "t \<le> rl_heard_at (run_line silence evs (line_do silence ev s))" using assms(2) by (intro heard_at_run) auto
  then have "now - rl_heard_at (run_line silence evs (line_do silence ev s)) < silence" using assms(3) by simp
  then show ?thesis by (simp add: time_out_if_silent_def run_line_def Let_def)
qed

text \<open>The witness: a request that has waited for 100, on a line that answered somebody at 90.\<close>

lemma heard_line_times_nobody_out_witness:
  "rl_replies (time_out_if_silent 60 100 (run_line 60 [Answered 90 (0, FIRST_LINE_SEQ) (Inl Protocol), Push_Back (3 :: nat)]
     (run_line 60 [Push_Back 1, Take 0, Sent 0 (Inr ()), Push_Back 2, Take 0, Sent 0 (Inr ())] (line_open 0)))) = [(1, Inl Protocol)]"
proof -
  note ops = push_back_def take_request_def time_out_if_silent_def sent_def draw_seq_def put_on_wire_def answered_def
    line_open_def Let_def run_line_def FIRST_LINE_SEQ_def
  let ?s = "run_line 60 [Push_Back 1, Take 0, Sent 0 (Inr ()), Push_Back 2, Take 0, Sent 0 (Inr ())] (line_open 0)"
  have "let s' = run_line 60 [Answered 90 (0, FIRST_LINE_SEQ) (Inl Protocol), Push_Back (3 :: nat)] ?s in time_out_if_silent 60 100 s' = s'"
    by (rule heard_line_times_nobody_out [of _ 90 "(0, FIRST_LINE_SEQ)" "Inl Protocol"]) (auto simp: time_of_def)
  then show ?thesis by (simp add: ops push_bit_eq_mult)
qed

section \<open>A line replaced under waiting requests\<close>

text \<open>
  C20. The numbers of a new line start again, and the requests on the wire are filed under the number
  alone.  So when a line closes and its replacement is used before the tasks of the old one have run, a
  new request takes the place of an old one that still waits: the old one (1) is never given back, the
  new one (2) is given back with the old line's error, and its own answer is dropped.
\<close>

theorem replaced_line_loses_request:
  "\<exists>evs :: nat line_event list.
     possible 60 evs (line_open 0)
     \<and> sum_list (map pushed_by evs) = {#1, 2#} \<and> withdrawn_in 60 evs (line_open 0) = {#}
     \<and> Answered 9 (1, FIRST_LINE_SEQ) (Inr (ping 7)) \<in> set evs
     \<and> (let s = run_line 60 evs (line_open 0) in
          rl_queued s = [] \<and> rl_hand s = None \<and> rl_on_wire s = [] \<and> rl_tasks s = [] \<and> rl_replies s = [(2, Inl Network)])"
proof -
  let ?evs = "[Push_Back (1 :: nat), Take 0, Sent 0 (Inr ()), Push_Back 2, Take 5, New_Link, Sent 5 (Inr ()),
     Answered 6 (0, FIRST_LINE_SEQ) (Inl Network), Answered 9 (1, FIRST_LINE_SEQ) (Inr (ping 7))]"
  note ops = push_back_def take_request_def time_out_if_silent_def sent_def draw_seq_def put_on_wire_def answered_def
    switch_link_def line_open_def Let_def
  have "possible 60 ?evs (line_open 0)" by (simp add: ops)
  moreover have "sum_list (map pushed_by ?evs) = {#1, 2#}" by (simp add: pushed_by_def)
  moreover have "withdrawn_in 60 ?evs (line_open 0) = {#}" by (simp add: withdrawn_by_def)
  moreover have "run_line 60 ?evs (line_open 0) = \<lparr>rl_queued = [], rl_hand = None, rl_on_wire = [], rl_heard_at = 9, rl_tasks = [],
      rl_replies = [(2, Inl Network)], rl_link = 1, rl_counter = FIRST_LINE_SEQ + 1\<rparr>"
    by (simp add: run_line_def ops)
  ultimately show ?thesis by (intro exI [of _ ?evs]) simp
qed

end
