(* ===== verification/Core_Error.thy ===== *)
theory Core_Error
  imports Sdk_Error
begin

text \<open>
  \<open>crates/wbf-core/src/error.rs\<close>: the kinds of the core's errors, their RPC numbers, and how an SDK error
  is lifted.  The message and the data of an error are not modelled: programs read the kind.
\<close>

datatype core_error_kind =
    Core_Locked | Core_NoKeyFile | Core_NeedPassphrase | Core_UnexpectedPassphrase | Core_WrongPassphrase
  | Core_NoSuchAccount | Core_AmbiguousAccount | Core_NotLoggedIn | Core_AccountBusy
  | Core_ServerPendingRemoval | Core_NoRecoveryKeyHere | Core_HistoryWouldBeLost | Core_Usage | Core_Io
  | Core_Network | Core_Server | Core_RoomDevicesChanged | Core_RoomKeyNotReady | Core_Integrity
  | Core_Unverified | Core_Timeout

fun rpc_code :: "core_error_kind \<Rightarrow> nat" where
  "rpc_code Core_Locked = 1001"
| "rpc_code Core_NoKeyFile = 1002"
| "rpc_code Core_NeedPassphrase = 1003"
| "rpc_code Core_UnexpectedPassphrase = 1004"
| "rpc_code Core_WrongPassphrase = 1005"
| "rpc_code Core_NoSuchAccount = 1010"
| "rpc_code Core_AmbiguousAccount = 1011"
| "rpc_code Core_NotLoggedIn = 1012"
| "rpc_code Core_AccountBusy = 1013"
| "rpc_code Core_ServerPendingRemoval = 1014"
| "rpc_code Core_NoRecoveryKeyHere = 1020"
| "rpc_code Core_HistoryWouldBeLost = 1021"
| "rpc_code Core_Usage = 1100"
| "rpc_code Core_Io = 1200"
| "rpc_code Core_Network = 1300"
| "rpc_code Core_Server = 1400"
| "rpc_code Core_RoomDevicesChanged = 1401"
| "rpc_code Core_RoomKeyNotReady = 1402"
| "rpc_code Core_Integrity = 1500"
| "rpc_code Core_Unverified = 1501"
| "rpc_code Core_Timeout = 1600"

fun core_of_sdk_error :: "sdk_error \<Rightarrow> core_error_kind" where
  "core_of_sdk_error Usage = Core_Usage"
| "core_of_sdk_error Io = Core_Io"
| "core_of_sdk_error Network = Core_Network"
| "core_of_sdk_error (Server c) = Core_Server"
| "core_of_sdk_error Protocol = Core_Server"
| "core_of_sdk_error Integrity = Core_Integrity"
| "core_of_sdk_error Timeout = Core_Timeout"

end
