(* ===== verification/Download_Queue.thy ===== *)
theory Download_Queue
  imports Core_Error Request_Line Media_Cache Media_Pool
begin

text \<open>
  \<open>crates/wbf-core/src/download_queue.rs\<close>: the download handler of an account, that is its inbox, the
  table of running downloads, the requests in flight with those who wait for them, the files it has open,
  and the claims the handlers of one server share.  Each method of the handler is a function on its state;
  what it does to the disk, the database and the file being written goes through the operations of the SDK,
  which are arguments (\<open>media_ops\<close>).  Answers, outcomes and events are appended to lists.  Maps that the
  code drains as a whole are association lists; the waiters of a file are the pairs with its name.
\<close>

section \<open>Data\<close>

datatype download_state = Queued | Downloading | Verifying | Complete | Cancelled | Failed | Local_Source

record job_status =
  js_state :: download_state
  js_done :: u32
  js_total :: u32

record downloading =
  dg_cancelled :: bool
  dg_done :: u32
  dg_total :: u32
  dg_name :: "string option"
  dg_started :: nat

record seek_piece =
  sp_start :: nat
  sp_plain :: bytes

datatype download_request = Info_Request string | Chunk_Request string u32

fun request_mxc :: "download_request \<Rightarrow> string" where
  "request_mxc (Info_Request mxc) = mxc"
| "request_mxc (Chunk_Request mxc index) = mxc"

definition DOWNLOAD_INFO :: byte where "DOWNLOAD_INFO = 0x01"
definition DOWNLOAD_READ :: byte where "DOWNLOAD_READ = 0x02"

definition download_pack :: "byte \<Rightarrow> u32 \<Rightarrow> bytes \<Rightarrow> pack" where
  "download_pack subtype seq meta =
     \<lparr>pk_kind = Download, pk_subtype = subtype, pk_flags = 0, pk_id = 0, pk_seq = seq, pk_meta = meta, pk_data = []\<rparr>"

text \<open>The JSON of the two requests is built by \<open>serde_json\<close>.\<close>

fun to_pack :: "(string \<Rightarrow> bytes) \<Rightarrow> (string \<Rightarrow> u32 \<Rightarrow> bytes) \<Rightarrow> download_request \<Rightarrow> u32 \<Rightarrow> pack" where
  "to_pack info_meta read_meta (Info_Request mxc) seq = download_pack DOWNLOAD_INFO seq (info_meta mxc)"
| "to_pack info_meta read_meta (Chunk_Request mxc index) seq = download_pack DOWNLOAD_READ seq (read_meta mxc index)"

text \<open>Who waits for a request: the main file, or a GET (its chunk and where to answer it).\<close>

datatype waiting = Main | Seek u32 nat

record retries =
  rt_timeouts :: nat
  rt_bad_replies :: nat

definition no_retries :: retries where
  "no_retries = \<lparr>rt_timeouts = 0, rt_bad_replies = 0\<rparr>"

record in_flight =
  fl_waiters :: "waiting list"
  fl_retries :: retries

definition TIMEOUT_ATTEMPTS :: nat where "TIMEOUT_ATTEMPTS = 3"
definition SEEK_ONLY_KEPT :: nat where "SEEK_ONLY_KEPT = 16"

definition is_permanent_refusal :: "sdk_error \<Rightarrow> bool" where
  "is_permanent_refusal e \<longleftrightarrow> wbf_code e = Some Err_NotFound \<or> wbf_code e = Some Err_Forbidden"

definition is_bad_reply :: "sdk_error \<Rightarrow> bool" where
  "is_bad_reply e \<longleftrightarrow> e = Protocol \<or> wbf_code e = Some Err_Corrupt"

datatype job_end = End_Complete verification | End_Cancelled | End_Failed core_error_kind

record seek_only =
  so_manifest :: manifest
  so_target :: "verified_target option"
  so_last_used :: nat

record media_event =
  ev_to :: "string set"
  ev_mxc :: string
  ev_state :: download_state
  ev_done :: u32
  ev_total :: u32
  ev_verified :: "verification option"
  ev_reason :: "core_error_kind option"

section \<open>Claims\<close>

text \<open>
  Who downloads which file of one server: the handlers are numbered, and \<open>running\<close> says which of them
  still take jobs.
\<close>

record claim_holder =
  ch_user :: string
  ch_handler :: nat

type_synonym claims = "string \<Rightarrow> claim_holder option"

definition find_other_downloader :: "(nat \<Rightarrow> bool) \<Rightarrow> claims \<Rightarrow> string \<Rightarrow> claim_holder \<Rightarrow> nat option" where
  "find_other_downloader running held mxc me =
     (case held mxc of
        None \<Rightarrow> None
      | Some current \<Rightarrow>
          if ch_handler current = ch_handler me then None
          else if running (ch_handler current) then Some (ch_handler current) else None)"

definition claim :: "claims \<Rightarrow> string \<Rightarrow> claim_holder \<Rightarrow> claims \<times> bool" where
  "claim held mxc me =
     (case held mxc of
        None \<Rightarrow> (held(mxc \<mapsto> me), True)
      | Some current \<Rightarrow> (held, ch_handler current = ch_handler me))"

definition release :: "claims \<Rightarrow> string \<Rightarrow> claim_holder \<Rightarrow> claims" where
  "release held mxc me =
     (case held mxc of
        None \<Rightarrow> held
      | Some current \<Rightarrow> if ch_handler current = ch_handler me then held(mxc := None) else held)"

definition find_holder :: "claims \<Rightarrow> string \<Rightarrow> string option" where
  "find_holder held mxc = map_option ch_user (held mxc)"

section \<open>What the handler uses\<close>

text \<open>
  The SDK's operations: \<open>'m\<close> is a \<open>MediaDownload\<close> and \<open>'w\<close> the disk with the database.  \<open>op_open\<close> makes the
  row and opens (or resumes) the main file; \<open>op_range\<close> reads a range of a complete pool file.
\<close>

record ('w, 'm) media_ops =
  op_lib :: download_lib
  op_info_reply :: "pack \<Rightarrow> sdk_error + info_ack \<times> bytes"
  op_read_meta :: "pack \<Rightarrow> sdk_error + read_ack"
  op_open :: "manifest \<Rightarrow> 'w \<Rightarrow> 'w \<times> (core_error_kind + string \<times> 'm)"
  op_complete :: "string \<Rightarrow> 'w \<Rightarrow> media_entry option"
  op_range :: "media_entry \<Rightarrow> nat \<Rightarrow> nat \<Rightarrow> 'w \<Rightarrow> core_error_kind + bytes"
  op_manifest :: "'m \<Rightarrow> manifest"
  op_written :: "'m \<Rightarrow> bool"
  op_needs_info :: "'m \<Rightarrow> bool"
  op_next :: "'m \<Rightarrow> u32"
  op_count :: "'m \<Rightarrow> u32"
  op_advance :: "'m \<Rightarrow> (sdk_error + bool) \<times> 'm"
  op_accept :: "info_ack \<Rightarrow> bytes \<Rightarrow> 'm \<Rightarrow> sdk_error + 'm"
  op_open_chunk :: "u32 \<Rightarrow> bytes \<Rightarrow> 'm \<Rightarrow> sdk_error + bytes"
  op_land :: "u32 \<Rightarrow> bytes \<Rightarrow> 'm \<Rightarrow> sdk_error + 'm"
  op_store_seek :: "u32 \<Rightarrow> bytes \<Rightarrow> 'm \<Rightarrow> 'w \<Rightarrow> (sdk_error + unit) \<times> 'm \<times> 'w"
  op_read_local :: "u32 \<Rightarrow> 'm \<Rightarrow> (sdk_error + bytes option) \<times> 'm"
  op_sync :: "'m \<Rightarrow> 'w \<Rightarrow> 'w"
  op_progress :: "string \<Rightarrow> 'm \<Rightarrow> 'w \<Rightarrow> 'w"
  op_discard :: "'m \<Rightarrow> 'w \<Rightarrow> 'w"
  op_reset :: "string \<Rightarrow> 'w \<Rightarrow> 'w"
  op_finish :: "'m \<Rightarrow> 'w \<Rightarrow> 'w \<times> (sdk_error + finished \<times> verification)"
  op_record :: "string \<Rightarrow> finished \<Rightarrow> verification \<Rightarrow> 'w \<Rightarrow> 'w \<times> (core_error_kind + unit)"

record ('w, 'm) handler =
  dh_me :: claim_holder
  dh_stopped :: bool
  dh_inbox :: "(string \<times> manifest) list"
  dh_preparing :: "(string \<times> bool) list"
  dh_downloading :: "(string \<times> downloading) list"
  dh_waiters :: "(string \<times> nat) list"
  dh_listeners :: "string \<Rightarrow> string set"
  dh_open_names :: "string set"
  dh_next_started :: nat
  dh_open :: "(string \<times> string \<times> 'm) list"
  dh_seek_only :: "(string \<times> seek_only) list"
  dh_in_flight :: "(download_request \<times> in_flight) list"
  dh_timers :: "string \<Rightarrow> (nat \<times> nat) option"
  dh_line :: "download_request request_line"
  dh_now :: nat
  dh_claims :: claims
  dh_world :: 'w
  dh_seek_answers :: "(nat \<times> (core_error_kind + seek_piece)) list"
  dh_outcomes :: "(nat \<times> (core_error_kind + unit)) list"
  dh_handed :: "(nat \<times> manifest \<times> (string \<times> nat) list \<times> string set) list"
  dh_events :: "media_event list"

definition handler_start :: "claim_holder \<Rightarrow> nat \<Rightarrow> claims \<Rightarrow> 'w \<Rightarrow> ('w, 'm) handler" where
  "handler_start me now held w =
     \<lparr>dh_me = me, dh_stopped = False, dh_inbox = [], dh_preparing = [], dh_downloading = [], dh_waiters = [],
      dh_listeners = (\<lambda>_. {}), dh_open_names = {}, dh_next_started = 0, dh_open = [], dh_seek_only = [],
      dh_in_flight = [], dh_timers = Map.empty, dh_line = line_open now, dh_now = now, dh_claims = held, dh_world = w,
      dh_seek_answers = [], dh_outcomes = [], dh_handed = [], dh_events = []\<rparr>"

abbreviation find_downloading :: "('w, 'm) handler \<Rightarrow> string \<Rightarrow> downloading option" where
  "find_downloading h mxc \<equiv> map_of (dh_downloading h) mxc"

abbreviation set_open :: "string \<Rightarrow> string \<Rightarrow> 'm \<Rightarrow> ('w, 'm) handler \<Rightarrow> ('w, 'm) handler" where
  "set_open mxc name md h \<equiv> h\<lparr>dh_open := AList.update mxc (name, md) (dh_open h)\<rparr>"

abbreviation set_world :: "'w \<Rightarrow> ('w, 'm) handler \<Rightarrow> ('w, 'm) handler" where
  "set_world w h \<equiv> h\<lparr>dh_world := w\<rparr>"

abbreviation chunk_size_of :: "('w, 'm) media_ops \<Rightarrow> 'm \<Rightarrow> u32" where
  "chunk_size_of ops md \<equiv> cb_chunk_size (mf_block (op_manifest ops md))"

section \<open>Events and answers\<close>

definition emit_to_each :: "string set \<Rightarrow> string \<Rightarrow> media_event \<Rightarrow> ('w, 'm) handler \<Rightarrow> ('w, 'm) handler" where
  "emit_to_each recipients fallback_user ev h =
     h\<lparr>dh_events := dh_events h @ [ev\<lparr>ev_to := (if recipients = {} then {fallback_user} else recipients)\<rparr>]\<rparr>"

definition media_event_of ::
    "string \<Rightarrow> download_state \<Rightarrow> u32 \<Rightarrow> u32 \<Rightarrow> verification option \<Rightarrow> core_error_kind option \<Rightarrow> media_event" where
  "media_event_of mxc st n_done n_total verified reason =
     \<lparr>ev_to = {}, ev_mxc = mxc, ev_state = st, ev_done = n_done, ev_total = n_total, ev_verified = verified, ev_reason = reason\<rparr>"

definition push ::
    "string \<Rightarrow> download_state \<Rightarrow> u32 \<Rightarrow> u32 \<Rightarrow> verification option \<Rightarrow> core_error_kind option
      \<Rightarrow> ('w, 'm) handler \<Rightarrow> ('w, 'm) handler" where
  "push mxc st n_done n_total verified reason h =
     emit_to_each (dh_listeners h mxc) (ch_user (dh_me h)) (media_event_of mxc st n_done n_total verified reason) h"

definition answer_seek :: "nat \<Rightarrow> core_error_kind + seek_piece \<Rightarrow> ('w, 'm) handler \<Rightarrow> ('w, 'm) handler" where
  "answer_seek reply r h = h\<lparr>dh_seek_answers := dh_seek_answers h @ [(reply, r)]\<rparr>"

fun answer_waiting :: "(u32 \<Rightarrow> core_error_kind + seek_piece) \<Rightarrow> waiting \<Rightarrow> ('w, 'm) handler \<Rightarrow> ('w, 'm) handler" where
  "answer_waiting f Main h = h"
| "answer_waiting f (Seek index reply) h = answer_seek reply (f index) h"

definition answer_seeks_only :: "waiting list \<Rightarrow> core_error_kind \<Rightarrow> ('w, 'm) handler \<Rightarrow> ('w, 'm) handler \<times> bool" where
  "answer_seeks_only waiters e h = (fold (answer_waiting (\<lambda>_. Inl e)) waiters h, Main \<in> set waiters)"

definition downloader_gone :: core_error_kind where
  "downloader_gone = Core_Io"

definition cancelled_error :: core_error_kind where
  "cancelled_error = Core_Usage"

definition answer_waiting_gone :: "waiting list \<Rightarrow> ('w, 'm) handler \<Rightarrow> ('w, 'm) handler" where
  "answer_waiting_gone waiters h = fst (answer_seeks_only waiters downloader_gone h)"

section \<open>Chunks\<close>

definition chunk_start :: "u32 \<Rightarrow> u32 \<Rightarrow> nat" where
  "chunk_start index chunk_size = unat index * unat chunk_size"

definition chunk_index_at :: "u64 \<Rightarrow> u32 \<Rightarrow> core_error_kind + u32" where
  "chunk_index_at position chunk_size =
     (if chunk_size = 0 then Inl Core_Usage
      else ok_or Core_Usage (u32_try_from (unat position div unat chunk_size)))"

definition chunk_layout_of :: "media_entry \<Rightarrow> core_error_kind + u32 \<times> u64" where
  "chunk_layout_of e =
     (case (me_chunk_size e, me_file_size e) of
        (Some chunk_size, Some file_size) \<Rightarrow> Inr (chunk_size, file_size)
      | _ \<Rightarrow> Inl Core_Usage)"

definition read_complete_chunk :: "('w, 'm) media_ops \<Rightarrow> 'w \<Rightarrow> media_entry \<Rightarrow> u32 \<Rightarrow> core_error_kind + seek_piece" where
  "read_complete_chunk ops w e index =
     rbind (chunk_layout_of e) (\<lambda>(chunk_size, file_size).
     let start = unat index * unat chunk_size; end_pos = min (start + unat chunk_size) (unat file_size) in
     if chunk_size = 0 \<or> start \<ge> end_pos then Inl Core_Usage
     else rbind (op_range ops e start end_pos w) (\<lambda>plain. Inr \<lparr>sp_start = start, sp_plain = plain\<rparr>))"

section \<open>The inbox\<close>

definition status_in :: "('w, 'm) handler \<Rightarrow> string \<Rightarrow> job_status option" where
  "status_in h mxc =
     (case find_downloading h mxc of
        Some d \<Rightarrow> Some \<lparr>js_state = Downloading, js_done = dg_done d, js_total = dg_total d\<rparr>
      | None \<Rightarrow>
          if mxc \<in> fst ` set (dh_preparing h) \<or> mxc \<in> fst ` set (dh_inbox h)
          then Some \<lparr>js_state = Queued, js_done = 0, js_total = 0\<rparr> else None)"

definition enqueue_into ::
    "manifest \<Rightarrow> (string \<times> nat) list \<Rightarrow> string set \<Rightarrow> ('w, 'm) handler \<Rightarrow> ('w, 'm) handler \<times> job_status" where
  "enqueue_into m waiters listeners h =
     (let mxc = mf_mxc m;
          recipients = dh_listeners h mxc \<union> listeners;
          h1 = h\<lparr>dh_waiters := dh_waiters h @ waiters, dh_listeners := (dh_listeners h)(mxc := recipients)\<rparr>
      in case status_in h1 mxc of
           Some status \<Rightarrow> (h1, status)
         | None \<Rightarrow>
             (emit_to_each recipients (ch_user (dh_me h)) (media_event_of mxc Queued 0 0 None None)
                (h1\<lparr>dh_inbox := dh_inbox h1 @ [(mxc, m)]\<rparr>),
              \<lparr>js_state = Queued, js_done = 0, js_total = 0\<rparr>))"

text \<open>What the local side of \<open>Downloader::enqueue\<close> does when no other handler downloads the file.\<close>

definition enqueue_here :: "manifest \<Rightarrow> nat option \<Rightarrow> ('w, 'm) handler \<Rightarrow> ('w, 'm) handler \<times> job_status" where
  "enqueue_here m waiter h =
     enqueue_into m (case waiter of None \<Rightarrow> [] | Some w \<Rightarrow> [(mf_mxc m, w)]) {ch_user (dh_me h)} h"

text \<open>Takes the waiters and the listeners of a file out of the tables.\<close>

definition take_audience :: "string \<Rightarrow> ('w, 'm) handler \<Rightarrow> ('w, 'm) handler \<times> (string \<times> nat) list \<times> string set" where
  "take_audience mxc h =
     (h\<lparr>dh_waiters := filter (\<lambda>(x, _). x \<noteq> mxc) (dh_waiters h), dh_listeners := (dh_listeners h)(mxc := {})\<rparr>,
      filter (\<lambda>(x, _). x = mxc) (dh_waiters h), dh_listeners h mxc)"

definition tell_waiters :: "(string \<times> nat) list \<Rightarrow> core_error_kind + unit \<Rightarrow> ('w, 'm) handler \<Rightarrow> ('w, 'm) handler" where
  "tell_waiters waiters outcome h = h\<lparr>dh_outcomes := dh_outcomes h @ map (\<lambda>(_, w). (w, outcome)) waiters\<rparr>"

definition set_cancelled :: "string \<Rightarrow> ('w, 'm) handler \<Rightarrow> ('w, 'm) handler" where
  "set_cancelled mxc h =
     (case find_downloading h mxc of
        None \<Rightarrow> h
      | Some d \<Rightarrow> h\<lparr>dh_downloading := AList.update mxc (d\<lparr>dg_cancelled := True\<rparr>) (dh_downloading h)\<rparr>)"

definition cancel :: "string \<Rightarrow> ('w, 'm) handler \<Rightarrow> ('w, 'm) handler \<times> bool" where
  "cancel mxc h =
     (if find_downloading h mxc \<noteq> None then (set_cancelled mxc h, True)
      else if map_of (dh_preparing h) mxc \<noteq> None then
        (h\<lparr>dh_preparing := AList.update mxc True (dh_preparing h)\<rparr>, True)
      else
        let inbox = filter (\<lambda>(x, _). x \<noteq> mxc) (dh_inbox h) in
        if length inbox = length (dh_inbox h) then (h, False)
        else
          let (h1, waiters, listeners) = take_audience mxc (h\<lparr>dh_inbox := inbox\<rparr>) in
          (emit_to_each listeners (ch_user (dh_me h)) (media_event_of mxc Cancelled 0 0 None None)
             (tell_waiters waiters (Inl cancelled_error) h1), True))"

section \<open>Requests in flight\<close>

definition withdraw_request :: "download_request \<Rightarrow> ('w, 'm) handler \<Rightarrow> ('w, 'm) handler \<times> bool" where
  "withdraw_request r h = (let (line, was_queued) = withdraw r (dh_line h) in (h\<lparr>dh_line := line\<rparr>, was_queued))"

definition want :: "download_request \<Rightarrow> waiting \<Rightarrow> bool \<Rightarrow> ('w, 'm) handler \<Rightarrow> ('w, 'm) handler" where
  "want r who at_front h =
     (case map_of (dh_in_flight h) r of
        Some e \<Rightarrow>
          (let h1 = h\<lparr>dh_in_flight := AList.update r (e\<lparr>fl_waiters := fl_waiters e @ [who]\<rparr>) (dh_in_flight h)\<rparr> in
           if at_front then
             (case withdraw_request r h1 of
                (h2, True) \<Rightarrow> h2\<lparr>dh_line := push_front r (dh_line h2)\<rparr>
              | (h2, False) \<Rightarrow> h2)
           else h1)
      | None \<Rightarrow>
          (let h1 = h\<lparr>dh_in_flight := AList.update r \<lparr>fl_waiters = [who], fl_retries = no_retries\<rparr> (dh_in_flight h)\<rparr> in
           h1\<lparr>dh_line := (if at_front then push_front r (dh_line h1) else push_back r (dh_line h1))\<rparr>))"

definition resend :: "download_request \<Rightarrow> waiting list \<Rightarrow> retries \<Rightarrow> ('w, 'm) handler \<Rightarrow> ('w, 'm) handler" where
  "resend r waiters rt h =
     h\<lparr>dh_in_flight := AList.update r \<lparr>fl_waiters = waiters, fl_retries = rt\<rparr> (dh_in_flight h),
       dh_line := push_front r (dh_line h)\<rparr>"

text \<open>Takes a request out of the table, queue and all.\<close>

definition drop_request :: "download_request \<Rightarrow> ('w, 'm) handler \<Rightarrow> ('w, 'm) handler \<times> waiting list" where
  "drop_request r h =
     (let h1 = fst (withdraw_request r h) in
      (h1\<lparr>dh_in_flight := AList.delete r (dh_in_flight h1)\<rparr>,
       case map_of (dh_in_flight h1) r of None \<Rightarrow> [] | Some e \<Rightarrow> fl_waiters e))"

definition requests_of :: "string \<Rightarrow> ('w, 'm) handler \<Rightarrow> download_request list" where
  "requests_of mxc h = filter (\<lambda>r. request_mxc r = mxc) (map fst (dh_in_flight h))"

section \<open>Closing files and ending jobs\<close>

definition take_open :: "string \<Rightarrow> ('w, 'm) handler \<Rightarrow> ('w, 'm) handler \<times> 'm option" where
  "take_open mxc h =
     (case map_of (dh_open h) mxc of
        None \<Rightarrow> (h, None)
      | Some (name, md) \<Rightarrow>
          (h\<lparr>dh_open := AList.delete mxc (dh_open h), dh_open_names := dh_open_names h - {name},
             dh_claims := release (dh_claims h) mxc (dh_me h)\<rparr>, Some md))"

definition close_and_sync :: "('w, 'm) media_ops \<Rightarrow> string \<Rightarrow> ('w, 'm) handler \<Rightarrow> ('w, 'm) handler" where
  "close_and_sync ops mxc h =
     (case take_open mxc h of
        (h1, None) \<Rightarrow> h1
      | (h1, Some md) \<Rightarrow> set_world (op_sync ops md (dh_world h1)) h1)"

definition end_job :: "('w, 'm) media_ops \<Rightarrow> string \<Rightarrow> job_end \<Rightarrow> ('w, 'm) handler \<Rightarrow> ('w, 'm) handler" where
  "end_job ops mxc how h =
     (let d = find_downloading h mxc;
          (h1, waiters, listeners) = take_audience mxc (h\<lparr>dh_downloading := AList.delete mxc (dh_downloading h)\<rparr>);
          h2 = h1\<lparr>dh_timers := (dh_timers h1)(mxc := None)\<rparr>;
          seeks_waiting = (requests_of mxc h2 \<noteq> []);
          h3 = (if how = End_Cancelled \<and> \<not> seeks_waiting then close_and_sync ops mxc h2 else h2);
          n_done = (case d of None \<Rightarrow> 0 | Some d \<Rightarrow> dg_done d);
          n_total = (case d of None \<Rightarrow> 0 | Some d \<Rightarrow> dg_total d);
          (st, verified, reason, outcome) =
            (case how of
               End_Complete v \<Rightarrow> (Complete, Some v, None, Inr ())
             | End_Cancelled \<Rightarrow> (Cancelled, None, None, Inl cancelled_error)
             | End_Failed e \<Rightarrow> (Failed, None, Some e, Inl e))
      in tell_waiters waiters outcome
           (emit_to_each listeners (ch_user (dh_me h)) (media_event_of mxc st n_done n_total verified reason) h3))"

text \<open>The requests of a file are dropped one by one, the GETs on them told.\<close>

primrec fail_requests :: "download_request list \<Rightarrow> core_error_kind \<Rightarrow> ('w, 'm) handler \<Rightarrow> ('w, 'm) handler" where
  "fail_requests [] e h = h"
| "fail_requests (r # rs) e h =
     (let (h1, waiters) = drop_request r h in fail_requests rs e (fst (answer_seeks_only waiters e h1)))"

definition fail_media :: "('w, 'm) media_ops \<Rightarrow> string \<Rightarrow> core_error_kind \<Rightarrow> bool \<Rightarrow> ('w, 'm) handler \<Rightarrow> ('w, 'm) handler" where
  "fail_media ops mxc e discards h =
     (let h1 = fail_requests (requests_of mxc h) e h;
          h2 = (case take_open mxc h1 of
                  (h2, None) \<Rightarrow> h2
                | (h2, Some md) \<Rightarrow>
                    if discards then set_world (op_reset ops mxc (op_discard ops md (dh_world h2))) h2
                    else set_world (op_sync ops md (dh_world h2)) h2)
      in if find_downloading h2 mxc \<noteq> None then end_job ops mxc (End_Failed e) h2 else h2)"

primrec answer_requests_from_pool ::
    "('w, 'm) media_ops \<Rightarrow> media_entry option \<Rightarrow> download_request list \<Rightarrow> ('w, 'm) handler \<Rightarrow> ('w, 'm) handler" where
  "answer_requests_from_pool ops e [] h = h"
| "answer_requests_from_pool ops e (r # rs) h =
     (let (h1, waiters) = drop_request r h;
          answer = (\<lambda>index. case e of Some entry \<Rightarrow> read_complete_chunk ops (dh_world h) entry index | None \<Rightarrow> Inl downloader_gone)
      in answer_requests_from_pool ops e rs (fold (answer_waiting answer) waiters h1))"

definition answer_seeks_from_pool :: "('w, 'm) media_ops \<Rightarrow> string \<Rightarrow> ('w, 'm) handler \<Rightarrow> ('w, 'm) handler" where
  "answer_seeks_from_pool ops mxc h =
     (if requests_of mxc h = [] then h
      else answer_requests_from_pool ops (op_complete ops mxc (dh_world h)) (requests_of mxc h) h)"

definition finish_job :: "('w, 'm) media_ops \<Rightarrow> string \<Rightarrow> ('w, 'm) handler \<Rightarrow> ('w, 'm) handler" where
  "finish_job ops mxc h =
     (case map_of (dh_open h) mxc of
        None \<Rightarrow> h
      | Some (name, md) \<Rightarrow>
          (let h1 = h\<lparr>dh_open := AList.delete mxc (dh_open h), dh_open_names := dh_open_names h - {name}\<rparr>;
               h2 = (if cb_sha256 (mf_block (op_manifest ops md)) \<noteq> None then
                       (case find_downloading h1 mxc of
                          Some d \<Rightarrow> push mxc Verifying (dg_done d) (dg_total d) None None h1
                        | None \<Rightarrow> push mxc Verifying 0 0 None None h1)
                     else h1);
               (w, how) =
                 (case op_finish ops md (dh_world h2) of
                    (w1, Inr (fin, verified)) \<Rightarrow>
                      (case op_record ops mxc fin verified w1 of
                         (w2, Inr u) \<Rightarrow> (w2, End_Complete verified)
                       | (w2, Inl e) \<Rightarrow> (w2, End_Failed e))
                  | (w1, Inl e) \<Rightarrow> (op_reset ops mxc w1, End_Failed (core_of_sdk_error e)));
               h3 = (set_world w h2)\<lparr>dh_claims := release (dh_claims h2) mxc (dh_me h2)\<rparr>
           in end_job ops mxc how (answer_seeks_from_pool ops mxc h3)))"

section \<open>The main file\<close>

definition PROGRESS_FLUSH_MS :: nat where "PROGRESS_FLUSH_MS = 1500"
definition PUSH_EVERY_MS :: nat where "PUSH_EVERY_MS = 1000"

definition start_job :: "string \<Rightarrow> string option \<Rightarrow> u32 \<Rightarrow> u32 \<Rightarrow> ('w, 'm) handler \<Rightarrow> ('w, 'm) handler" where
  "start_job mxc name n_done n_total h =
     push mxc Downloading n_done n_total None None
       (h\<lparr>dh_next_started := dh_next_started h + 1,
          dh_downloading := AList.update mxc
            \<lparr>dg_cancelled = False, dg_done = n_done, dg_total = n_total, dg_name = name, dg_started = dh_next_started h\<rparr>
            (dh_downloading h),
          dh_timers := (dh_timers h)(mxc \<mapsto> (dh_now h, dh_now h))\<rparr>)"

definition set_done :: "string \<Rightarrow> u32 \<Rightarrow> ('w, 'm) handler \<Rightarrow> ('w, 'm) handler" where
  "set_done mxc n_done h =
     (case find_downloading h mxc of
        None \<Rightarrow> h
      | Some d \<Rightarrow> h\<lparr>dh_downloading := AList.update mxc (d\<lparr>dg_done := n_done\<rparr>) (dh_downloading h)\<rparr>)"

text \<open>A timer is the last flush and the last push.\<close>

definition tick :: "('w, 'm) media_ops \<Rightarrow> string \<Rightarrow> ('w, 'm) handler \<Rightarrow> ('w, 'm) handler" where
  "tick ops mxc h =
     (case dh_timers h mxc of
        None \<Rightarrow> h
      | Some (last_flush, last_push) \<Rightarrow>
          let now = dh_now h;
              flush_due = (now - last_flush \<ge> PROGRESS_FLUSH_MS);
              push_due = (now - last_push \<ge> PUSH_EVERY_MS);
              h1 = h\<lparr>dh_timers := (dh_timers h)
                       (mxc \<mapsto> (if flush_due then now else last_flush, if push_due then now else last_push))\<rparr>;
              h2 = (if flush_due then
                      (case map_of (dh_open h1) mxc of
                         None \<Rightarrow> h1
                       | Some (name, md) \<Rightarrow> set_world (op_progress ops mxc md (op_sync ops md (dh_world h1))) h1)
                    else h1)
          in if push_due then
               (case find_downloading h2 mxc of
                  Some d \<Rightarrow> push mxc Downloading (dg_done d) (dg_total d) None None h2
                | None \<Rightarrow> h2)
             else h2)"

definition after_landing :: "('w, 'm) media_ops \<Rightarrow> string \<Rightarrow> ('w, 'm) handler \<Rightarrow> ('w, 'm) handler" where
  "after_landing ops mxc h =
     (case (find_downloading h mxc, map_of (dh_open h) mxc) of
        (Some d, Some (name, md)) \<Rightarrow> tick ops mxc (set_done mxc (op_next ops md) h)
      | _ \<Rightarrow> h)"

text \<open>The next chunk of the main file; a loop that does not end is \<open>None\<close>.\<close>

partial_function (option) continue_main ::
    "('w, 'm) media_ops \<Rightarrow> string \<Rightarrow> ('w, 'm) handler \<Rightarrow> ('w, 'm) handler option" where
  "continue_main ops mxc h =
     (case find_downloading h mxc of
        None \<Rightarrow> Some h
      | Some d \<Rightarrow>
          if dg_cancelled d then Some (end_job ops mxc End_Cancelled h)
          else case map_of (dh_open h) mxc of
            None \<Rightarrow> Some (end_job ops mxc (End_Failed downloader_gone) h)
          | Some (name, md) \<Rightarrow>
              if op_written ops md then Some (finish_job ops mxc (set_done mxc (op_count ops md) h))
              else if op_needs_info ops md then Some (want (Info_Request mxc) Main False h)
              else case op_advance ops md of (r, md1) \<Rightarrow>
                (let h1 = set_open mxc name md1 h in
                 case r of
                   Inl e \<Rightarrow> Some (fail_media ops mxc (core_of_sdk_error e) True h1)
                 | Inr landed \<Rightarrow>
                     if landed then continue_main ops mxc (after_landing ops mxc h1)
                     else Some (want (Chunk_Request mxc (op_next ops md1)) Main False h1)))"

section \<open>Processing a download job\<close>

text \<open>The result says whether the file could be opened: \<open>False\<close> when another handler has claimed it.\<close>

definition open_media ::
    "('w, 'm) media_ops \<Rightarrow> manifest \<Rightarrow> ('w, 'm) handler \<Rightarrow> ('w, 'm) handler \<times> (core_error_kind + bool)" where
  "open_media ops m h =
     (let mxc = mf_mxc m; (held, mine) = claim (dh_claims h) mxc (dh_me h); h1 = h\<lparr>dh_claims := held\<rparr> in
      if \<not> mine then (h1, Inr False)
      else case op_open ops m (dh_world h1) of
        (w, Inr (name, md)) \<Rightarrow>
          ((set_open mxc name md (set_world w h1))
             \<lparr>dh_open_names := insert name (dh_open_names h1), dh_seek_only := AList.delete mxc (dh_seek_only h1)\<rparr>, Inr True)
      | (w, Inl e) \<Rightarrow> ((set_world w h1)\<lparr>dh_claims := release held mxc (dh_me h1)\<rparr>, Inl e))"

definition hand_over :: "('w, 'm) media_ops \<Rightarrow> (nat \<Rightarrow> bool) \<Rightarrow> manifest \<Rightarrow> ('w, 'm) handler \<Rightarrow> ('w, 'm) handler" where
  "hand_over ops running m h =
     (let mxc = mf_mxc m in
      case find_other_downloader running (dh_claims h) mxc (dh_me h) of
        None \<Rightarrow> end_job ops mxc (End_Failed Core_AccountBusy) h
      | Some other \<Rightarrow>
          (let (h1, waiters, listeners) = take_audience mxc h
           in h1\<lparr>dh_handed := dh_handed h1 @ [(other, m, waiters, listeners)]\<rparr>))"

text \<open>
  The other side of \<open>hand_over\<close>: the job enters the inbox of the other handler (\<open>to\<close>), and those who
  wait for it hear of its state there.
\<close>

definition deliver_handed ::
    "manifest \<times> (string \<times> nat) list \<times> string set \<Rightarrow> ('w, 'm) handler \<Rightarrow> ('w, 'm) handler \<Rightarrow> ('w, 'm) handler \<times> ('w, 'm) handler" where
  "deliver_handed job from to =
     (case job of (m, waiters, listeners) \<Rightarrow>
        (let (to1, status) = enqueue_into m waiters listeners to
         in (emit_to_each listeners (ch_user (dh_me from))
               (media_event_of (mf_mxc m) (js_state status) (js_done status) (js_total status) None None) from, to1)))"

definition is_cancelled_while_preparing :: "('w, 'm) handler \<Rightarrow> string \<Rightarrow> bool" where
  "is_cancelled_while_preparing h mxc = (map_of (dh_preparing h) mxc = Some True)"

text \<open>
  \<open>cancels k\<close>: somebody cancels at the \<open>k\<close>-th point where the handler holds no lock: while the file is
  being opened (0), between the look at the flag and the start of the job (1), after that (2).
\<close>

definition prepare_download ::
    "('w, 'm) media_ops \<Rightarrow> (nat \<Rightarrow> bool) \<Rightarrow> (nat \<Rightarrow> bool) \<Rightarrow> manifest \<Rightarrow> ('w, 'm) handler \<Rightarrow> ('w, 'm) handler option" where
  "prepare_download ops running cancels m h =
     (let mxc = mf_mxc m in
      if find_downloading h mxc \<noteq> None then Some h
      else if map_of (dh_open h) mxc = None \<and> op_complete ops mxc (dh_world h) \<noteq> None then
        Some (end_job ops mxc (End_Complete (me_verified (the (op_complete ops mxc (dh_world h))))) h)
      else
        let (h1, opened) = (if map_of (dh_open h) mxc = None then open_media ops m h else (h, Inr True));
            h2 = (if cancels 0 then fst (cancel mxc h1) else h1)
        in case opened of
             Inl e \<Rightarrow> Some (end_job ops mxc (End_Failed e) h2)
           | Inr False \<Rightarrow>
               if is_cancelled_while_preparing h2 mxc then Some (end_job ops mxc End_Cancelled h2)
               else Some (hand_over ops running m h2)
           | Inr True \<Rightarrow>
               (case map_of (dh_open h2) mxc of
                  None \<Rightarrow> Some h2
                | Some (name, md) \<Rightarrow>
                    if is_cancelled_while_preparing h2 mxc then Some (end_job ops mxc End_Cancelled h2)
                    else continue_main ops mxc
                      (start_job mxc (cb_name (mf_block m)) (op_next ops md) (op_count ops md)
                         (if cancels 1 then fst (cancel mxc h2) else h2))))"

text \<open>
  A job is "preparing" while it is processed; a cancel that came after the handler looked is carried over
  to the running job in the same step that ends the preparing.  Others may ask for files (\<open>late\<close>) after
  \<open>prepare_download\<close> and before the preparing ends.
\<close>

definition process_download_job ::
    "('w, 'm) media_ops \<Rightarrow> (nat \<Rightarrow> bool) \<Rightarrow> (nat \<Rightarrow> bool) \<Rightarrow> (manifest \<times> nat option) list \<Rightarrow> manifest
      \<Rightarrow> ('w, 'm) handler \<Rightarrow> ('w, 'm) handler option" where
  "process_download_job ops running cancels late m h =
     map_option (\<lambda>h1.
       let mxc = mf_mxc m;
           h2 = fold (\<lambda>(m', waiter) h. fst (enqueue_here m' waiter h)) late (if cancels 2 then fst (cancel mxc h1) else h1);
           cancelled = is_cancelled_while_preparing h2 mxc;
           h3 = h2\<lparr>dh_preparing := AList.delete mxc (dh_preparing h2)\<rparr>
       in if cancelled then set_cancelled mxc h3 else h3)
       (prepare_download ops running cancels m h)"

definition mark_preparing :: "string \<Rightarrow> ('w, 'm) handler \<Rightarrow> ('w, 'm) handler" where
  "mark_preparing mxc h = h\<lparr>dh_preparing := AList.update mxc False (dh_preparing h)\<rparr>"

text \<open>One turn of \<open>process_inbox\<close>.\<close>

definition process_inbox_job ::
    "('w, 'm) media_ops \<Rightarrow> (nat \<Rightarrow> bool) \<Rightarrow> (nat \<Rightarrow> bool) \<Rightarrow> (manifest \<times> nat option) list
      \<Rightarrow> ('w, 'm) handler \<Rightarrow> ('w, 'm) handler option" where
  "process_inbox_job ops running cancels late h =
     (case dh_inbox h of
        [] \<Rightarrow> Some h
      | (mxc, m) # rest \<Rightarrow>
          process_download_job ops running cancels late m (mark_preparing mxc (h\<lparr>dh_inbox := rest\<rparr>)))"

section \<open>Seeks\<close>

text \<open>A GET wants chunk \<open>index\<close>: from the files at hand, or as a request at the front of the line.\<close>

definition request_seek_chunk :: "('w, 'm) media_ops \<Rightarrow> string \<Rightarrow> u32 \<Rightarrow> nat \<Rightarrow> ('w, 'm) handler \<Rightarrow> ('w, 'm) handler" where
  "request_seek_chunk ops mxc index reply h =
     (case map_of (dh_open h) mxc of
        Some (name, md) \<Rightarrow>
          (case op_read_local ops index md of (r, md1) \<Rightarrow>
             (let h1 = set_open mxc name md1 h in
              case r of
                Inr (Some plain) \<Rightarrow>
                  answer_seek reply (Inr \<lparr>sp_start = chunk_start index (chunk_size_of ops md1), sp_plain = plain\<rparr>) h1
              | Inl e \<Rightarrow> answer_seek reply (Inl (core_of_sdk_error e)) h1
              | Inr None \<Rightarrow>
                  want (if op_needs_info ops md1 then Info_Request mxc else Chunk_Request mxc index) (Seek index reply) True h1))
      | None \<Rightarrow>
          (case map_of (dh_seek_only h) mxc of
             Some so \<Rightarrow>
               want (if so_target so = None then Info_Request mxc else Chunk_Request mxc index) (Seek index reply) True h
           | None \<Rightarrow> answer_seek reply (Inl downloader_gone) h))"

definition request_seek_at ::
    "('w, 'm) media_ops \<Rightarrow> string \<Rightarrow> u64 \<Rightarrow> u32 \<Rightarrow> nat \<Rightarrow> ('w, 'm) handler \<Rightarrow> ('w, 'm) handler" where
  "request_seek_at ops mxc position chunk_size reply h =
     (case chunk_index_at position chunk_size of
        Inr index \<Rightarrow> request_seek_chunk ops mxc index reply h
      | Inl e \<Rightarrow> answer_seek reply (Inl e) h)"

definition process_seek :: "('w, 'm) media_ops \<Rightarrow> manifest \<Rightarrow> u64 \<Rightarrow> nat \<Rightarrow> ('w, 'm) handler \<Rightarrow> ('w, 'm) handler" where
  "process_seek ops m position reply h =
     (let mxc = mf_mxc m in
      case map_of (dh_open h) mxc of
        Some (name, md) \<Rightarrow> request_seek_at ops mxc position (chunk_size_of ops md) reply h
      | None \<Rightarrow>
          (case op_complete ops mxc (dh_world h) of
             Some e \<Rightarrow>
               answer_seek reply
                 (rbind (chunk_layout_of e) (\<lambda>(chunk_size, file_size).
                  rbind (chunk_index_at position chunk_size) (\<lambda>index.
                  read_complete_chunk ops (dh_world h) e index))) h
           | None \<Rightarrow>
               (let so = (case map_of (dh_seek_only h) mxc of
                            Some so \<Rightarrow> so | None \<Rightarrow> \<lparr>so_manifest = m, so_target = None, so_last_used = dh_now h\<rparr>);
                    so1 = so\<lparr>so_last_used := dh_now h\<rparr>
                in request_seek_at ops mxc position (cb_chunk_size (mf_block (so_manifest so1))) reply
                     (h\<lparr>dh_seek_only := AList.update mxc so1 (dh_seek_only h)\<rparr>))))"

section \<open>Replies\<close>

fun request_seeks :: "('w, 'm) media_ops \<Rightarrow> string \<Rightarrow> waiting list \<Rightarrow> ('w, 'm) handler \<Rightarrow> ('w, 'm) handler" where
  "request_seeks ops mxc [] h = h"
| "request_seeks ops mxc (Main # ws) h = request_seeks ops mxc ws h"
| "request_seeks ops mxc (Seek index reply # ws) h = request_seeks ops mxc ws (request_seek_chunk ops mxc index reply h)"

definition bad_reply_again :: "retries \<Rightarrow> retries" where
  "bad_reply_again rt = rt\<lparr>rt_bad_replies := 1\<rparr>"

text \<open>What \<open>Info\<close> says of the file at hand: the updated handler, or the error.\<close>

definition check_info :: "('w, 'm) media_ops \<Rightarrow> string \<Rightarrow> pack \<Rightarrow> ('w, 'm) handler \<Rightarrow> (sdk_error + ('w, 'm) handler) option" where
  "check_info ops mxc ack h =
     (case map_of (dh_open h) mxc of
        Some (name, md) \<Rightarrow>
          Some (rbind (op_info_reply ops ack) (\<lambda>(info, description).
                rbind (op_accept ops info description md) (\<lambda>md1. Inr (set_open mxc name md1 h))))
      | None \<Rightarrow>
          (case map_of (dh_seek_only h) mxc of
             Some so \<Rightarrow>
               Some (rbind (op_info_reply ops ack) (\<lambda>(info, description).
                     rbind (verify_info (op_lib ops) (so_manifest so) info description) (\<lambda>target.
                     Inr (h\<lparr>dh_seek_only := AList.update mxc (so\<lparr>so_target := Some target\<rparr>) (dh_seek_only h)\<rparr>))))
           | None \<Rightarrow> None))"

text \<open>A file that failed its checks: discarded when it is being downloaded, else forgotten.\<close>

definition give_up_on :: "('w, 'm) media_ops \<Rightarrow> string \<Rightarrow> waiting list \<Rightarrow> sdk_error \<Rightarrow> ('w, 'm) handler \<Rightarrow> ('w, 'm) handler" where
  "give_up_on ops mxc waiters e h =
     (let h1 = fst (answer_seeks_only waiters (core_of_sdk_error e) h) in
      if map_of (dh_open h1) mxc \<noteq> None then fail_media ops mxc (core_of_sdk_error e) True h1
      else h1\<lparr>dh_seek_only := AList.delete mxc (dh_seek_only h1)\<rparr>)"

definition info_arrived ::
    "('w, 'm) media_ops \<Rightarrow> string \<Rightarrow> pack \<Rightarrow> waiting list \<Rightarrow> retries \<Rightarrow> ('w, 'm) handler \<Rightarrow> ('w, 'm) handler option" where
  "info_arrived ops mxc ack waiters rt h =
     (case check_info ops mxc ack h of
        None \<Rightarrow> Some (fst (answer_seeks_only waiters downloader_gone h))
      | Some (Inl e) \<Rightarrow>
          if is_bad_reply e \<and> rt_bad_replies rt = 0 then
            Some (resend (Info_Request mxc) waiters (bad_reply_again rt) h)
          else Some (give_up_on ops mxc waiters e h)
      | Some (Inr h1) \<Rightarrow>
          (let h2 = request_seeks ops mxc waiters h1
           in if Main \<in> set waiters then continue_main ops mxc h2 else Some h2))"

definition open_arrived ::
    "('w, 'm) media_ops \<Rightarrow> string \<Rightarrow> u32 \<Rightarrow> pack \<Rightarrow> ('w, 'm) handler \<Rightarrow> (sdk_error + bytes) option" where
  "open_arrived ops mxc index ack h =
     (case map_of (dh_open h) mxc of
        Some (name, md) \<Rightarrow>
          Some (rbind (op_read_meta ops ack) (\<lambda>meta. rbind (read_reply meta (pk_data ack) index) (\<lambda>(read, data).
                op_open_chunk ops index data md)))
      | None \<Rightarrow>
          (case map_of (dh_seek_only h) mxc of
             Some so \<Rightarrow>
               (case so_target so of
                  Some target \<Rightarrow>
                    Some (rbind (op_read_meta ops ack) (\<lambda>meta. rbind (read_reply meta (pk_data ack) index) (\<lambda>(read, data).
                          open_chunk_data (op_lib ops) (so_manifest so) target index data)))
                | None \<Rightarrow> Some (Inl Usage))
           | None \<Rightarrow> None))"

definition chunk_arrived ::
    "('w, 'm) media_ops \<Rightarrow> string \<Rightarrow> u32 \<Rightarrow> pack \<Rightarrow> waiting list \<Rightarrow> retries \<Rightarrow> ('w, 'm) handler \<Rightarrow> ('w, 'm) handler option" where
  "chunk_arrived ops mxc index ack waiters rt h =
     (case open_arrived ops mxc index ack h of
        None \<Rightarrow> Some (fst (answer_seeks_only waiters downloader_gone h))
      | Some (Inl e) \<Rightarrow>
          if (e = Integrity \<or> e = Protocol) \<and> rt_bad_replies rt = 0 then
            Some (resend (Chunk_Request mxc index) waiters (bad_reply_again rt) h)
          else Some (give_up_on ops mxc waiters e h)
      | Some (Inr plain) \<Rightarrow>
          (case map_of (dh_open h) mxc of
             None \<Rightarrow>
               (let chunk_size = (case map_of (dh_seek_only h) mxc of
                                    Some so \<Rightarrow> cb_chunk_size (mf_block (so_manifest so)) | None \<Rightarrow> 0)
                in Some (fold (answer_waiting (\<lambda>_. Inr \<lparr>sp_start = chunk_start index chunk_size, sp_plain = plain\<rparr>)) waiters h))
           | Some (name, md) \<Rightarrow>
               (let main_waits = (Main \<in> set waiters);
                    lands_in_main = (main_waits \<and> index = op_next ops md);
                    (stored, md1, w) =
                      (if lands_in_main then
                         (case op_land ops index plain md of
                            Inr md1 \<Rightarrow> (Inr (), md1, dh_world h) | Inl e \<Rightarrow> (Inl e, md, dh_world h))
                       else op_store_seek ops index plain md (dh_world h));
                    piece = \<lparr>sp_start = chunk_start index (chunk_size_of ops md1), sp_plain = plain\<rparr>;
                    h1 = fold (answer_waiting (\<lambda>_. Inr piece)) waiters (set_world w (set_open mxc name md1 h))
                in case stored of
                     Inl e \<Rightarrow>
                       if lands_in_main then Some (fail_media ops mxc (core_of_sdk_error e) False h1)
                       else if main_waits then continue_main ops mxc h1 else Some h1
                   | Inr u \<Rightarrow>
                       (let h2 = (if lands_in_main then after_landing ops mxc h1 else h1)
                        in if main_waits then continue_main ops mxc h2 else Some h2))))"

definition handle_reply ::
    "('w, 'm) media_ops \<Rightarrow> download_request \<Rightarrow> sdk_error + pack \<Rightarrow> ('w, 'm) handler \<Rightarrow> ('w, 'm) handler option" where
  "handle_reply ops action result h =
     (case map_of (dh_in_flight h) action of
        None \<Rightarrow> Some h
      | Some e \<Rightarrow>
          (let h1 = h\<lparr>dh_in_flight := AList.delete action (dh_in_flight h)\<rparr>; waiters = fl_waiters e; rt = fl_retries e in
           case result of
             Inr ack \<Rightarrow>
               (case action of
                  Info_Request mxc \<Rightarrow> info_arrived ops mxc ack waiters rt h1
                | Chunk_Request mxc index \<Rightarrow> chunk_arrived ops mxc index ack waiters rt h1)
           | Inl err \<Rightarrow>
               if err = Network then
                 (case answer_seeks_only waiters Core_Network h1 of
                    (h2, main) \<Rightarrow> Some (if main then resend action [Main] rt h2 else h2))
               else if err = Timeout \<and> rt_timeouts rt + 1 < TIMEOUT_ATTEMPTS then
                 Some (resend action waiters (rt\<lparr>rt_timeouts := rt_timeouts rt + 1\<rparr>) h1)
               else if is_bad_reply err \<and> rt_bad_replies rt = 0 then
                 Some (resend action waiters (bad_reply_again rt) h1)
               else
                 (case answer_seeks_only waiters (core_of_sdk_error err) h1 of
                    (h2, main) \<Rightarrow>
                      Some (if main \<or> is_permanent_refusal err
                            then fail_media ops (request_mxc action) (core_of_sdk_error err) (is_permanent_refusal err) h2
                            else h2))))"

text \<open>The next reply the line has given back.\<close>

definition next_reply :: "('w, 'm) media_ops \<Rightarrow> ('w, 'm) handler \<Rightarrow> ('w, 'm) handler option" where
  "next_reply ops h =
     (case rl_replies (dh_line h) of
        [] \<Rightarrow> Some h
      | (action, result) # rest \<Rightarrow>
          handle_reply ops action result (h\<lparr>dh_line := (dh_line h)\<lparr>rl_replies := rest\<rparr>\<rparr>))"

section \<open>Housekeeping\<close>

definition cancelled_jobs :: "('w, 'm) handler \<Rightarrow> string list" where
  "cancelled_jobs h = map fst (filter (\<lambda>(mxc, d). dg_cancelled d) (dh_downloading h))"

definition main_request :: "string \<Rightarrow> ('w, 'm) handler \<Rightarrow> download_request option" where
  "main_request mxc h =
     map_option fst (find (\<lambda>(r, e). request_mxc r = mxc \<and> Main \<in> set (fl_waiters e)) (dh_in_flight h))"

definition handle_cancellation :: "('w, 'm) media_ops \<Rightarrow> string \<Rightarrow> ('w, 'm) handler \<Rightarrow> ('w, 'm) handler" where
  "handle_cancellation ops mxc h =
     (case main_request mxc h of
        None \<Rightarrow> end_job ops mxc End_Cancelled h
      | Some r \<Rightarrow>
          (case withdraw_request r h of
             (h1, False) \<Rightarrow> h1
           | (h1, True) \<Rightarrow>
               (case map_of (dh_in_flight h1) r of
                  None \<Rightarrow> end_job ops mxc End_Cancelled h1
                | Some e \<Rightarrow>
                    (let h2 = h1\<lparr>dh_in_flight := AList.delete r (dh_in_flight h1)\<rparr>;
                         others = filter (\<lambda>w. w \<noteq> Main) (fl_waiters e);
                         h3 = (if others \<noteq> [] then resend r others (fl_retries e) h2 else h2)
                     in end_job ops mxc End_Cancelled h3))))"

definition handle_cancellations :: "('w, 'm) media_ops \<Rightarrow> ('w, 'm) handler \<Rightarrow> ('w, 'm) handler" where
  "handle_cancellations ops h = fold (handle_cancellation ops) (cancelled_jobs h) h"

definition busy :: "('w, 'm) handler \<Rightarrow> string \<Rightarrow> bool" where
  "busy h mxc \<longleftrightarrow> mxc \<in> request_mxc ` set (map fst (dh_in_flight h))"

text \<open>The least recently used description that no request needs.\<close>

definition oldest_seek_only :: "('w, 'm) handler \<Rightarrow> string option" where
  "oldest_seek_only h =
     (case filter (\<lambda>(mxc, so). \<not> busy h mxc) (dh_seek_only h) of
        [] \<Rightarrow> None
      | x # xs \<Rightarrow> Some (fst (foldl (\<lambda>a b. if so_last_used (snd b) < so_last_used (snd a) then b else a) x xs)))"

definition drop_oldest :: "('w, 'm) handler \<Rightarrow> ('w, 'm) handler" where
  "drop_oldest h =
     (case oldest_seek_only h of
        None \<Rightarrow> h
      | Some mxc \<Rightarrow> h\<lparr>dh_seek_only := AList.delete mxc (dh_seek_only h)\<rparr>)"

definition close_idle_without_job :: "('w, 'm) media_ops \<Rightarrow> ('w, 'm) handler \<Rightarrow> ('w, 'm) handler" where
  "close_idle_without_job ops h =
     (let idle = filter (\<lambda>mxc. find_downloading h mxc = None \<and> \<not> busy h mxc) (map fst (dh_open h));
          h1 = fold (close_and_sync ops) idle h
      in (drop_oldest ^^ (length (dh_seek_only h1) - SEEK_ONLY_KEPT)) h1)"

text \<open>Everything goes: files are closed, and whoever waits for a job is told.\<close>

definition close_everything :: "('w, 'm) media_ops \<Rightarrow> ('w, 'm) handler \<Rightarrow> ('w, 'm) handler" where
  "close_everything ops h =
     (let h1 = fold (close_and_sync ops) (map fst (dh_open h)) h;
          ended = remdups (map fst (dh_inbox h1) @ map fst (dh_preparing h1) @ map fst (dh_downloading h1));
          h2 = h1\<lparr>dh_inbox := [], dh_preparing := [], dh_downloading := [], dh_waiters := [], dh_listeners := (\<lambda>_. {})\<rparr>;
          h3 = tell_waiters (dh_waiters h1) (Inl downloader_gone) h2
      in fold (\<lambda>mxc. emit_to_each (dh_listeners h1 mxc) (ch_user (dh_me h1))
                 (media_event_of mxc Failed 0 0 None (Some downloader_gone))) ended h3)"

text \<open>
  Dropping the handler: its \<open>Drop\<close>, then its fields, and a GET whose reply channel is dropped with the
  table of requests finds the downloader gone (\<open>read_piece_at\<close>).
\<close>

definition stop_handler :: "('w, 'm) media_ops \<Rightarrow> ('w, 'm) handler \<Rightarrow> ('w, 'm) handler" where
  "stop_handler ops h =
     (let h1 = close_everything ops (h\<lparr>dh_stopped := True\<rparr>)
      in fold (\<lambda>(r, e). answer_waiting_gone (fl_waiters e)) (dh_in_flight h1) (h1\<lparr>dh_in_flight := []\<rparr>))"

section \<open>Events\<close>

datatype handler_event =
    He_Enqueue manifest "nat option"
  | He_Handed manifest "(string \<times> nat) list" "string set"
  | He_Cancel string
  | He_Process "nat \<Rightarrow> bool" "nat \<Rightarrow> bool" "(manifest \<times> nat option) list"
  | He_Seek manifest u64 nat
  | He_Line "download_request line_event"
  | He_Reply
  | He_Cancellations
  | He_Close_Idle
  | He_Time nat
  | He_Claims claims

fun handler_do :: "('w, 'm) media_ops \<Rightarrow> nat \<Rightarrow> handler_event \<Rightarrow> ('w, 'm) handler \<Rightarrow> ('w, 'm) handler option" where
  "handler_do ops silence (He_Enqueue m waiter) h = Some (fst (enqueue_here m waiter h))"
| "handler_do ops silence (He_Handed m waiters listeners) h = Some (fst (enqueue_into m waiters listeners h))"
| "handler_do ops silence (He_Cancel mxc) h = Some (fst (cancel mxc h))"
| "handler_do ops silence (He_Process running cancels late) h = process_inbox_job ops running cancels late h"
| "handler_do ops silence (He_Seek m position reply) h = Some (process_seek ops m position reply h)"
| "handler_do ops silence (He_Line ev) h = Some (h\<lparr>dh_line := line_do silence ev (dh_line h)\<rparr>)"
| "handler_do ops silence He_Reply h = next_reply ops h"
| "handler_do ops silence He_Cancellations h = Some (handle_cancellations ops h)"
| "handler_do ops silence He_Close_Idle h = Some (close_idle_without_job ops h)"
| "handler_do ops silence (He_Time now) h = Some (h\<lparr>dh_now := now\<rparr>)"
| "handler_do ops silence (He_Claims held) h = Some (h\<lparr>dh_claims := held\<rparr>)"

end
