(* ===== verification/Queue_Invariant.thy ===== *)
theory Queue_Invariant
  imports Download_Queue Request_Line_Correct
begin

text \<open>
  The invariant of the download handler, and that it survives the steps all others are made of: asking for
  chunks, dropping and repeating requests, closing files, ending jobs, and the loop of the main file.
\<close>

section \<open>Tokens\<close>

fun seek_tokens :: "waiting list \<Rightarrow> nat multiset" where
  "seek_tokens [] = {#}"
| "seek_tokens (Main # ws) = seek_tokens ws"
| "seek_tokens (Seek index reply # ws) = add_mset reply (seek_tokens ws)"

lemma seek_tokens_append [simp]: "seek_tokens (xs @ ys) = seek_tokens xs + seek_tokens ys"
  by (induction xs rule: seek_tokens.induct) auto

lemma seek_tokens_no_main [simp]: "seek_tokens (filter (\<lambda>w. w \<noteq> Main) ws) = seek_tokens ws"
  by (induction ws rule: seek_tokens.induct) auto

definition flight_tokens :: "(download_request \<times> in_flight) list \<Rightarrow> nat multiset" where
  "flight_tokens xs = sum_list (map (\<lambda>(r, e). seek_tokens (fl_waiters e)) xs)"

lemma flight_tokens_simps [simp]:
  "flight_tokens [] = {#}"
  "flight_tokens (x # xs) = seek_tokens (fl_waiters (snd x)) + flight_tokens xs"
  by (simp_all add: flight_tokens_def case_prod_unfold)

lemma flight_tokens_absent: "r \<notin> fst ` set xs \<Longrightarrow> flight_tokens (AList.update r e xs) = flight_tokens xs + seek_tokens (fl_waiters e)"
  by (induction xs) auto

lemma flight_tokens_update:
  assumes "distinct (map fst xs)" "map_of xs r = Some e0"
  shows "flight_tokens (AList.update r e xs) + seek_tokens (fl_waiters e0) = flight_tokens xs + seek_tokens (fl_waiters e)"
  using assms by (induction xs) (auto simp: ac_simps split: if_splits)

lemma flight_tokens_delete:
  assumes "distinct (map fst xs)" "map_of xs r = Some e0"
  shows "flight_tokens xs = flight_tokens (AList.delete r xs) + seek_tokens (fl_waiters e0)"
  using assms
proof (induction xs)
  case (Cons x xs)
  show ?case
  proof (cases "fst x = r")
    case True
    then have "AList.delete r xs = xs" using Cons.prems(1) by (intro delete_absent) auto
    then show ?thesis using Cons.prems True by (cases x) (simp add: ac_simps)
  next
    case False
    then show ?thesis using Cons by (cases x) (auto simp: ac_simps)
  qed
qed simp

lemma keys_update: "fst ` set (AList.update k v xs) = insert k (fst ` set xs)"
  by (metis update_keys insert_absorb image_set list.set_map set_append empty_set list.simps(15) Un_insert_right sup_bot.right_neutral)

lemma keys_delete: "fst ` set (AList.delete k xs) = fst ` set xs - {k}"
  by (auto simp: AList.delete_eq)

section \<open>The invariant\<close>

abbreviation keys :: "('a \<times> 'b) list \<Rightarrow> 'a set" where
  "keys xs \<equiv> fst ` set xs"

text \<open>Who has something to do with a job: it is queued, being prepared or running.\<close>

definition has_job :: "('w, 'm) handler \<Rightarrow> string set" where
  "has_job h = keys (dh_downloading h) \<union> keys (dh_preparing h) \<union> keys (dh_inbox h)"

text \<open>The main file of \<open>mxc\<close> waits for request \<open>r\<close>.\<close>

definition main_waits :: "(download_request \<times> in_flight) list \<Rightarrow> string \<Rightarrow> download_request \<Rightarrow> bool" where
  "main_waits fl mxc r \<longleftrightarrow> request_mxc r = mxc \<and> (\<exists>e. map_of fl r = Some e \<and> Main \<in> set (fl_waiters e))"

text \<open>A running job (outside \<open>M\<close>) has its file open and its main file waits for exactly one request.\<close>

definition jobs_ok :: "string set \<Rightarrow> string set \<Rightarrow> string set \<Rightarrow> (download_request \<times> in_flight) list \<Rightarrow> bool" where
  "jobs_ok M running opened fl \<longleftrightarrow>
     (\<forall>mxc\<in>running - M. mxc \<in> opened \<and> (\<exists>r. main_waits fl mxc r))
     \<and> (\<forall>mxc r. main_waits fl mxc r \<longrightarrow> mxc \<in> running)
     \<and> (\<forall>mxc r r'. main_waits fl mxc r \<longrightarrow> main_waits fl mxc r' \<longrightarrow> r = r')"

text \<open>A request in flight is on the line, and has been resent a bounded number of times.\<close>

definition flight_ok :: "nat \<Rightarrow> (download_request \<times> in_flight) list \<Rightarrow> download_request request_line \<Rightarrow> bool" where
  "flight_ok n fl line \<longleftrightarrow>
     distinct (map fst fl) \<and> line_ok n line \<and> keys fl \<subseteq> set_mset (accounted_for line)
     \<and> (\<forall>(r, e)\<in>set fl. rt_timeouts (fl_retries e) < TIMEOUT_ATTEMPTS \<and> rt_bad_replies (fl_retries e) \<le> 1)"

text \<open>Nobody (outside \<open>A\<close>) waits for, or listens to, a job that is not there.\<close>

definition audience_ok :: "string set \<Rightarrow> (string \<times> nat) list \<Rightarrow> (string \<Rightarrow> string set) \<Rightarrow> string set \<Rightarrow> bool" where
  "audience_ok A waiters listeners jobs \<longleftrightarrow>
     keys waiters \<subseteq> jobs \<union> A \<and> (\<forall>mxc. listeners mxc \<noteq> {} \<longrightarrow> mxc \<in> jobs \<union> A)"

definition others_claim :: "nat \<Rightarrow> claims \<Rightarrow> string \<Rightarrow> claim_holder option" where
  "others_claim me held mxc =
     (case held mxc of Some c \<Rightarrow> if ch_handler c \<noteq> me then Some c else None | None \<Rightarrow> None)"

text \<open>Open files are claimed, and the other handlers' claims are as they were.\<close>

definition claims_ok :: "claims \<Rightarrow> nat \<Rightarrow> string set \<Rightarrow> claims \<Rightarrow> bool" where
  "claims_ok others me opened held \<longleftrightarrow>
     (\<forall>mxc\<in>opened. \<exists>c. held mxc = Some c \<and> ch_handler c = me)
     \<and> others_claim me held = others_claim me others"

lemma others_claim_release: "ch_handler me = n \<Longrightarrow> others_claim n (release held mxc me) = others_claim n held"
  by (rule ext) (auto simp: others_claim_def release_def split: option.split)

lemma others_claim_claim: "ch_handler me = n \<Longrightarrow> others_claim n (fst (claim held mxc me)) = others_claim n held"
  by (rule ext) (auto simp: others_claim_def claim_def split: option.split)

lemma claims_ok_release:
  assumes "claims_ok others n opened held" "ch_handler me = n"
  shows "claims_ok others n (opened - {mxc}) (release held mxc me)"
  using assms(1) unfolding claims_ok_def others_claim_release [OF assms(2)]
  by (auto simp: release_def split: option.split)

lemma claims_ok_claimed:
  assumes "claims_ok others n opened held" "ch_handler me = n"
  shows "claims_ok others n opened (fst (claim held mxc me))"
  using assms(1) unfolding claims_ok_def others_claim_claim [OF assms(2)]
  by (auto simp: claim_def split: option.split)

lemma claims_ok_claim:
  assumes "claims_ok others n opened held" "ch_handler me = n" "snd (claim held mxc me)"
  shows "claims_ok others n (insert mxc opened) (fst (claim held mxc me))"
  using assms(1,3) unfolding claims_ok_def others_claim_claim [OF assms(2)]
  by (auto simp: claim_def assms(2) split: option.split_asm)

definition seeks_held :: "('w, 'm) handler \<Rightarrow> nat multiset" where
  "seeks_held h = flight_tokens (dh_in_flight h) + mset (map fst (dh_seek_answers h))"

definition handed_waiters :: "(nat \<times> manifest \<times> (string \<times> nat) list \<times> string set) list \<Rightarrow> nat multiset" where
  "handed_waiters xs = mset (concat (map (\<lambda>(to, m, ws, ls). map snd ws) xs))"

definition waiters_held :: "('w, 'm) handler \<Rightarrow> nat multiset" where
  "waiters_held h = mset (map snd (dh_waiters h)) + mset (map fst (dh_outcomes h)) + handed_waiters (dh_handed h)"

record duties =
  du_numbers :: nat
  du_me :: nat
  du_others :: claims
  du_seeks :: "nat multiset"
  du_waiters :: "nat multiset"

text \<open>
  The invariant in the middle of a step: jobs in \<open>M\<close> may lack their file or their request, files in \<open>A\<close> may
  have an audience and no job.  The duties are the numbers the line may still draw, the handler's own
  number, the other handlers' claims, and the GETs and waiters it answers for.
\<close>

definition handler_inv :: "duties \<Rightarrow> string set \<Rightarrow> string set \<Rightarrow> ('w, 'm) handler \<Rightarrow> bool" where
  "handler_inv du M A h \<longleftrightarrow>
     distinct (map fst (dh_downloading h)) \<and> distinct (map fst (dh_open h))
     \<and> jobs_ok M (keys (dh_downloading h)) (keys (dh_open h)) (dh_in_flight h)
     \<and> flight_ok (du_numbers du) (dh_in_flight h) (dh_line h)
     \<and> audience_ok A (dh_waiters h) (dh_listeners h) (has_job h)
     \<and> claims_ok (du_others du) (du_me du) (keys (dh_open h)) (dh_claims h) \<and> ch_handler (dh_me h) = du_me du
     \<and> seeks_held h = du_seeks du \<and> waiters_held h = du_waiters du
     \<and> (\<forall>(x, m)\<in>set (dh_inbox h). x = mf_mxc m)"

lemma keys_update_old [simp]: "map_of xs k \<noteq> None \<Longrightarrow> keys (AList.update k v xs) = keys xs"
  by (auto simp: keys_update map_of_eq_None_iff)

lemma keys_update_Some [simp]: "map_of xs k = Some w \<Longrightarrow> keys (AList.update k v xs) = keys xs"
  by (rule keys_update_old) simp

section \<open>Steps that touch nothing of it\<close>

lemma handler_inv_frame [simp]:
  "handler_inv du M A (h\<lparr>dh_events := x1\<rparr>) = handler_inv du M A h"
  "handler_inv du M A (h\<lparr>dh_world := x2\<rparr>) = handler_inv du M A h"
  "handler_inv du M A (h\<lparr>dh_timers := x3\<rparr>) = handler_inv du M A h"
  "handler_inv du M A (h\<lparr>dh_now := x4\<rparr>) = handler_inv du M A h"
  "handler_inv du M A (h\<lparr>dh_open_names := x5\<rparr>) = handler_inv du M A h"
  "handler_inv du M A (h\<lparr>dh_next_started := x4\<rparr>) = handler_inv du M A h"
  "handler_inv du M A (h\<lparr>dh_stopped := x6\<rparr>) = handler_inv du M A h"
  "handler_inv du M A (h\<lparr>dh_seek_only := x7\<rparr>) = handler_inv du M A h"
  by (simp_all add: handler_inv_def has_job_def seeks_held_def waiters_held_def)

lemma emit_inv [simp]: "handler_inv du M A (emit_to_each r f ev h) = handler_inv du M A h"
  by (simp add: emit_to_each_def)

lemma push_inv [simp]: "handler_inv du M A (push mxc st n_done n_total v e h) = handler_inv du M A h"
  by (simp add: push_def)

text \<open>The fields the proofs follow through the steps.\<close>

lemma emit_fields [simp]:
  "dh_me (emit_to_each r f ev h) = dh_me h" "dh_inbox (emit_to_each r f ev h) = dh_inbox h"
  "dh_preparing (emit_to_each r f ev h) = dh_preparing h" "dh_downloading (emit_to_each r f ev h) = dh_downloading h"
  "dh_waiters (emit_to_each r f ev h) = dh_waiters h" "dh_listeners (emit_to_each r f ev h) = dh_listeners h"
  "dh_open (emit_to_each r f ev h) = dh_open h" "dh_in_flight (emit_to_each r f ev h) = dh_in_flight h"
  "dh_line (emit_to_each r f ev h) = dh_line h" "dh_claims (emit_to_each r f ev h) = dh_claims h"
  "dh_world (emit_to_each r f ev h) = dh_world h" "dh_seek_only (emit_to_each r f ev h) = dh_seek_only h"
  by (simp_all add: emit_to_each_def)

lemma push_fields [simp]:
  "dh_downloading (push mxc st a b v e h) = dh_downloading h" "dh_open (push mxc st a b v e h) = dh_open h"
  "dh_in_flight (push mxc st a b v e h) = dh_in_flight h" "dh_me (push mxc st a b v e h) = dh_me h"
  "dh_claims (push mxc st a b v e h) = dh_claims h" "dh_preparing (push mxc st a b v e h) = dh_preparing h"
  "dh_inbox (push mxc st a b v e h) = dh_inbox h"
  by (simp_all add: push_def)

text \<open>Replacing the value of an open file, or of a running job, changes no key.\<close>

lemma set_open_inv [simp]:
  "map_of (dh_open h) mxc \<noteq> None \<Longrightarrow> handler_inv du M A (set_open mxc name md h) = handler_inv du M A h"
  by (auto simp: handler_inv_def has_job_def seeks_held_def waiters_held_def distinct_update map_of_eq_None_iff
      keys_update insert_absorb update_keys)

lemma set_running_inv:
  "map_of (dh_downloading h) mxc \<noteq> None \<Longrightarrow>
     handler_inv du M A (h\<lparr>dh_downloading := AList.update mxc d (dh_downloading h)\<rparr>) = handler_inv du M A h"
  by (auto simp: handler_inv_def has_job_def seeks_held_def waiters_held_def distinct_update map_of_eq_None_iff
      keys_update insert_absorb update_keys)

lemma set_done_inv [simp]: "handler_inv du M A (set_done mxc n_done h) = handler_inv du M A h"
  by (simp add: set_done_def set_running_inv split: option.split)

lemma set_cancelled_inv [simp]: "handler_inv du M A (set_cancelled mxc h) = handler_inv du M A h"
  by (simp add: set_cancelled_def set_running_inv split: option.split)

lemma set_cancelled_fields [simp]:
  "dh_open (set_cancelled mxc h) = dh_open h" "dh_in_flight (set_cancelled mxc h) = dh_in_flight h"
  "keys (dh_downloading (set_cancelled mxc h)) = keys (dh_downloading h)"
  "dh_preparing (set_cancelled mxc h) = dh_preparing h" "dh_inbox (set_cancelled mxc h) = dh_inbox h"
  "dh_waiters (set_cancelled mxc h) = dh_waiters h" "dh_listeners (set_cancelled mxc h) = dh_listeners h"
  by (auto simp: set_cancelled_def split: option.split)

lemma set_done_fields [simp]:
  "dh_open (set_done mxc n_done h) = dh_open h" "dh_in_flight (set_done mxc n_done h) = dh_in_flight h"
  "keys (dh_downloading (set_done mxc n_done h)) = keys (dh_downloading h)"
  "dh_preparing (set_done mxc n_done h) = dh_preparing h" "dh_inbox (set_done mxc n_done h) = dh_inbox h"
  by (auto simp: set_done_def split: option.split)

lemma tick_inv [simp]: "handler_inv du M A (tick ops mxc h) = handler_inv du M A h"
  by (auto simp: tick_def Let_def split: option.split prod.split)

lemma tick_fields [simp]:
  "dh_open (tick ops mxc h) = dh_open h" "dh_in_flight (tick ops mxc h) = dh_in_flight h"
  "dh_downloading (tick ops mxc h) = dh_downloading h" "dh_preparing (tick ops mxc h) = dh_preparing h"
  "dh_inbox (tick ops mxc h) = dh_inbox h"
  by (auto simp: tick_def Let_def split: option.split prod.split)

lemma after_landing_inv [simp]: "handler_inv du M A (after_landing ops mxc h) = handler_inv du M A h"
  by (auto simp: after_landing_def split: option.split prod.split)

lemma after_landing_fields [simp]:
  "dh_open (after_landing ops mxc h) = dh_open h" "dh_in_flight (after_landing ops mxc h) = dh_in_flight h"
  "keys (dh_downloading (after_landing ops mxc h)) = keys (dh_downloading h)"
  "dh_preparing (after_landing ops mxc h) = dh_preparing h" "dh_inbox (after_landing ops mxc h) = dh_inbox h"
  by (auto simp: after_landing_def split: option.split prod.split)

section \<open>Answering\<close>

abbreviation more_seeks :: "nat multiset \<Rightarrow> duties \<Rightarrow> duties" where
  "more_seeks T du \<equiv> du\<lparr>du_seeks := du_seeks du + T\<rparr>"

abbreviation more_waiters :: "nat multiset \<Rightarrow> duties \<Rightarrow> duties" where
  "more_waiters T du \<equiv> du\<lparr>du_waiters := du_waiters du + T\<rparr>"

lemma answer_seek_inv [simp]:
  "handler_inv (du\<lparr>du_seeks := add_mset reply S\<rparr>) M A (answer_seek reply r h) = handler_inv (du\<lparr>du_seeks := S\<rparr>) M A h"
  by (auto simp: answer_seek_def handler_inv_def has_job_def seeks_held_def waiters_held_def)

lemma answer_seek_fields [simp]:
  "dh_downloading (answer_seek reply r h) = dh_downloading h" "dh_open (answer_seek reply r h) = dh_open h"
  "dh_in_flight (answer_seek reply r h) = dh_in_flight h" "dh_line (answer_seek reply r h) = dh_line h"
  "dh_preparing (answer_seek reply r h) = dh_preparing h" "dh_inbox (answer_seek reply r h) = dh_inbox h"
  "dh_seek_only (answer_seek reply r h) = dh_seek_only h" "dh_world (answer_seek reply r h) = dh_world h"
  by (simp_all add: answer_seek_def)

lemma answer_waiting_fields [simp]:
  "dh_downloading (answer_waiting f w h) = dh_downloading h" "dh_open (answer_waiting f w h) = dh_open h"
  "dh_in_flight (answer_waiting f w h) = dh_in_flight h" "dh_line (answer_waiting f w h) = dh_line h"
  "dh_preparing (answer_waiting f w h) = dh_preparing h" "dh_inbox (answer_waiting f w h) = dh_inbox h"
  "dh_seek_only (answer_waiting f w h) = dh_seek_only h" "dh_world (answer_waiting f w h) = dh_world h"
  by (cases w; simp)+

lemma answer_all_fields [simp]:
  "dh_downloading (fold (answer_waiting f) ws h) = dh_downloading h" "dh_open (fold (answer_waiting f) ws h) = dh_open h"
  "dh_in_flight (fold (answer_waiting f) ws h) = dh_in_flight h" "dh_line (fold (answer_waiting f) ws h) = dh_line h"
  "dh_preparing (fold (answer_waiting f) ws h) = dh_preparing h" "dh_inbox (fold (answer_waiting f) ws h) = dh_inbox h"
  "dh_seek_only (fold (answer_waiting f) ws h) = dh_seek_only h" "dh_world (fold (answer_waiting f) ws h) = dh_world h"
  by (induction ws arbitrary: h) simp_all

lemma answer_all_inv [simp]:
  "handler_inv (du\<lparr>du_seeks := S + seek_tokens ws\<rparr>) M A (fold (answer_waiting f) ws h) = handler_inv (du\<lparr>du_seeks := S\<rparr>) M A h"
proof (induction ws arbitrary: S h rule: seek_tokens.induct)
  case (3 index reply ws)
  have "handler_inv (du\<lparr>du_seeks := add_mset reply S + seek_tokens ws\<rparr>) M A (fold (answer_waiting f) ws (answer_seek reply (f index) h))
      = handler_inv (du\<lparr>du_seeks := add_mset reply S\<rparr>) M A (answer_seek reply (f index) h)" by (rule 3)
  then show ?case by simp
qed simp_all

lemma answer_seeks_only_fst [simp]:
  "fst (answer_seeks_only ws e h) = fold (answer_waiting (\<lambda>_. Inl e)) ws h"
  "snd (answer_seeks_only ws e h) = (Main \<in> set ws)"
  by (simp_all add: answer_seeks_only_def)

lemma tell_waiters_inv [simp]:
  "handler_inv (du\<lparr>du_waiters := W + mset (map snd ws)\<rparr>) M A (tell_waiters ws outcome h) = handler_inv (du\<lparr>du_waiters := W\<rparr>) M A h"
proof -
  have "mset (map fst (map (\<lambda>(_, w). (w, outcome)) ws)) = mset (map snd ws)" by (induction ws) auto
  then show ?thesis by (auto simp: tell_waiters_def handler_inv_def has_job_def seeks_held_def waiters_held_def simp del: map_map)
qed

section \<open>Requests in flight\<close>

lemma same_duties [simp]: "du\<lparr>du_seeks := du_seeks du\<rparr> = du" "du\<lparr>du_waiters := du_waiters du\<rparr> = du"
  by simp_all

lemma withdraw_line:
  "line_ok n line \<Longrightarrow> line_ok n (fst (withdraw r line))"
  "set_mset (accounted_for line) - {r} \<subseteq> set_mset (accounted_for (fst (withdraw r line)))"
  "\<not> snd (withdraw r line) \<Longrightarrow> fst (withdraw r line) = line"
proof -
  show "line_ok n line \<Longrightarrow> line_ok n (fst (withdraw r line))" by (simp add: withdraw_def Let_def line_ok_def)
  show "set_mset (accounted_for line) - {r} \<subseteq> set_mset (accounted_for (fst (withdraw r line)))"
    by (auto simp: withdraw_def Let_def accounted_for_def in_hand_def)
  assume "\<not> snd (withdraw r line)"
  then have "length (filter (\<lambda>x. x \<noteq> r) (rl_queued line)) = length (rl_queued line)" by (simp add: withdraw_def Let_def)
  then have "filter (\<lambda>x. x \<noteq> r) (rl_queued line) = rl_queued line"
    by (metis filter_True length_filter_less nat_neq_iff)
  then show "fst (withdraw r line) = line" by (simp add: withdraw_def Let_def)
qed

lemma push_line:
  "line_ok n (push_front r line) = line_ok n line" "line_ok n (push_back r line) = line_ok n line"
  "set_mset (accounted_for (push_front r line)) = insert r (set_mset (accounted_for line))"
  "set_mset (accounted_for (push_back r line)) = insert r (set_mset (accounted_for line))"
  by (auto simp: push_front_def push_back_def line_ok_def accounted_for_def in_hand_def)

lemma flight_map:
  assumes "flight_ok n fl line"
  shows "map_of (AList.update r e fl) = (map_of fl)(r \<mapsto> e)" "map_of (AList.delete r fl) = (map_of fl)(r := None)"
  by (simp_all add: update_conv' delete_conv')

lemma main_waits_update:
  "main_waits (AList.update r e fl) mxc r' \<longleftrightarrow>
     (if r' = r then request_mxc r = mxc \<and> Main \<in> set (fl_waiters e) else main_waits fl mxc r')"
  by (auto simp: main_waits_def update_conv')

lemma main_waits_delete: "main_waits (AList.delete r fl) mxc r' \<longleftrightarrow> r' \<noteq> r \<and> main_waits fl mxc r'"
  by (auto simp: main_waits_def delete_conv')

definition bounded :: "retries \<Rightarrow> bool" where
  "bounded rt \<longleftrightarrow> rt_timeouts rt < TIMEOUT_ATTEMPTS \<and> rt_bad_replies rt \<le> 1"

lemma bounded_simps [simp]:
  "bounded no_retries" "bounded rt \<Longrightarrow> bounded (bad_reply_again rt)"
  "bounded rt \<Longrightarrow> rt_timeouts rt + 1 < TIMEOUT_ATTEMPTS \<Longrightarrow> bounded (rt\<lparr>rt_timeouts := Suc (rt_timeouts rt)\<rparr>)"
  by (simp_all add: bounded_def no_retries_def bad_reply_again_def TIMEOUT_ATTEMPTS_def)

lemma set_update_subset: "set (AList.update r e xs) \<subseteq> insert (r, e) (set xs)"
  by (induction xs) (auto split: if_splits)

lemma set_delete: "set (AList.delete r xs) = {x \<in> set xs. fst x \<noteq> r}"
  by (auto simp: AList.delete_eq)

lemma flight_ok_alt:
  "flight_ok n fl line \<longleftrightarrow> distinct (map fst fl) \<and> line_ok n line \<and> keys fl \<subseteq> set_mset (accounted_for line)
     \<and> (\<forall>x\<in>set fl. bounded (fl_retries (snd x)))"
  by (auto simp: flight_ok_def bounded_def)

lemma flight_ok_keys: "flight_ok n fl line \<Longrightarrow> keys fl \<subseteq> set_mset (accounted_for line)"
  by (simp add: flight_ok_def)

lemma flight_ok_bounds: "flight_ok n fl line \<Longrightarrow> x \<in> set fl \<Longrightarrow> bounded (fl_retries (snd x))"
  by (simp add: flight_ok_alt)

lemma flight_ok_put:
  assumes "flight_ok n fl line" "bounded (fl_retries e)" "line_ok n line'" "r \<in> set_mset (accounted_for line')"
    and "set_mset (accounted_for line) - {r} \<subseteq> set_mset (accounted_for line')"
  shows "flight_ok n (AList.update r e fl) line'"
  unfolding flight_ok_alt
proof (intro conjI ballI)
  show "distinct (map fst (AList.update r e fl))" using assms(1) by (simp add: flight_ok_def distinct_update)
  show "keys (AList.update r e fl) \<subseteq> set_mset (accounted_for line')" 
  proof
    fix x assume "x \<in> keys (AList.update r e fl)"
    then consider "x = r" | "x \<in> keys fl" "x \<noteq> r" unfolding keys_update by blast
    then show "x \<in> set_mset (accounted_for line')"
    proof cases
      case 2
      then have "x \<in> set_mset (accounted_for line) - {r}" using flight_ok_keys [OF assms(1)] by (metis DiffI singletonD subsetD)
      then show ?thesis using assms(5) by (rule subsetD [rotated])
    qed (use assms(4) in simp)
  qed
  fix x assume "x \<in> set (AList.update r e fl)"
  then have "x \<in> insert (r, e) (set fl)" by (rule subsetD [OF set_update_subset])
  then show "bounded (fl_retries (snd x))" using flight_ok_bounds [OF assms(1)] assms(2) by (cases x) auto
qed (rule assms(3))

lemma flight_ok_delete:
  assumes "flight_ok n fl line" "line_ok n line'" "set_mset (accounted_for line) - {r} \<subseteq> set_mset (accounted_for line')"
  shows "flight_ok n (AList.delete r fl) line'"
  unfolding flight_ok_alt
proof (intro conjI ballI)
  show "distinct (map fst (AList.delete r fl))" using assms(1) by (simp add: flight_ok_def distinct_delete)
  show "keys (AList.delete r fl) \<subseteq> set_mset (accounted_for line')"
    unfolding keys_delete using Diff_mono [OF flight_ok_keys [OF assms(1)] order_refl] assms(3) by (rule order_trans)
  fix x assume "x \<in> set (AList.delete r fl)"
  then have "x \<in> set fl" unfolding set_delete by blast
  then show "bounded (fl_retries (snd x))" by (rule flight_ok_bounds [OF assms(1)])
qed (rule assms(2))

lemma flight_ok_bounded: "flight_ok n fl line \<Longrightarrow> map_of fl r = Some e \<Longrightarrow> bounded (fl_retries e)"
  by (force simp: flight_ok_alt dest: map_of_SomeD)

lemma jobs_okD:
  assumes "jobs_ok M D F fl"
  shows "x \<in> D \<Longrightarrow> x \<notin> M \<Longrightarrow> x \<in> F" "x \<in> D \<Longrightarrow> x \<notin> M \<Longrightarrow> \<exists>r. main_waits fl x r"
    "main_waits fl x r \<Longrightarrow> x \<in> D" "main_waits fl x r \<Longrightarrow> main_waits fl x r' \<Longrightarrow> r = r'"
proof -
  note J = assms [unfolded jobs_ok_def]
  show "x \<in> D \<Longrightarrow> x \<notin> M \<Longrightarrow> x \<in> F" "x \<in> D \<Longrightarrow> x \<notin> M \<Longrightarrow> \<exists>r. main_waits fl x r"
    using J [THEN conjunct1, THEN bspec, of x] by simp_all
  show "main_waits fl x r \<Longrightarrow> x \<in> D" by (rule J [THEN conjunct2, THEN conjunct1, rule_format])
  show "main_waits fl x r \<Longrightarrow> main_waits fl x r' \<Longrightarrow> r = r'" using J [THEN conjunct2, THEN conjunct2, rule_format] by this
qed

lemma jobs_okI:
  assumes "\<And>x. x \<in> D \<Longrightarrow> x \<notin> M \<Longrightarrow> x \<in> F" "\<And>x. x \<in> D \<Longrightarrow> x \<notin> M \<Longrightarrow> \<exists>r. main_waits fl x r"
    "\<And>x r. main_waits fl x r \<Longrightarrow> x \<in> D" "\<And>x r r'. main_waits fl x r \<Longrightarrow> main_waits fl x r' \<Longrightarrow> r = r'"
  shows "jobs_ok M D F fl"
  unfolding jobs_ok_def by (intro conjI ballI allI impI; (elim DiffE)?; rule assms; assumption)

lemma jobs_ok_close:
  assumes "jobs_ok (insert mxc M) D F fl"
  shows "jobs_ok (insert mxc M) D (F - {mxc}) fl"
  by (rule jobs_okI) (use jobs_okD [OF assms] in simp_all)

lemma jobs_ok_put:
  assumes J: "jobs_ok (insert mxc M) D F fl" and r: "request_mxc r = mxc" and run: "mxc \<in> D" and opened: "mxc \<in> F"
    and no: "\<And>r'. \<not> main_waits fl mxc r'" and main: "Main \<in> set (fl_waiters e)"
  shows "jobs_ok M D F (AList.update r e fl)"
proof (rule jobs_okI)
  have other: "main_waits (AList.update r e fl) x r' \<longleftrightarrow> (if x = mxc then r' = r else main_waits fl x r')" for x r'
    using no r main by (auto simp: main_waits_update) (auto simp: main_waits_def)
  show "x \<in> F" if "x \<in> D" "x \<notin> M" for x using jobs_okD(1) [OF J, of x] opened that by (cases "x = mxc") auto
  show "\<exists>r'. main_waits (AList.update r e fl) x r'" if "x \<in> D" "x \<notin> M" for x
    using jobs_okD(2) [OF J, of x] that by (cases "x = mxc") (auto simp: other)
  show "x \<in> D" if "main_waits (AList.update r e fl) x r'" for x r'
    using that run jobs_okD(3) [OF J, of x] by (auto simp: other split: if_splits)
  show "r1 = r2" if "main_waits (AList.update r e fl) x r1" "main_waits (AList.update r e fl) x r2" for x r1 r2
    using that jobs_okD(4) [OF J, of x] by (auto simp: other split: if_splits)
qed

lemma jobs_ok_delete:
  assumes J: "jobs_ok M D F fl"
  shows "jobs_ok (insert (request_mxc r) M) D F (AList.delete r fl)"
proof (rule jobs_okI)
  show "x \<in> F" if "x \<in> D" "x \<notin> insert (request_mxc r) M" for x using jobs_okD(1) [OF J, of x] that by simp
  show "\<exists>r'. main_waits (AList.delete r fl) x r'" if x: "x \<in> D" "x \<notin> insert (request_mxc r) M" for x
  proof -
    obtain r' where r': "main_waits fl x r'" using jobs_okD(2) [OF J, of x] x by auto
    then have "r' \<noteq> r" using x by (auto simp: main_waits_def)
    then show ?thesis using r' by (auto simp: main_waits_delete)
  qed
  show "x \<in> D" if "main_waits (AList.delete r fl) x r'" for x r'
    using that jobs_okD(3) [OF J, of x] by (auto simp: main_waits_delete)
  show "r1 = r2" if "main_waits (AList.delete r fl) x r1" "main_waits (AList.delete r fl) x r2" for x r1 r2
    using that jobs_okD(4) [OF J, of x] by (auto simp: main_waits_delete)
qed

lemma jobs_ok_weaken: "jobs_ok M D F fl \<Longrightarrow> M \<subseteq> M' \<Longrightarrow> jobs_ok M' D F fl"
  unfolding jobs_ok_def by (elim conjE) (intro conjI, auto)

lemma audience_ok_mono:
  assumes "audience_ok A ws ls J" "J \<union> A \<subseteq> J' \<union> A'"
  shows "audience_ok A' ws ls J'"
  unfolding audience_ok_def
proof (intro conjI allI impI)
  show "keys ws \<subseteq> J' \<union> A'" by (rule order_trans [OF _ assms(2)]) (use assms(1) in \<open>simp add: audience_ok_def\<close>)
  fix mxc assume "ls mxc \<noteq> {}"
  then have "mxc \<in> J \<union> A" using assms(1) by (simp add: audience_ok_def)
  then show "mxc \<in> J' \<union> A'" by (rule subsetD [OF assms(2)])
qed

lemma keys_filter: "keys (filter (\<lambda>(x, _). x \<noteq> k) xs) = keys xs - {k}"
  by force

lemma audience_ok_weaken: "audience_ok A ws ls jobs \<Longrightarrow> A \<subseteq> A' \<Longrightarrow> audience_ok A' ws ls jobs"
  unfolding audience_ok_def by (auto dest: subsetD)

lemma handler_inv_weaken: "handler_inv du M A h \<Longrightarrow> M \<subseteq> M' \<Longrightarrow> A \<subseteq> A' \<Longrightarrow> handler_inv du M' A' h"
  unfolding handler_inv_def by (elim conjE) (intro conjI; (rule jobs_ok_weaken audience_ok_weaken)?; assumption)

abbreviation no_main :: "string \<Rightarrow> ('w, 'm) handler \<Rightarrow> bool" where
  "no_main mxc h \<equiv> \<forall>r. \<not> main_waits (dh_in_flight h) mxc r"

abbreviation runs :: "('w, 'm) handler \<Rightarrow> string \<Rightarrow> bool" where
  "runs h mxc \<equiv> mxc \<in> keys (dh_downloading h)"

abbreviation is_open :: "('w, 'm) handler \<Rightarrow> string \<Rightarrow> bool" where
  "is_open h mxc \<equiv> mxc \<in> keys (dh_open h)"

text \<open>What one change of the table of requests asks for.\<close>

lemma put_flight:
  assumes inv: "handler_inv du M0 A h" and rt: "bounded (fl_retries e)"
    and jobs: "jobs_ok M (keys (dh_downloading h)) (keys (dh_open h)) (AList.update r e (dh_in_flight h))"
    and line: "line_ok (du_numbers du) line" "r \<in> set_mset (accounted_for line)"
      "set_mset (accounted_for (dh_line h)) - {r} \<subseteq> set_mset (accounted_for line)"
    and old: "S + (case map_of (dh_in_flight h) r of None \<Rightarrow> {#} | Some e0 \<Rightarrow> seek_tokens (fl_waiters e0))
      = du_seeks du + seek_tokens (fl_waiters e)"
  shows "handler_inv (du\<lparr>du_seeks := S\<rparr>) M A (h\<lparr>dh_in_flight := AList.update r e (dh_in_flight h), dh_line := line\<rparr>)"
proof -
  have fl: "flight_ok (du_numbers du) (dh_in_flight h) (dh_line h)" and d: "distinct (map fst (dh_in_flight h))"
    using inv by (simp_all add: handler_inv_def flight_ok_def)
  have "flight_ok (du_numbers du) (AList.update r e (dh_in_flight h)) line"
    by (rule flight_ok_put [OF fl rt line])
  moreover have "flight_tokens (AList.update r e (dh_in_flight h)) + mset (map fst (dh_seek_answers h)) = S"
  proof (cases "map_of (dh_in_flight h) r")
    case None
    then have "flight_tokens (AList.update r e (dh_in_flight h)) = flight_tokens (dh_in_flight h) + seek_tokens (fl_waiters e)"
      by (intro flight_tokens_absent) (simp add: map_of_eq_None_iff)
    then show ?thesis using old None inv by (simp add: handler_inv_def seeks_held_def ac_simps)
  next
    case (Some e0)
    note up = flight_tokens_update [OF d Some, of e]
    have "flight_tokens (AList.update r e (dh_in_flight h)) + mset (map fst (dh_seek_answers h)) + seek_tokens (fl_waiters e0)
        = S + seek_tokens (fl_waiters e0)"
    proof -
      have 1: "du_seeks du = flight_tokens (dh_in_flight h) + mset (map fst (dh_seek_answers h))"
        using inv by (simp add: handler_inv_def seeks_held_def)
      have 2: "S + seek_tokens (fl_waiters e0) = du_seeks du + seek_tokens (fl_waiters e)" using old Some by simp
      show ?thesis unfolding 2 unfolding 1 using up by (simp only: ac_simps) (metis add.assoc add.commute)
    qed
    then show ?thesis by simp
  qed
  ultimately show ?thesis using inv jobs by (simp add: handler_inv_def has_job_def seeks_held_def waiters_held_def)
qed

lemma jobs_ok_main:
  assumes "handler_inv du (insert mxc M) A h" "request_mxc r = mxc" "runs h mxc" "is_open h mxc" "no_main mxc h"
    "Main \<in> set (fl_waiters e)"
  shows "jobs_ok M (keys (dh_downloading h)) (keys (dh_open h)) (AList.update r e (dh_in_flight h))"
  by (rule jobs_ok_put [OF _ assms(2-4) _ assms(6)]) (use assms(1) assms(5) in \<open>simp_all add: handler_inv_def\<close>)

lemma jobs_ok_same:
  assumes "handler_inv du M A h"
    "Main \<in> set (fl_waiters e) \<longleftrightarrow> (\<exists>e0. map_of (dh_in_flight h) r = Some e0 \<and> Main \<in> set (fl_waiters e0))"
  shows "jobs_ok M (keys (dh_downloading h)) (keys (dh_open h)) (AList.update r e (dh_in_flight h))"
proof -
  have "main_waits (AList.update r e (dh_in_flight h)) = main_waits (dh_in_flight h)"
    unfolding fun_eq_iff main_waits_update using assms(2) by (auto simp: main_waits_def)
  then show ?thesis using assms(1) unfolding handler_inv_def jobs_ok_def by simp
qed

lemma flight_fields:
  assumes "handler_inv du M A h"
  shows "flight_ok (du_numbers du) (dh_in_flight h) (dh_line h)" "line_ok (du_numbers du) (dh_line h)"
    "distinct (map fst (dh_in_flight h))"
  using assms by (simp_all add: handler_inv_def flight_ok_def)

lemma in_flight_accounted:
  assumes "handler_inv du M A h" "map_of (dh_in_flight h) r = Some e"
  shows "r \<in> set_mset (accounted_for (dh_line h))" "bounded (fl_retries e)"
  using flight_ok_keys [OF flight_fields(1) [OF assms(1)]] flight_ok_bounded [OF flight_fields(1) [OF assms(1)] assms(2)] assms(2)
  by (force dest: map_of_SomeD)+

lemma want_main_inv:
  assumes inv: "handler_inv du (insert mxc M) A h" and mxc: "request_mxc r = mxc" "runs h mxc" "is_open h mxc" "no_main mxc h"
  shows "handler_inv du M A (want r Main False h)"
proof (cases "map_of (dh_in_flight h) r")
  case None
  have "handler_inv (du\<lparr>du_seeks := du_seeks du\<rparr>) M A
      (h\<lparr>dh_in_flight := AList.update r \<lparr>fl_waiters = [Main], fl_retries = no_retries\<rparr> (dh_in_flight h), dh_line := push_back r (dh_line h)\<rparr>)"
    by (rule put_flight [OF inv _ jobs_ok_main [OF inv mxc]]) (use flight_fields [OF inv] None in \<open>auto simp: push_line\<close>)
  then show ?thesis by (simp add: want_def None)
next
  case (Some e)
  have "handler_inv (du\<lparr>du_seeks := du_seeks du\<rparr>) M A
      (h\<lparr>dh_in_flight := AList.update r (e\<lparr>fl_waiters := fl_waiters e @ [Main]\<rparr>) (dh_in_flight h), dh_line := dh_line h\<rparr>)"
    by (rule put_flight [OF inv _ jobs_ok_main [OF inv mxc]])
      (use flight_fields [OF inv] in_flight_accounted [OF inv Some] Some in auto)
  then show ?thesis by (simp add: want_def Some Let_def)
qed

lemma want_seek_inv:
  assumes inv: "handler_inv (du\<lparr>du_seeks := S\<rparr>) M A h"
  shows "handler_inv (du\<lparr>du_seeks := add_mset reply S\<rparr>) M A (want r (Seek index reply) True h)"
proof (cases "map_of (dh_in_flight h) r")
  case None
  have "handler_inv (du\<lparr>du_seeks := S\<rparr>\<lparr>du_seeks := add_mset reply S\<rparr>) M A
      (h\<lparr>dh_in_flight := AList.update r \<lparr>fl_waiters = [Seek index reply], fl_retries = no_retries\<rparr> (dh_in_flight h),
         dh_line := push_front r (dh_line h)\<rparr>)"
    by (rule put_flight [OF inv _ jobs_ok_same [OF inv]]) (use flight_fields [OF inv] None in \<open>auto simp: push_line\<close>)
  then show ?thesis by (simp add: want_def None)
next
  case (Some e)
  let ?fl = "AList.update r (e\<lparr>fl_waiters := fl_waiters e @ [Seek index reply]\<rparr>) (dh_in_flight h)"
  have put: "handler_inv (du\<lparr>du_seeks := S\<rparr>\<lparr>du_seeks := add_mset reply S\<rparr>) M A (h\<lparr>dh_in_flight := ?fl, dh_line := line\<rparr>)"
    if "line_ok (du_numbers du) line" "r \<in> set_mset (accounted_for line)"
      "set_mset (accounted_for (dh_line h)) - {r} \<subseteq> set_mset (accounted_for line)" for line
    by (rule put_flight [OF inv _ jobs_ok_same [OF inv]]) (use in_flight_accounted [OF inv Some] Some that in auto)
  obtain line was where w: "withdraw r (dh_line h) = (line, was)" by (cases "withdraw r (dh_line h)")
  note wl = withdraw_line [where r = r and line = "dh_line h", unfolded w fst_conv snd_conv]
  have "handler_inv (du\<lparr>du_seeks := S\<rparr>\<lparr>du_seeks := add_mset reply S\<rparr>) M A
      (h\<lparr>dh_in_flight := ?fl, dh_line := if was then push_front r line else line\<rparr>)"
  proof (rule put)
    show "line_ok (du_numbers du) (if was then push_front r line else line)"
      using wl(1) flight_fields(2) [OF inv] by (simp add: push_line)
    show "r \<in> set_mset (accounted_for (if was then push_front r line else line))"
      using wl(3) in_flight_accounted(1) [OF inv Some] by (auto simp: push_line)
    show "set_mset (accounted_for (dh_line h)) - {r} \<subseteq> set_mset (accounted_for (if was then push_front r line else line))"
      using wl(2) by (auto simp: push_line)
  qed
  then show ?thesis by (cases was) (simp_all add: want_def Some Let_def withdraw_request_def w)
qed

text \<open>A request is sent again with those who still wait for it.\<close>

lemma resend_inv:
  assumes inv: "handler_inv (du\<lparr>du_seeks := S\<rparr>) (if Main \<in> set ws then insert (request_mxc r) M else M) A h"
    and none: "map_of (dh_in_flight h) r = None" and rt: "bounded rt"
    and main: "Main \<in> set ws \<Longrightarrow> runs h (request_mxc r) \<and> is_open h (request_mxc r) \<and> no_main (request_mxc r) h"
  shows "handler_inv (du\<lparr>du_seeks := S + seek_tokens ws\<rparr>) M A (resend r ws rt h)"
proof -
  have jobs: "jobs_ok M (keys (dh_downloading h)) (keys (dh_open h)) (AList.update r \<lparr>fl_waiters = ws, fl_retries = rt\<rparr> (dh_in_flight h))"
  proof (cases "Main \<in> set ws")
    case True
    then show ?thesis using inv main by (intro jobs_ok_main [OF _ refl]) auto
  next
    case False
    then show ?thesis using inv none by (intro jobs_ok_same) auto
  qed
  have "handler_inv (du\<lparr>du_seeks := S\<rparr>\<lparr>du_seeks := S + seek_tokens ws\<rparr>) M A
      (h\<lparr>dh_in_flight := AList.update r \<lparr>fl_waiters = ws, fl_retries = rt\<rparr> (dh_in_flight h), dh_line := push_front r (dh_line h)\<rparr>)"
    by (rule put_flight [OF inv _ jobs]) (use flight_fields [OF inv] none rt in \<open>auto simp: push_line\<close>)
  then show ?thesis by (simp add: resend_def)
qed

text \<open>A request leaves the table; whoever waits for it is owed an answer.\<close>

lemma take_flight:
  assumes inv: "handler_inv du M A h" and e: "map_of (dh_in_flight h) r = Some e"
    and line: "line_ok (du_numbers du) line" "set_mset (accounted_for (dh_line h)) - {r} \<subseteq> set_mset (accounted_for line)"
  obtains S where "du_seeks du = S + seek_tokens (fl_waiters e)"
    "handler_inv (du\<lparr>du_seeks := S\<rparr>) (if Main \<in> set (fl_waiters e) then insert (request_mxc r) M else M) A
       (h\<lparr>dh_in_flight := AList.delete r (dh_in_flight h), dh_line := line\<rparr>)"
proof -
  note tok = flight_tokens_delete [OF flight_fields(3) [OF inv] e]
  let ?S = "flight_tokens (AList.delete r (dh_in_flight h)) + mset (map fst (dh_seek_answers h))"
  have S: "du_seeks du = ?S + seek_tokens (fl_waiters e)" using tok inv by (simp add: handler_inv_def seeks_held_def ac_simps)
  have jobs: "jobs_ok (if Main \<in> set (fl_waiters e) then insert (request_mxc r) M else M) (keys (dh_downloading h)) (keys (dh_open h))
      (AList.delete r (dh_in_flight h))"
  proof (cases "Main \<in> set (fl_waiters e)")
    case True
    then show ?thesis using inv by (simp add: jobs_ok_delete handler_inv_def)
  next
    case False
    then have "main_waits (AList.delete r (dh_in_flight h)) = main_waits (dh_in_flight h)"
      using e unfolding fun_eq_iff main_waits_delete by (auto simp: main_waits_def)
    then show ?thesis using inv False unfolding handler_inv_def jobs_ok_def by simp
  qed
  show thesis
    by (rule that [OF S]) (use inv jobs flight_ok_delete [OF flight_fields(1) [OF inv] line] in
      \<open>simp add: handler_inv_def has_job_def seeks_held_def waiters_held_def\<close>)
qed

lemma drop_and_answer_inv:
  assumes "handler_inv du M A h" "drop_request r h = (h1, ws)"
  shows "handler_inv du (insert (request_mxc r) M) A (fold (answer_waiting f) ws h1)"
    "dh_in_flight h1 = AList.delete r (dh_in_flight h)"
proof -
  obtain line was where w: "withdraw r (dh_line h) = (line, was)" by (cases "withdraw r (dh_line h)")
  note wl = withdraw_line [where r = r and line = "dh_line h", unfolded w fst_conv snd_conv]
  have h1: "h1 = h\<lparr>dh_in_flight := AList.delete r (dh_in_flight h), dh_line := line\<rparr>"
    and ws: "ws = (case map_of (dh_in_flight h) r of None \<Rightarrow> [] | Some e \<Rightarrow> fl_waiters e)"
    using assms(2) by (auto simp: drop_request_def withdraw_request_def w Let_def)
  show "dh_in_flight h1 = AList.delete r (dh_in_flight h)" by (simp add: h1)
  show "handler_inv du (insert (request_mxc r) M) A (fold (answer_waiting f) ws h1)"
  proof (cases "map_of (dh_in_flight h) r")
    case None
    then have same: "AList.delete r (dh_in_flight h) = dh_in_flight h"
      by (intro delete_absent) (simp add: map_of_eq_None_iff)
    have "r \<notin> keys (dh_in_flight h)" using None by (simp add: map_of_eq_None_iff)
    then have "keys (dh_in_flight h) \<subseteq> set_mset (accounted_for line)"
      using flight_ok_keys [OF flight_fields(1) [OF assms(1)]] wl(2) by auto
    then have "flight_ok (du_numbers du) (dh_in_flight h) line"
      using flight_fields(1) [OF assms(1)] wl(1) by (simp add: flight_ok_def)
    then have "handler_inv du M A (h\<lparr>dh_in_flight := dh_in_flight h, dh_line := line\<rparr>)"
      using assms(1) by (simp add: handler_inv_def has_job_def seeks_held_def waiters_held_def)
    then show ?thesis unfolding h1 ws same None by (auto intro: handler_inv_weaken)
  next
    case (Some e)
    obtain S where S: "du_seeks du = S + seek_tokens (fl_waiters e)"
      "handler_inv (du\<lparr>du_seeks := S\<rparr>) (if Main \<in> set (fl_waiters e) then insert (request_mxc r) M else M) A h1"
      using take_flight [OF assms(1) Some wl(1) wl(2)] flight_fields(2) [OF assms(1)] unfolding h1 by metis
    then have "handler_inv (du\<lparr>du_seeks := S\<rparr>) (insert (request_mxc r) M) A h1"
      by (auto intro: handler_inv_weaken split: if_splits)
    then have "handler_inv (du\<lparr>du_seeks := S + seek_tokens (fl_waiters e)\<rparr>) (insert (request_mxc r) M) A (fold (answer_waiting f) ws h1)"
      by (simp add: ws Some)
    then show ?thesis by (simp flip: S(1))
  qed
qed

text \<open>The fields that do not change when requests are dropped and answered.\<close>

definition same_jobs :: "('w, 'm) handler \<Rightarrow> ('w, 'm) handler \<Rightarrow> bool" where
  "same_jobs h h' \<longleftrightarrow>
     dh_downloading h' = dh_downloading h \<and> dh_preparing h' = dh_preparing h \<and> dh_inbox h' = dh_inbox h
     \<and> dh_waiters h' = dh_waiters h \<and> dh_listeners h' = dh_listeners h \<and> dh_me h' = dh_me h"

lemma same_jobs_refl [simp]: "same_jobs h h"
  by (simp add: same_jobs_def)

lemma same_jobs_trans: "same_jobs h1 h2 \<Longrightarrow> same_jobs h2 h3 \<Longrightarrow> same_jobs h1 h3"
  by (simp add: same_jobs_def)

lemma same_jobs_frame [simp]:
  "same_jobs h (h\<lparr>dh_open := x1\<rparr>)" "same_jobs h (h\<lparr>dh_world := x2\<rparr>)" "same_jobs h (h\<lparr>dh_in_flight := x3\<rparr>)"
  "same_jobs h (h\<lparr>dh_line := x4\<rparr>)" "same_jobs h (h\<lparr>dh_claims := x5\<rparr>)" "same_jobs h (answer_seek reply r h)"
  by (simp_all add: same_jobs_def answer_seek_def)

lemma same_jobs_answer [simp]: "same_jobs h (answer_waiting f w h)"
  by (cases w) simp_all

lemma same_jobs_answers [simp]: "same_jobs h (fold (answer_waiting f) ws h)"
  by (induction ws arbitrary: h) (simp, simp, metis same_jobs_trans same_jobs_answer)

lemma same_jobs_drop: "drop_request r h = (h1, ws) \<Longrightarrow> same_jobs h h1 \<and> dh_open h1 = dh_open h"
  by (auto simp: drop_request_def withdraw_request_def Let_def same_jobs_def split: prod.splits)

lemma requests_gone:
  assumes "dh_in_flight h' = filter (\<lambda>x. fst x \<notin> set (requests_of mxc h)) (dh_in_flight h)"
  shows "requests_of mxc h' = []" "no_main mxc h'"
proof -
  show r: "requests_of mxc h' = []" by (auto simp: requests_of_def assms filter_empty_conv)
  show "no_main mxc h'" using r by (force simp: main_waits_def requests_of_def filter_empty_conv dest: map_of_SomeD)
qed

lemma in_requests_of: "r \<in> set (requests_of mxc h) \<Longrightarrow> request_mxc r = mxc"
  by (simp add: requests_of_def)

text \<open>What the two loops over the requests of a file do in every turn.\<close>

lemma drop_turn:
  assumes "handler_inv du (insert mxc M) A h" "drop_request r h = (h1, ws)" "request_mxc r = mxc"
  shows "handler_inv du (insert mxc M) A (fold (answer_waiting f) ws h1)"
    "same_jobs h (fold (answer_waiting f) ws h1)" "dh_open (fold (answer_waiting f) ws h1) = dh_open h"
    "dh_in_flight (fold (answer_waiting f) ws h1) = filter (\<lambda>x. fst x \<noteq> r) (dh_in_flight h)"
proof -
  note D = drop_and_answer_inv [OF assms(1,2)] same_jobs_drop [OF assms(2)]
  show "handler_inv du (insert mxc M) A (fold (answer_waiting f) ws h1)" using D(1) assms(3) by simp
  show "same_jobs h (fold (answer_waiting f) ws h1)" using D(3) by (auto intro: same_jobs_trans)
  show "dh_open (fold (answer_waiting f) ws h1) = dh_open h" using D(3) by simp
  show "dh_in_flight (fold (answer_waiting f) ws h1) = filter (\<lambda>x. fst x \<noteq> r) (dh_in_flight h)"
    using D(2) by (simp add: AList.delete_eq case_prod_unfold eq_commute [of r])
qed

lemma fail_requests_inv:
  assumes "handler_inv du (insert mxc M) A h" "\<And>r. r \<in> set rs \<Longrightarrow> request_mxc r = mxc"
  shows "handler_inv du (insert mxc M) A (fail_requests rs e h) \<and> same_jobs h (fail_requests rs e h)
     \<and> dh_open (fail_requests rs e h) = dh_open h
     \<and> dh_in_flight (fail_requests rs e h) = filter (\<lambda>x. fst x \<notin> set rs) (dh_in_flight h)"
  using assms
proof (induction rs arbitrary: h)
  case (Cons r rs)
  obtain h1 ws where d: "drop_request r h = (h1, ws)" by (cases "drop_request r h")
  note T = drop_turn [OF Cons.prems(1) d, of "\<lambda>_. Inl e"]
  have r: "request_mxc r = mxc" using Cons.prems(2) by simp
  note IH = Cons.IH [OF T(1) [OF r]]
  show ?case using IH T [OF r] Cons.prems(2)
    by (auto simp: d intro: same_jobs_trans)
qed simp

lemma answer_from_pool_inv:
  assumes "handler_inv du (insert mxc M) A h" "\<And>r. r \<in> set rs \<Longrightarrow> request_mxc r = mxc"
  shows "handler_inv du (insert mxc M) A (answer_requests_from_pool ops e rs h)
     \<and> same_jobs h (answer_requests_from_pool ops e rs h) \<and> dh_open (answer_requests_from_pool ops e rs h) = dh_open h
     \<and> dh_in_flight (answer_requests_from_pool ops e rs h) = filter (\<lambda>x. fst x \<notin> set rs) (dh_in_flight h)"
  using assms
proof (induction rs arbitrary: h)
  case (Cons r rs)
  obtain h1 ws where d: "drop_request r h = (h1, ws)" by (cases "drop_request r h")
  let ?f = "\<lambda>index. case e of Some entry \<Rightarrow> read_complete_chunk ops (dh_world h) entry index | None \<Rightarrow> Inl downloader_gone"
  note T = drop_turn [OF Cons.prems(1) d, of ?f]
  have r: "request_mxc r = mxc" using Cons.prems(2) by simp
  note IH = Cons.IH [OF T(1) [OF r]]
  show ?case using IH T [OF r] Cons.prems(2)
    by (auto simp: d intro: same_jobs_trans)
qed simp

lemma answer_seeks_from_pool_inv:
  assumes "handler_inv du (insert mxc M) A h"
  shows "handler_inv du (insert mxc M) A (answer_seeks_from_pool ops mxc h)" "same_jobs h (answer_seeks_from_pool ops mxc h)"
    "dh_open (answer_seeks_from_pool ops mxc h) = dh_open h" "no_main mxc (answer_seeks_from_pool ops mxc h)"
    "requests_of mxc (answer_seeks_from_pool ops mxc h) = []"
proof -
  note P = answer_from_pool_inv [OF assms, of "requests_of mxc h" ops "op_complete ops mxc (dh_world h)", OF in_requests_of [where h = h and mxc = mxc]]
  show "handler_inv du (insert mxc M) A (answer_seeks_from_pool ops mxc h)" "same_jobs h (answer_seeks_from_pool ops mxc h)"
    "dh_open (answer_seeks_from_pool ops mxc h) = dh_open h"
    using P assms by (simp_all add: answer_seeks_from_pool_def)
  have "dh_in_flight (answer_seeks_from_pool ops mxc h) = filter (\<lambda>x. fst x \<notin> set (requests_of mxc h)) (dh_in_flight h)"
    using P by (simp add: answer_seeks_from_pool_def)
  then show "no_main mxc (answer_seeks_from_pool ops mxc h)" "requests_of mxc (answer_seeks_from_pool ops mxc h) = []"
    by (rule requests_gone)+
qed

section \<open>Ending a job\<close>

abbreviation no_audience :: "string \<Rightarrow> ('w, 'm) handler \<Rightarrow> bool" where
  "no_audience mxc h \<equiv> mxc \<notin> keys (dh_waiters h) \<and> dh_listeners h mxc = {}"

lemma not_running_inv:
  assumes "handler_inv du (insert mxc M) A h" "\<not> runs h mxc"
  shows "handler_inv du M A h"
proof -
  have "jobs_ok M (keys (dh_downloading h)) (keys (dh_open h)) (dh_in_flight h)"
    using assms unfolding handler_inv_def jobs_ok_def by (elim conjE) (intro conjI; auto)
  then show ?thesis using assms(1) by (simp add: handler_inv_def)
qed

lemma drop_job_inv:
  assumes inv: "handler_inv du (insert mxc M) A h" and no: "no_main mxc h"
  shows "handler_inv du M (insert mxc A) (h\<lparr>dh_downloading := AList.delete mxc (dh_downloading h)\<rparr>)"
proof -
  have J: "jobs_ok (insert mxc M) (keys (dh_downloading h)) (keys (dh_open h)) (dh_in_flight h)"
    and Au: "audience_ok A (dh_waiters h) (dh_listeners h) (has_job h)" using inv by (simp_all add: handler_inv_def)
  have "jobs_ok M (keys (dh_downloading h) - {mxc}) (keys (dh_open h)) (dh_in_flight h)"
  proof (rule jobs_okI)
    fix x r assume w: "main_waits (dh_in_flight h) x r"
    then have "x \<noteq> mxc" using no by metis
    then show "x \<in> keys (dh_downloading h) - {mxc}" using jobs_okD(3) [OF J w] by simp
  qed (use jobs_okD [OF J] in auto)
  moreover have "audience_ok (insert mxc A) (dh_waiters h) (dh_listeners h)
      (has_job (h\<lparr>dh_downloading := AList.delete mxc (dh_downloading h)\<rparr>))"
    using Au unfolding audience_ok_def has_job_def by (auto simp: keys_delete)
  ultimately show ?thesis using inv
    by (simp add: handler_inv_def seeks_held_def waiters_held_def keys_delete distinct_delete)
qed

lemma mset_split_filter: "mset (map f (filter P xs)) + mset (map f (filter (\<lambda>x. \<not> P x) xs)) = mset (map f xs)"
  by (induction xs) auto

lemma take_audience_inv:
  assumes inv: "handler_inv du M (insert mxc A) h" and t: "take_audience mxc h = (h1, ws, ls)"
  obtains W where "du_waiters du = W + mset (map snd ws)" "handler_inv (du\<lparr>du_waiters := W\<rparr>) M A h1" "no_audience mxc h1"
proof -
  have h1: "h1 = h\<lparr>dh_waiters := filter (\<lambda>(x, _). x \<noteq> mxc) (dh_waiters h), dh_listeners := (dh_listeners h)(mxc := {})\<rparr>"
    and ws: "ws = filter (\<lambda>(x, _). x = mxc) (dh_waiters h)" using t by (auto simp: take_audience_def)
  let ?W = "mset (map snd (dh_waiters h1)) + mset (map fst (dh_outcomes h)) + handed_waiters (dh_handed h)"
  show thesis
  proof (rule that)
    show "du_waiters du = ?W + mset (map snd ws)"
      using inv mset_split_filter [of snd "\<lambda>(x, _). x = mxc" "dh_waiters h"]
      by (simp add: handler_inv_def waiters_held_def h1 ws case_prod_unfold ac_simps)
    have "audience_ok A (dh_waiters h1) (dh_listeners h1) (has_job h1)"
      using inv by (auto simp: handler_inv_def audience_ok_def has_job_def h1 split: if_splits)
    then show "handler_inv (du\<lparr>du_waiters := ?W\<rparr>) M A h1"
      using inv by (simp add: handler_inv_def seeks_held_def waiters_held_def has_job_def h1)
    show "no_audience mxc h1" by (auto simp: h1)
  qed
qed

text \<open>Waiters that were taken out are owed an outcome.\<close>

lemma tell_taken_inv:
  assumes "du_waiters du = W + mset (map snd ws)" "handler_inv (du\<lparr>du_waiters := W\<rparr>) M A h"
  shows "handler_inv du M A (tell_waiters ws outcome h)"
proof -
  have "handler_inv (du\<lparr>du_waiters := W + mset (map snd ws)\<rparr>) M A (tell_waiters ws outcome h)"
    unfolding tell_waiters_inv by (rule assms(2))
  then show ?thesis unfolding assms(1) [symmetric] by simp
qed

lemma take_open_inv:
  assumes inv: "handler_inv du (insert mxc M) A h" and t: "take_open mxc h = (h1, md)"
  shows "handler_inv du (insert mxc M) A h1" "same_jobs h h1" "dh_in_flight h1 = dh_in_flight h" "\<not> is_open h1 mxc"
    "dh_line h1 = dh_line h"
proof -
  consider (closed) "h1 = h" "map_of (dh_open h) mxc = None" | (opened) name where
      "h1 = h\<lparr>dh_open := AList.delete mxc (dh_open h), dh_open_names := dh_open_names h - {name},
             dh_claims := release (dh_claims h) mxc (dh_me h)\<rparr>"
    using t by (auto simp: take_open_def split: option.splits)
  then have "handler_inv du (insert mxc M) A h1 \<and> same_jobs h h1 \<and> dh_in_flight h1 = dh_in_flight h \<and> \<not> is_open h1 mxc
     \<and> dh_line h1 = dh_line h"
  proof cases
    case closed
    then show ?thesis using inv by (simp add: map_of_eq_None_iff)
  next
    case opened
    have C: "claims_ok (du_others du) (du_me du) (keys (dh_open h) - {mxc}) (release (dh_claims h) mxc (dh_me h))"
      by (rule claims_ok_release) (use inv in \<open>simp_all add: handler_inv_def\<close>)
    have "jobs_ok (insert mxc M) (keys (dh_downloading h)) (keys (dh_open h) - {mxc}) (dh_in_flight h)"
      by (rule jobs_ok_close) (use inv in \<open>simp add: handler_inv_def\<close>)
    then have "handler_inv du (insert mxc M) A h1" using inv C unfolding opened
      by (simp add: handler_inv_def has_job_def seeks_held_def waiters_held_def keys_delete distinct_delete)
    moreover have "same_jobs h h1 \<and> dh_in_flight h1 = dh_in_flight h \<and> dh_line h1 = dh_line h"
      unfolding opened by (simp add: same_jobs_def)
    moreover have "\<not> is_open h1 mxc" unfolding opened by (simp add: keys_delete)
    ultimately show ?thesis by simp
  qed
  then show "handler_inv du (insert mxc M) A h1" "same_jobs h h1" "dh_in_flight h1 = dh_in_flight h" "\<not> is_open h1 mxc"
    "dh_line h1 = dh_line h" by simp_all
qed

lemma close_and_sync_inv:
  assumes "handler_inv du (insert mxc M) A h"
  shows "handler_inv du (insert mxc M) A (close_and_sync ops mxc h)" "same_jobs h (close_and_sync ops mxc h)"
    "dh_in_flight (close_and_sync ops mxc h) = dh_in_flight h" "\<not> is_open (close_and_sync ops mxc h) mxc"
proof -
  obtain h1 md where t: "take_open mxc h = (h1, md)" by (cases "take_open mxc h")
  note T = take_open_inv [OF assms t]
  show "handler_inv du (insert mxc M) A (close_and_sync ops mxc h)" "same_jobs h (close_and_sync ops mxc h)"
    "dh_in_flight (close_and_sync ops mxc h) = dh_in_flight h" "\<not> is_open (close_and_sync ops mxc h) mxc"
    using T by (cases md; simp add: close_and_sync_def t same_jobs_def)+
qed

text \<open>A job that ends leaves the table, and everybody who waits for it is told.\<close>

lemma end_job_inv:
  assumes inv: "handler_inv du (insert mxc M) A h" and no: "no_main mxc h"
  shows "handler_inv du M A (end_job ops mxc how h)" "no_audience mxc (end_job ops mxc how h)"
    "keys (dh_downloading (end_job ops mxc how h)) = keys (dh_downloading h) - {mxc}"
    "dh_preparing (end_job ops mxc how h) = dh_preparing h" "dh_inbox (end_job ops mxc how h) = dh_inbox h"
proof -
  let ?h0 = "h\<lparr>dh_downloading := AList.delete mxc (dh_downloading h)\<rparr>"
  obtain h1 ws ls where t: "take_audience mxc ?h0 = (h1, ws, ls)" by (cases "take_audience mxc ?h0")
  have h1: "dh_downloading h1 = AList.delete mxc (dh_downloading h)" "dh_preparing h1 = dh_preparing h" "dh_inbox h1 = dh_inbox h"
    using t by (auto simp: take_audience_def)
  let ?h2 = "h1\<lparr>dh_timers := (dh_timers h1)(mxc := None)\<rparr>"
  define h3 where "h3 = (if how = End_Cancelled \<and> \<not> requests_of mxc ?h2 \<noteq> [] then close_and_sync ops mxc ?h2 else ?h2)"
  obtain out ev where e: "end_job ops mxc how h = tell_waiters ws out (emit_to_each ls (ch_user (dh_me h)) ev h3)"
    by (cases how) (auto simp: end_job_def t h3_def Let_def intro: that)
  obtain W where W: "du_waiters du = W + mset (map snd ws)" "handler_inv (du\<lparr>du_waiters := W\<rparr>) M A h1" and na: "no_audience mxc h1"
    by (rule take_audience_inv [OF drop_job_inv [OF inv no] t])
  have run: "\<not> runs h1 mxc" by (simp add: h1 keys_delete)
  have i2: "handler_inv (du\<lparr>du_waiters := W\<rparr>) M A ?h2" using W(2) by simp
  have s3: "same_jobs ?h2 h3" using close_and_sync_inv(2) [OF handler_inv_weaken [OF i2 subset_insertI order_refl]] by (simp add: h3_def)
  have i3: "handler_inv (du\<lparr>du_waiters := W\<rparr>) M A h3"
    using not_running_inv [OF close_and_sync_inv(1) [OF handler_inv_weaken [OF i2 subset_insertI order_refl]]] i2 s3 run
    by (auto simp: h3_def same_jobs_def)
  show "handler_inv du M A (end_job ops mxc how h)"
    unfolding e by (rule tell_taken_inv [OF W(1)]) (use i3 in simp)
  show "no_audience mxc (end_job ops mxc how h)" "keys (dh_downloading (end_job ops mxc how h)) = keys (dh_downloading h) - {mxc}"
    "dh_preparing (end_job ops mxc how h) = dh_preparing h" "dh_inbox (end_job ops mxc how h) = dh_inbox h"
    using s3 na by (auto simp: e tell_waiters_def same_jobs_def h1 keys_delete)
qed

text \<open>A step that may end the job of \<open>mxc\<close>: nobody is left behind.\<close>

definition job_step :: "string \<Rightarrow> ('w, 'm) handler \<Rightarrow> ('w, 'm) handler \<Rightarrow> bool" where
  "job_step mxc h h' \<longleftrightarrow>
     dh_preparing h' = dh_preparing h \<and> dh_inbox h' = dh_inbox h
     \<and> keys (dh_downloading h') - {mxc} = keys (dh_downloading h) - {mxc}
     \<and> (runs h mxc \<longrightarrow> runs h' mxc \<or> no_audience mxc h')"

lemma job_step_refl [simp]: "job_step mxc h h"
  by (simp add: job_step_def)

lemma job_step_running:
  "same_jobs h h1 \<Longrightarrow> job_step mxc h1 h' \<Longrightarrow> job_step mxc h h'"
  by (simp add: job_step_def same_jobs_def)

lemma job_step_frame:
  "dh_preparing h1 = dh_preparing h \<Longrightarrow> dh_inbox h1 = dh_inbox h \<Longrightarrow> keys (dh_downloading h1) = keys (dh_downloading h)
     \<Longrightarrow> job_step mxc h1 h' \<Longrightarrow> job_step mxc h h'"
  by (simp add: job_step_def)

lemma end_job_step:
  assumes "handler_inv du (insert mxc M) A h" "no_main mxc h"
  shows "job_step mxc h (end_job ops mxc how h)"
  using end_job_inv [OF assms, of ops how] by (auto simp: job_step_def)

lemma fail_media_inv:
  assumes inv: "handler_inv du (insert mxc M) A h"
  shows "handler_inv du M A (fail_media ops mxc e discards h)" "job_step mxc h (fail_media ops mxc e discards h)"
    "\<not> runs (fail_media ops mxc e discards h) mxc"
proof -
  define h1 where "h1 = fail_requests (requests_of mxc h) e h"
  have F: "handler_inv du (insert mxc M) A h1" "same_jobs h h1" "no_main mxc h1"
    using fail_requests_inv [OF inv, of "requests_of mxc h" e, OF in_requests_of [where h = h and mxc = mxc]] requests_gone(2) [of h1 mxc h]
    by (simp_all add: h1_def)
  obtain h2 md where t: "take_open mxc h1 = (h2, md)" by (cases "take_open mxc h1")
  note T = take_open_inv [OF F(1) t]
  define h3 where "h3 = (case md of None \<Rightarrow> h2 | Some md \<Rightarrow>
      if discards then set_world (op_reset ops mxc (op_discard ops md (dh_world h2))) h2
      else set_world (op_sync ops md (dh_world h2)) h2)"
  have h3: "handler_inv du (insert mxc M) A h3" "same_jobs h h3" "no_main mxc h3"
    using T F(2,3) same_jobs_trans [OF F(2) T(2)] by (auto simp: h3_def same_jobs_def split: option.split)
  have eq: "fail_media ops mxc e discards h = (if find_downloading h3 mxc \<noteq> None then end_job ops mxc (End_Failed e) h3 else h3)"
    by (simp add: fail_media_def h1_def [symmetric] t h3_def split: option.split)
  have "handler_inv du M A (fail_media ops mxc e discards h) \<and> job_step mxc h (fail_media ops mxc e discards h)
     \<and> \<not> runs (fail_media ops mxc e discards h) mxc"
  proof (cases "find_downloading h3 mxc")
    case None
    then have "\<not> runs h3 mxc" by (simp add: map_of_eq_None_iff)
    then show ?thesis using not_running_inv [OF h3(1)] h3(2) None unfolding eq by (simp add: job_step_def same_jobs_def)
  next
    case (Some d)
    then show ?thesis using end_job_inv(1,3) [OF h3(1,3), of ops "End_Failed e"]
        job_step_running [OF h3(2) end_job_step [OF h3(1,3), of ops "End_Failed e"]] unfolding eq by simp
  qed
  then show "handler_inv du M A (fail_media ops mxc e discards h)" "job_step mxc h (fail_media ops mxc e discards h)"
    "\<not> runs (fail_media ops mxc e discards h) mxc" by simp_all
qed

lemma finish_job_inv:
  assumes inv: "handler_inv du (insert mxc M) A h" and opened: "is_open h mxc"
  shows "handler_inv du M A (finish_job ops mxc h)" "job_step mxc h (finish_job ops mxc h)"
    "\<not> runs (finish_job ops mxc h) mxc"
proof -
  obtain name md where md: "map_of (dh_open h) mxc = Some (name, md)"
    using opened by (cases "map_of (dh_open h) mxc") (auto simp: map_of_eq_None_iff)
  define h1 where "h1 = h\<lparr>dh_open := AList.delete mxc (dh_open h), dh_open_names := dh_open_names h - {name}\<rparr>"
  define h2 where "h2 = (if cb_sha256 (mf_block (op_manifest ops md)) \<noteq> None then
       (case find_downloading h1 mxc of
          Some d \<Rightarrow> push mxc Verifying (dg_done d) (dg_total d) None None h1
        | None \<Rightarrow> push mxc Verifying 0 0 None None h1)
     else h1)"
  obtain w how where wh: "(case op_finish ops md (dh_world h2) of
       (w1, Inr (fin, verified)) \<Rightarrow>
         (case op_record ops mxc fin verified w1 of
            (w2, Inr u) \<Rightarrow> (w2, End_Complete verified) | (w2, Inl e) \<Rightarrow> (w2, End_Failed e))
     | (w1, Inl e) \<Rightarrow> (op_reset ops mxc w1, End_Failed (core_of_sdk_error e))) = (w, how)" by (rule prod.exhaust)
  define h3 where "h3 = (set_world w h2)\<lparr>dh_claims := release (dh_claims h2) mxc (dh_me h2)\<rparr>"
  have eq: "finish_job ops mxc h = end_job ops mxc how (answer_seeks_from_pool ops mxc h3)"
    unfolding finish_job_def md option.case prod.case Let_def h1_def [symmetric] h2_def [symmetric] wh h3_def by (rule refl)
  have J: "jobs_ok (insert mxc M) (keys (dh_downloading h)) (keys (dh_open h) - {mxc}) (dh_in_flight h)"
    by (rule jobs_ok_close) (use inv in \<open>simp add: handler_inv_def\<close>)
  have C: "claims_ok (du_others du) (du_me du) (keys (dh_open h) - {mxc}) (release (dh_claims h) mxc (dh_me h))"
    by (rule claims_ok_release) (use inv in \<open>simp_all add: handler_inv_def\<close>)
  have "handler_inv du (insert mxc M) A (h1\<lparr>dh_claims := release (dh_claims h) mxc (dh_me h)\<rparr>)"
    using inv J C by (simp add: h1_def handler_inv_def has_job_def seeks_held_def waiters_held_def keys_delete distinct_delete)
  moreover have "h3 = (h1\<lparr>dh_claims := release (dh_claims h) mxc (dh_me h)\<rparr>)\<lparr>dh_world := w, dh_events := dh_events h2\<rparr>"
    by (simp add: h3_def h2_def h1_def push_def emit_to_each_def split: option.split)
  ultimately have i3: "handler_inv du (insert mxc M) A h3" by simp
  have s3: "same_jobs h h3" by (simp add: h3_def h2_def h1_def push_def emit_to_each_def same_jobs_def split: option.split)
  note P = answer_seeks_from_pool_inv [OF i3, of ops]
  note E = end_job_inv(1,3) [OF P(1,4), of ops how] end_job_step [OF P(1,4), of ops how]
  show "handler_inv du M A (finish_job ops mxc h)" unfolding eq by (rule E)
  show "job_step mxc h (finish_job ops mxc h)" unfolding eq by (rule job_step_running [OF same_jobs_trans [OF s3 P(2)] E(3)])
  show "\<not> runs (finish_job ops mxc h) mxc" unfolding eq using E(2) by simp
qed

section \<open>The main file\<close>

lemma key_iff: "mxc \<in> keys xs \<longleftrightarrow> map_of xs mxc \<noteq> None"
  by (simp add: map_of_eq_None_iff)

lemma want_same_jobs [simp]: "same_jobs h (want r who front h)" "dh_open (want r who front h) = dh_open h"
  by (auto simp: want_def Let_def withdraw_request_def same_jobs_def split: option.split prod.split bool.split)

lemma job_step_same: "same_jobs h h' \<Longrightarrow> job_step mxc h h'"
  by (auto simp: job_step_def same_jobs_def)

lemma start_job_inv:
  assumes inv: "handler_inv du M A h" and no: "no_main mxc h"
  shows "handler_inv du (insert mxc M) A (start_job mxc name a b h)" "no_main mxc (start_job mxc name a b h)"
    "runs (start_job mxc name a b h) mxc" "dh_preparing (start_job mxc name a b h) = dh_preparing h"
    "dh_inbox (start_job mxc name a b h) = dh_inbox h" "dh_open (start_job mxc name a b h) = dh_open h"
    "keys (dh_downloading (start_job mxc name a b h)) = insert mxc (keys (dh_downloading h))"
proof -
  have J: "jobs_ok (insert mxc M) (insert mxc (keys (dh_downloading h))) (keys (dh_open h)) (dh_in_flight h)"
  proof -
    have "jobs_ok M (keys (dh_downloading h)) (keys (dh_open h)) (dh_in_flight h)" using inv by (simp add: handler_inv_def)
    note D = jobs_okD [OF this]
    show ?thesis by (rule jobs_okI) (use D in auto)
  qed
  have Au: "audience_ok A (dh_waiters h) (dh_listeners h) (insert mxc (has_job h))"
    using inv unfolding handler_inv_def audience_ok_def by blast
  show "handler_inv du (insert mxc M) A (start_job mxc name a b h)"
    unfolding start_job_def push_inv
    using inv J Au by (simp add: handler_inv_def has_job_def seeks_held_def waiters_held_def keys_update distinct_update)
  show "no_main mxc (start_job mxc name a b h)" using no by (simp add: start_job_def)
  show "runs (start_job mxc name a b h) mxc" "dh_preparing (start_job mxc name a b h) = dh_preparing h"
    "dh_inbox (start_job mxc name a b h) = dh_inbox h" "dh_open (start_job mxc name a b h) = dh_open h"
    "keys (dh_downloading (start_job mxc name a b h)) = insert mxc (keys (dh_downloading h))"
    by (simp_all add: start_job_def keys_update)
qed

lemma continue_main_inv:
  assumes "continue_main ops mxc h = Some h'" "handler_inv du (insert mxc M) A h" "no_main mxc h"
  shows "handler_inv du M A h' \<and> job_step mxc h h'"
proof -
  have "\<forall>du M A. handler_inv du (insert mxc M) A h \<longrightarrow> no_main mxc h \<longrightarrow> handler_inv du M A h' \<and> job_step mxc h h'"
  proof (rule continue_main.raw_induct [of "\<lambda>ops mxc h h'. \<forall>du M A. handler_inv du (insert mxc M) A h \<longrightarrow> no_main mxc h
      \<longrightarrow> handler_inv du M A h' \<and> job_step mxc h h'", OF _ assms(1)], intro allI impI)
    fix cont :: "('a, 'b) media_ops \<Rightarrow> string \<Rightarrow> ('a, 'b) handler \<Rightarrow> ('a, 'b) handler option" and ops mxc h h' du M A
    assume IH: "\<And>ops mxc h h'. cont ops mxc h = Some h' \<Longrightarrow> \<forall>du M A. handler_inv du (insert mxc M) A h \<longrightarrow> no_main mxc h
        \<longrightarrow> handler_inv du M A h' \<and> job_step mxc h h'"
      and inv: "handler_inv du (insert mxc M) A h" and no: "no_main mxc h"
      and step: "(case find_downloading h mxc of
        None \<Rightarrow> Some h
      | Some d \<Rightarrow>
          if dg_cancelled d then Some (end_job ops mxc End_Cancelled h)
          else case map_of (dh_open h) mxc of
            None \<Rightarrow> Some (end_job ops mxc (End_Failed downloader_gone) h)
          | Some (name, md) \<Rightarrow>
              if op_written ops md then Some (finish_job ops mxc (set_done mxc (op_count ops md) h))
              else if op_needs_info ops md then Some (want (Info_Request mxc) Main False h)
              else case op_advance ops md of (r, md1) \<Rightarrow>
                (let h1 = set_open mxc name md1 h in
                 case r of
                   Inl e \<Rightarrow> Some (fail_media ops mxc (core_of_sdk_error e) True h1)
                 | Inr landed \<Rightarrow>
                     if landed then cont ops mxc (after_landing ops mxc h1)
                     else Some (want (Chunk_Request mxc (op_next ops md1)) Main False h1))) = Some h'"
    have ended: "handler_inv du M A (end_job ops mxc how h) \<and> job_step mxc h (end_job ops mxc how h)" for how
      using end_job_inv(1) [OF inv no] end_job_step [OF inv no] by blast
    show "handler_inv du M A h' \<and> job_step mxc h h'"
    proof (cases "find_downloading h mxc")
      case None
      then have "h' = h" "\<not> runs h mxc" using step by (simp_all add: key_iff)
      then show ?thesis using not_running_inv [OF inv] by simp
    next
      case (Some d)
      then have run: "runs h mxc" by (simp add: key_iff)
      show ?thesis
      proof (cases "dg_cancelled d \<or> map_of (dh_open h) mxc = None")
        case True
        then show ?thesis using step ended Some by (auto split: if_splits)
      next
        case False
        then obtain name md where md: "map_of (dh_open h) mxc = Some (name, md)" and nc: "\<not> dg_cancelled d" by auto
        then have opened: "is_open h mxc" by (simp add: key_iff)
        note step1 = step [unfolded Some md option.case prod.case if_not_P [OF nc]]
        show ?thesis
        proof (cases "op_written ops md")
          case True
          then have h': "h' = finish_job ops mxc (set_done mxc (op_count ops md) h)" using step1 by simp
          have i: "handler_inv du (insert mxc M) A (set_done mxc (op_count ops md) h)" using inv by simp
          have o: "is_open (set_done mxc (op_count ops md) h) mxc" using opened by simp
          show ?thesis unfolding h' by (intro conjI finish_job_inv(1) [OF i o]; rule job_step_frame [OF _ _ _ finish_job_inv(2) [OF i o]]; simp)
        next
          case unwritten: False
          show ?thesis
          proof (cases "op_needs_info ops md")
            case True
            then have h': "h' = want (Info_Request mxc) Main False h" using step1 unwritten by simp
            show ?thesis unfolding h' using want_main_inv [OF inv _ run opened no, of "Info_Request mxc"] by (simp add: job_step_same)
          next
            case known: False
            obtain r md1 where r: "op_advance ops md = (r, md1)" by (rule prod.exhaust)
            let ?h1 = "set_open mxc name md1 h"
            have i1: "handler_inv du (insert mxc M) A ?h1" by (subst set_open_inv) (use md inv in simp_all)
            have o1: "is_open ?h1 mxc" by (simp add: keys_update)
            show ?thesis
            proof (cases r)
              case (Inl e)
              then have h': "h' = fail_media ops mxc (core_of_sdk_error e) True ?h1" using step1 unwritten known r by simp
              show ?thesis unfolding h'
                by (intro conjI fail_media_inv(1) [OF i1]) (rule job_step_running [OF same_jobs_frame(1) fail_media_inv(2) [OF i1]])
            next
              case (Inr landed)
              show ?thesis
              proof (cases landed)
                case True
                then have c: "cont ops mxc (after_landing ops mxc ?h1) = Some h'" using step1 unwritten known r Inr by simp
                have "handler_inv du M A h' \<and> job_step mxc (after_landing ops mxc ?h1) h'"
                  using IH [OF c] i1 no by simp
                moreover have "job_step mxc (after_landing ops mxc ?h1) h' \<Longrightarrow> job_step mxc h h'"
                  by (rule job_step_frame [rotated 3], assumption) simp_all
                ultimately show ?thesis by blast
              next
                case False
                then have h': "h' = want (Chunk_Request mxc (op_next ops md1)) Main False ?h1" using step1 unwritten known r Inr by simp
                have "handler_inv du M A h'" unfolding h' by (rule want_main_inv [OF i1 _ _ o1]) (use run no in simp_all)
                moreover have "job_step mxc h h'" unfolding h'
                    by (rule job_step_running [OF same_jobs_frame(1) job_step_same]) (rule want_same_jobs)
                  ultimately show ?thesis ..
              qed
            qed
          qed
        qed
      qed
    qed
  qed
  then show ?thesis using assms(2,3) by blast
qed

end
