(* ===== verification/Queue_Ends.thy ===== *)
theory Queue_Ends
  imports Queue_Invariant
begin

text \<open>
  The loop of the main file ends.  What it relies on is the contract \<open>advancing\<close>: moving a chunk from the
  seek file to the main file leaves less to move.
\<close>

locale advancing =
  fixes advance :: "'m \<Rightarrow> (sdk_error + bool) \<times> 'm" and left :: "'m \<Rightarrow> nat"
  assumes advance_less: "advance m = (Inr True, m') \<Longrightarrow> left m' < left m"
begin

definition left_of :: "string \<Rightarrow> ('w, 'm) handler \<Rightarrow> nat" where
  "left_of mxc h = (case map_of (dh_open h) mxc of None \<Rightarrow> 0 | Some (name, md) \<Rightarrow> left md)"

lemma left_of_set_open [simp]: "left_of mxc (set_open mxc name md h) = left md"
  by (simp add: left_of_def update_conv')

lemma left_of_after_landing [simp]: "left_of mxc (after_landing ops mxc' h) = left_of mxc h"
  by (simp add: left_of_def)

lemma continue_main_ends:
  assumes "op_advance ops = advance"
  shows "continue_main ops mxc h \<noteq> None"
proof (induction "left_of mxc h" arbitrary: h rule: less_induct)
  case less
  show ?case
  proof (cases "find_downloading h mxc")
    case (Some d)
    show ?thesis
    proof (cases "map_of (dh_open h) mxc")
      case opened: (Some x)
      obtain name md where md: "map_of (dh_open h) mxc = Some (name, md)" using opened by (cases x) simp
      obtain r md1 where r: "op_advance ops md = (r, md1)" by (rule prod.exhaust)
      have again: "continue_main ops mxc (after_landing ops mxc (set_open mxc name md1 h)) \<noteq> None" if "r = Inr True"
      proof (rule less.hyps)
        have "left md1 < left md" using advance_less r that assms by simp
        moreover have "left_of mxc h = left md" by (simp add: left_of_def md)
        ultimately show "left_of mxc (after_landing ops mxc (set_open mxc name md1 h)) < left_of mxc h"
          unfolding left_of_after_landing left_of_set_open by simp
      qed
      show ?thesis
        by (subst continue_main.simps) (use again in \<open>auto simp: Some md r Let_def split: sum.split\<close>)
    qed (subst continue_main.simps, simp add: Some)
  qed (subst continue_main.simps, simp)
qed

lemma replies_end:
  assumes A: "op_advance ops = advance"
  shows "info_arrived ops mxc ack ws rt h \<noteq> None" "chunk_arrived ops mxc index ack ws rt h \<noteq> None"
    "handle_reply ops r result h \<noteq> None"
proof -
  note c = continue_main_ends [OF A, unfolded not_None_eq]
  show info: "info_arrived ops mxc ack ws rt h \<noteq> None" for mxc ack ws rt h
    by (auto simp: info_arrived_def Let_def c split: option.split sum.split)
  show chunk: "chunk_arrived ops mxc index ack ws rt h \<noteq> None" for mxc index ack ws rt h
    by (simp add: chunk_arrived_def Let_def c case_prod_unfold split: option.split sum.split)
  show "handle_reply ops r result h \<noteq> None"
    by (simp add: handle_reply_def Let_def info [unfolded not_None_eq] chunk [unfolded not_None_eq] case_prod_unfold
        split: option.split sum.split download_request.split)
qed

lemma prepare_download_ends:
  assumes A: "op_advance ops = advance"
  shows "prepare_download ops running cancels m h \<noteq> None"
proof -
  note c = continue_main_ends [OF A, unfolded not_None_eq]
  obtain h1 opened where o: "(if map_of (dh_open h) (mf_mxc m) = None then open_media ops m h else (h, Inr True)) = (h1, opened)"
    by (rule prod.exhaust)
  show ?thesis
    unfolding prepare_download_def Let_def o prod.case
    by (cases opened) (auto simp: c split: option.split bool.split)
qed

lemma handler_do_ends:
  assumes A: "op_advance ops = advance"
  shows "handler_do ops silence ev h \<noteq> None"
  using replies_end(3) [OF A] prepare_download_ends [OF A]
  by (cases ev) (simp_all add: next_reply_def process_inbox_job_def process_download_job_def del: not_None_eq split: list.split prod.split)

end

end
