(* ===== verification/Download_World.thy ===== *)
theory Download_World
  imports Queue_Ends Media_Download Media_Files
begin

text \<open>
  The download handler on the SDK's own operations: the database table, the pool directory and
  \<open>MediaDownload\<close>.  The draws of the CSPRNG and the outcomes of appending to a seek file come from
  streams; a loop inside an SDK operation that would not end is taken to fail (\<open>ended\<close>): on the files the
  SDK writes they all end (\<open>land_chunk_in_order\<close>, \<open>read_local_chunk_exact\<close>).
\<close>

record download_world =
  wd_table :: media_table
  wd_dir :: pool_dir
  wd_now :: i64
  wd_draws :: "nat \<Rightarrow> sdk_error + bytes"
  wd_drawn :: nat
  wd_outcomes :: "nat \<Rightarrow> write_outcome"
  wd_appended :: nat

definition ended :: "((sdk_error + 'a) \<times> 'm) option \<Rightarrow> 'm \<Rightarrow> (sdk_error + 'a) \<times> 'm" where
  "ended r m = (case r of None \<Rightarrow> (Inl Io, m) | Some x \<Rightarrow> x)"

text \<open>\<open>begin_row\<close>: the row of the file and the name of its pending file.\<close>

definition begin_row :: "manifest \<Rightarrow> download_world \<Rightarrow> download_world \<times> (core_error_kind + string)" where
  "begin_row m w =
     (case of_chunked_block (mf_block m) of
        None \<Rightarrow> (w, Inl Core_Usage)
      | Some d \<Rightarrow>
          (case media_begin (wd_table w) (wd_now w) (mf_mxc m) d of
             Inl e \<Rightarrow> (w, Inl (core_of_sdk_error e))
           | Inr (t, row) \<Rightarrow>
               (w\<lparr>wd_table := t\<rparr>, ok_or Core_Io (media_pending_name t (mf_mxc m)))))"

definition open_download ::
    "pool_lib \<Rightarrow> bytes \<Rightarrow> manifest \<Rightarrow> download_world \<Rightarrow> download_world \<times> (core_error_kind + string \<times> media_download)" where
  "open_download L key m w =
     (case begin_row m w of
        (w1, Inl e) \<Rightarrow> (w1, Inl e)
      | (w1, Inr name) \<Rightarrow>
          (w1\<lparr>wd_drawn := wd_drawn w1 + 2\<rparr>,
           map_err core_of_sdk_error
             (rbind (md_open L key (wd_dir w1) name (wd_draws w1 (wd_drawn w1)) (wd_draws w1 (wd_drawn w1 + 1)) m) (\<lambda>md.
              Inr (name, md)))))"

definition find_complete_entry :: "pool_lib \<Rightarrow> bytes \<Rightarrow> string \<Rightarrow> download_world \<Rightarrow> media_entry option" where
  "find_complete_entry L key mxc w =
     (case find_media (wd_table w) mxc of
        None \<Rightarrow> None
      | Some e \<Rightarrow> if open_complete L key (wd_dir w) e = None then None else Some e)"

text \<open>\<open>Read::read_exact\<close>: reads until the buffer is full; an end before that is an error.\<close>

function read_exact :: "pool_lib \<Rightarrow> pool_reader \<Rightarrow> nat \<Rightarrow> bytes \<Rightarrow> sdk_error + bytes" where
  "read_exact L r n out =
     (if n = 0 then Inr out
      else case reader_read L r n of
        Inl e \<Rightarrow> Inl e
      | Inr (r1, piece) \<Rightarrow> if piece = [] then Inl Io else read_exact L r1 (n - length piece) (out @ piece))"
  by pat_completeness auto
termination by (relation "measure (\<lambda>(L, r, n, out). n)") auto

declare read_exact.simps [simp del]

definition read_pool_range :: "pool_lib \<Rightarrow> bytes \<Rightarrow> media_entry \<Rightarrow> nat \<Rightarrow> nat \<Rightarrow> download_world \<Rightarrow> core_error_kind + bytes" where
  "read_pool_range L key e start end_pos w =
     rbind (ok_or Core_Io (open_complete L key (wd_dir w) e)) (\<lambda>(d, r).
     map_err core_of_sdk_error
       (rbind (reader_seek r (From_Start start)) (\<lambda>r1. read_exact L r1 (end_pos - start) [])))"

definition store_seek :: 
    "pool_lib \<Rightarrow> bytes \<Rightarrow> u32 \<Rightarrow> bytes \<Rightarrow> media_download \<Rightarrow> download_world
      \<Rightarrow> (sdk_error + unit) \<times> media_download \<times> download_world" where
  "store_seek L key index plain md w =
     (case store_seek_chunk L key (wd_dir w) (wd_draws w (wd_drawn w)) md index plain (wd_outcomes w (wd_appended w)) of
        (r, md1) \<Rightarrow> (r, md1, w\<lparr>wd_drawn := wd_drawn w + 1, wd_appended := wd_appended w + 1\<rparr>))"

definition record_finished ::
    "string \<Rightarrow> finished \<Rightarrow> verification \<Rightarrow> download_world \<Rightarrow> download_world \<times> (core_error_kind + unit)" where
  "record_finished mxc fin verified w =
     (case pool_bytes_on_disk (wd_dir w) (fin_hash_hex fin) of
        Inl e \<Rightarrow> (w, Inl (core_of_sdk_error e))
      | Inr n \<Rightarrow>
          (w\<lparr>wd_table := media_finish (wd_table w) (wd_now w) mxc (fin_hash_hex fin) (of_nat (fin_segments fin))
               (of_nat (fin_plain_len fin)) (of_nat n) verified\<rparr>, Inr ()))"

definition set_dir :: "download_world \<Rightarrow> pool_dir \<Rightarrow> download_world" where
  "set_dir w d = w\<lparr>wd_dir := d\<rparr>"

text \<open>The handler's operations; the JSON readers of the two replies are arguments.\<close>

definition disk_ops ::
    "pool_lib \<Rightarrow> bytes \<Rightarrow> download_lib \<Rightarrow> (bytes \<Rightarrow> info_ack option) \<Rightarrow> (bytes \<Rightarrow> read_ack option)
      \<Rightarrow> (download_world, media_download) media_ops" where
  "disk_ops L key D info_json read_json =
     \<lparr>op_lib = D,
      op_info_reply = (\<lambda>ack. rbind (ok_or Protocol (info_json (pk_meta ack))) (\<lambda>info. Inr (info, pk_data ack))),
      op_read_meta = (\<lambda>ack. ok_or Protocol (read_json (pk_meta ack))),
      op_open = open_download L key,
      op_complete = find_complete_entry L key,
      op_range = read_pool_range L key,
      op_manifest = md_manifest,
      op_written = is_written,
      op_needs_info = needs_info,
      op_next = next_chunk,
      op_count = md_chunk_count,
      op_advance = (\<lambda>md. ended (advance_from_seek_store L md) md),
      op_accept = (\<lambda>info description md. accept_info D md info description),
      op_open_chunk = (\<lambda>index sealed md. md_open_chunk D md index sealed),
      op_land = (\<lambda>index plain md. case land_chunk L md index plain of None \<Rightarrow> Inl Io | Some r \<Rightarrow> r),
      op_store_seek = store_seek L key,
      op_read_local = (\<lambda>index md. ended (read_local_chunk L md index) md),
      op_sync = (\<lambda>md w. set_dir w (md_flush (wd_dir w) md)),
      op_progress = (\<lambda>mxc md w. w\<lparr>wd_table := media_progress (wd_table w) mxc (of_nat (pw_segments_written (md_writer md)))
                        (cb_chunk_size (mf_block (md_manifest md)))\<rparr>),
      op_discard = (\<lambda>md w. set_dir w (md_discard (wd_dir w) md)),
      op_reset = (\<lambda>mxc w. w\<lparr>wd_table := media_reset (wd_table w) mxc\<rparr>),
      op_finish = (\<lambda>md w. case md_finish L key (wd_dir w) md of (d, r) \<Rightarrow> (set_dir w d, r)),
      op_record = record_finished\<rparr>"

section \<open>Moving a chunk leaves less to move\<close>

lemma seal_buffer_len: "seal_buffer L f w = Inr (f', w') \<Longrightarrow> pw_plain_len w' = pw_plain_len w"
  by (auto simp: seal_buffer_def rbind_eq_Inr split: if_splits)

lemma write_loop_len:
  assumes "write_loop L f w xs = Some (Inr (f', w'))"
  shows "pw_plain_len w' = pw_plain_len w + length xs"
proof -
  have "\<forall>f' w'. Inr (f', w') = r \<longrightarrow> pw_plain_len w' = pw_plain_len w + length xs"
    if "write_loop L f w xs = Some r" for r
  proof (rule write_loop.raw_induct [OF _ that, of "\<lambda>L f w xs r. \<forall>f' w'. Inr (f', w') = r \<longrightarrow> pw_plain_len w' = pw_plain_len w + length xs"], intro allI impI)
    fix rec L f w xs r f' w'
    assume IH: "\<And>L f w xs r. rec L f w xs = Some r \<Longrightarrow> \<forall>f' w'. Inr (f', w') = r \<longrightarrow> pw_plain_len w' = pw_plain_len w + length xs"
      and r: "Inr (f', w') = r"
      and step: "(if xs = [] then Some (Inr (f, w))
      else
        let room = writer_segment_size w - length (pw_buffer w);
            n = min room (length xs);
            piece = take n xs;
            w1 = writer_hash (w\<lparr>pw_buffer := pw_buffer w @ piece\<rparr>) piece
        in if length (pw_buffer w1) = writer_segment_size w
           then (case seal_buffer L f w1 of
                   Inl e \<Rightarrow> Some (Inl e)
                 | Inr (f', w') \<Rightarrow> rec L f' w' (drop n xs))
           else rec L f w1 (drop n xs)) = Some r"
    show "pw_plain_len w' = pw_plain_len w + length xs"
      using step r by (fastforce simp: Let_def writer_hash_def dest!: IH seal_buffer_len split: if_splits sum.splits prod.splits)
  qed
  then show ?thesis using assms by blast
qed

lemma land_chunk_less:
  assumes "land_chunk L md index plain = Some (Inr md')"
  shows "md_file_size md' = md_file_size md" "pw_plain_len (md_writer md) < unat (md_file_size md)"
    "pw_plain_len (md_writer md) < pw_plain_len (md_writer md')"
proof -
  obtain s e where range: "chunk_range md index = Inr (s, e)" using assms by (auto simp: land_chunk_def split: sum.splits)
  obtain rest f w where len: "length plain = e - s" "s \<le> pw_plain_len (md_writer md)" "pw_plain_len (md_writer md) < e"
    and rest: "get_from plain (pw_plain_len (md_writer md) - s) = Some rest"
    and wr: "writer_write L (md_file md) (md_writer md) rest = Some (Inr (f, w))" and md': "md' = md\<lparr>md_file := f, md_writer := w\<rparr>"
    using assms by (auto simp: land_chunk_def range Let_def rbind_eq_Inr split: if_splits option.splits)
  have n: "length rest = e - pw_plain_len (md_writer md)"
    using rest len by (auto simp: get_from_def split: if_splits)
  have "write_loop L (md_file md) (md_writer md) rest = Some (Inr (f, w))" using wr by (auto simp: writer_write_def split: if_splits)
  from write_loop_len [OF this] n len show "pw_plain_len (md_writer md) < pw_plain_len (md_writer md')" by (simp add: md')
  show "md_file_size md' = md_file_size md" by (simp add: md')
  have "e \<le> unat (md_file_size md) \<or> e = s"
    using range by (auto simp: chunk_range_def rbind_eq_Inr ok_or_def expected_plain_len_Some Let_def split: option.splits)
  then show "pw_plain_len (md_writer md) < unat (md_file_size md)" using len by linarith
qed

interpretation disk: advancing "\<lambda>md. ended (advance_from_seek_store L md) md"
  "\<lambda>md. unat (md_file_size md) - pw_plain_len (md_writer md)" for L
proof unfold_locales
  fix m m' assume "ended (advance_from_seek_store L m) m = (Inr True, m')"
  then obtain md plain where land: "land_chunk L md (next_chunk m) plain = Some (Inr m')"
    and same: "md_file_size md = md_file_size m" "md_writer md = md_writer m"
    by (auto simp: ended_def advance_from_seek_store_def Let_def split: option.splits prod.splits)
      (case_tac z; simp)
  show "unat (md_file_size m') - pw_plain_len (md_writer m') < unat (md_file_size m) - pw_plain_len (md_writer m)"
    using land_chunk_less [OF land] same by simp
qed

section \<open>The handler never hangs\<close>


end
