(* ===== verification/Queue_Steps.thy ===== *)
theory Queue_Steps
  imports Queue_Invariant
begin

text \<open>
  Every operation of the download handler keeps its invariant: preparing a job, handing it over, enqueueing
  and cancelling, seeks, replies with their errors and retries, cancellations, and closing idle files.
\<close>

section \<open>The inbox\<close>

lemma no_main_if_not_running:
  assumes "handler_inv du M A h" "\<not> runs h mxc"
  shows "no_main mxc h"
proof -
  have J: "jobs_ok M (keys (dh_downloading h)) (keys (dh_open h)) (dh_in_flight h)" using assms(1) by (simp add: handler_inv_def)
  show ?thesis using jobs_okD(3) [OF J] assms(2) by blast
qed

lemma open_media_inv:
  assumes inv: "handler_inv du M A h" and closed: "\<not> is_open h (mf_mxc m)" and o: "open_media ops m h = (h1, res)"
  shows "handler_inv du M A h1" "same_jobs h h1" "dh_in_flight h1 = dh_in_flight h" "res = Inr True \<Longrightarrow> is_open h1 (mf_mxc m)"
proof -
  obtain held mine where c: "claim (dh_claims h) (mf_mxc m) (dh_me h) = (held, mine)" by (rule prod.exhaust)
  obtain w r where w: "op_open ops m (dh_world h) = (w, r)" by (rule prod.exhaust)
  have C: "claims_ok (du_others du) (du_me du) (keys (dh_open h)) (dh_claims h)" and me: "ch_handler (dh_me h) = du_me du"
    using inv by (simp_all add: handler_inv_def)
  note C1 = claims_ok_claimed [OF C me, of "mf_mxc m", unfolded c fst_conv]
  note C2 = claims_ok_claim [OF C me, of "mf_mxc m", unfolded c fst_conv snd_conv]
  note C3 = claims_ok_release [OF C1 me, of "mf_mxc m"]
  have closed': "keys (dh_open h) - {mf_mxc m} = keys (dh_open h)" using closed by simp
  have J: "jobs_ok M (keys (dh_downloading h)) (insert (mf_mxc m) (keys (dh_open h))) (dh_in_flight h)"
  proof -
    have "jobs_ok M (keys (dh_downloading h)) (keys (dh_open h)) (dh_in_flight h)" using inv by (simp add: handler_inv_def)
    note D = jobs_okD [OF this]
    show ?thesis by (rule jobs_okI) (use D in auto)
  qed
  have "handler_inv du M A h1 \<and> same_jobs h h1 \<and> dh_in_flight h1 = dh_in_flight h \<and> (res = Inr True \<longrightarrow> is_open h1 (mf_mxc m))"
  proof (cases mine)
    case False
    then have h1: "h1 = h\<lparr>dh_claims := held\<rparr>" and res: "res = Inr False" using o by (simp_all add: open_media_def c)
    show ?thesis using inv C1 by (simp add: h1 res handler_inv_def has_job_def seeks_held_def waiters_held_def)
  next
    case True
    show ?thesis
    proof (cases r)
      case (Inl e)
      then have h1: "h1 = h\<lparr>dh_world := w, dh_claims := release held (mf_mxc m) (dh_me h)\<rparr>" and res: "res = Inl e"
        using o True by (simp_all add: open_media_def c w)
      show ?thesis using inv C3 closed' by (simp add: h1 res handler_inv_def has_job_def seeks_held_def waiters_held_def same_jobs_def)
    next
      case (Inr nm)
      then obtain name md where nm: "r = Inr (name, md)" by (cases nm) auto
      have h1: "h1 = h\<lparr>dh_claims := held, dh_world := w, dh_open := AList.update (mf_mxc m) (name, md) (dh_open h),
           dh_open_names := insert name (dh_open_names h), dh_seek_only := AList.delete (mf_mxc m) (dh_seek_only h)\<rparr>"
        and res: "res = Inr True"
        using o True nm by (simp_all add: open_media_def Let_def c w)
      show ?thesis using inv C2 [OF True] J
        by (simp add: h1 res handler_inv_def has_job_def seeks_held_def waiters_held_def same_jobs_def keys_update distinct_update)
    qed
  qed
  then show "handler_inv du M A h1" "same_jobs h h1" "dh_in_flight h1 = dh_in_flight h" "res = Inr True \<Longrightarrow> is_open h1 (mf_mxc m)"
    by simp_all
qed

lemma cancel_inv:
  assumes inv: "handler_inv du M A h"
  shows "handler_inv du M A (fst (cancel mxc h))" "dh_in_flight (fst (cancel mxc h)) = dh_in_flight h"
    "dh_open (fst (cancel mxc h)) = dh_open h" "keys (dh_downloading (fst (cancel mxc h))) = keys (dh_downloading h)"
    "keys (dh_preparing (fst (cancel mxc h))) = keys (dh_preparing h)"
    "no_audience x h \<Longrightarrow> no_audience x (fst (cancel mxc h))"
proof -
  consider (running) "find_downloading h mxc \<noteq> None" | (preparing) "find_downloading h mxc = None" "map_of (dh_preparing h) mxc \<noteq> None"
    | (idle) "find_downloading h mxc = None" "map_of (dh_preparing h) mxc = None" by blast
  then have "handler_inv du M A (fst (cancel mxc h)) \<and> dh_in_flight (fst (cancel mxc h)) = dh_in_flight h
     \<and> dh_open (fst (cancel mxc h)) = dh_open h \<and> keys (dh_downloading (fst (cancel mxc h))) = keys (dh_downloading h)
     \<and> keys (dh_preparing (fst (cancel mxc h))) = keys (dh_preparing h)
     \<and> (no_audience x h \<longrightarrow> no_audience x (fst (cancel mxc h)))"
  proof cases
    case running
    then have "fst (cancel mxc h) = set_cancelled mxc h" by (simp add: cancel_def)
    then show ?thesis using inv by simp
  next
    case preparing
    have "handler_inv du M A (h\<lparr>dh_preparing := AList.update mxc True (dh_preparing h)\<rparr>) = handler_inv du M A h"
      using preparing(2) by (simp add: handler_inv_def has_job_def seeks_held_def waiters_held_def)
    then show ?thesis using inv preparing by (auto simp: cancel_def)
  next
    case idle
    let ?h0 = "h\<lparr>dh_inbox := filter (\<lambda>(x, _). x \<noteq> mxc) (dh_inbox h)\<rparr>"
    obtain h1 ws ls where t: "take_audience mxc ?h0 = (h1, ws, ls)" by (cases "take_audience mxc ?h0")
    have "audience_ok (insert mxc A) (dh_waiters h) (dh_listeners h) (has_job ?h0)"
      by (rule audience_ok_mono [of A _ _ "has_job h"]) (use inv in \<open>auto simp: handler_inv_def has_job_def keys_filter\<close>)
    then have i0: "handler_inv du M (insert mxc A) ?h0"
      using inv by (simp add: handler_inv_def has_job_def seeks_held_def waiters_held_def)
    obtain W where W: "du_waiters du = W + mset (map snd ws)" "handler_inv (du\<lparr>du_waiters := W\<rparr>) M A h1"
      by (rule take_audience_inv [OF i0 t])
    have told: "handler_inv du M A (tell_waiters ws out h1)" for out by (rule tell_taken_inv [OF W])
    have h1: "h1 = ?h0\<lparr>dh_waiters := filter (\<lambda>(x, _). x \<noteq> mxc) (dh_waiters h), dh_listeners := (dh_listeners h)(mxc := {})\<rparr>"
      using t by (auto simp: take_audience_def)
    show ?thesis
    proof (cases "length (dh_inbox ?h0) = length (dh_inbox h)")
      case True
      then show ?thesis using idle inv by (simp add: cancel_def)
    next
      case False
      then have "fst (cancel mxc h) = emit_to_each ls (ch_user (dh_me h)) (media_event_of mxc Cancelled 0 0 None None)
          (tell_waiters ws (Inl cancelled_error) h1)"
        using idle t by (simp add: cancel_def Let_def)
      then show ?thesis using told by (auto simp: tell_waiters_def h1)
    qed
  qed
  then show "handler_inv du M A (fst (cancel mxc h))" "dh_in_flight (fst (cancel mxc h)) = dh_in_flight h"
    "dh_open (fst (cancel mxc h)) = dh_open h" "keys (dh_downloading (fst (cancel mxc h))) = keys (dh_downloading h)"
    "keys (dh_preparing (fst (cancel mxc h))) = keys (dh_preparing h)"
    "no_audience x h \<Longrightarrow> no_audience x (fst (cancel mxc h))" by blast+
qed

lemma enqueue_into_inv:
  assumes inv: "handler_inv (du\<lparr>du_waiters := W\<rparr>) M A h" and ws: "fst ` set ws \<subseteq> {mf_mxc m}"
  shows "handler_inv (du\<lparr>du_waiters := W + mset (map snd ws)\<rparr>) M A (fst (enqueue_into m ws ls h))"
    "dh_preparing (fst (enqueue_into m ws ls h)) = dh_preparing h"
    "dh_downloading (fst (enqueue_into m ws ls h)) = dh_downloading h"
    "mf_mxc m \<noteq> x \<Longrightarrow> no_audience x h \<Longrightarrow> no_audience x (fst (enqueue_into m ws ls h))"
proof -
  let ?mxc = "mf_mxc m"
  let ?h1 = "h\<lparr>dh_waiters := dh_waiters h @ ws, dh_listeners := (dh_listeners h)(?mxc := dh_listeners h ?mxc \<union> ls)\<rparr>"
  have "audience_ok (insert ?mxc A) (dh_waiters ?h1) (dh_listeners ?h1) (has_job h)"
    using inv ws by (auto simp: handler_inv_def audience_ok_def)
  then have i1: "handler_inv (du\<lparr>du_waiters := W + mset (map snd ws)\<rparr>) M (insert ?mxc A) ?h1"
    using inv by (simp add: handler_inv_def has_job_def seeks_held_def waiters_held_def) (simp only: ac_simps)
  have "handler_inv (du\<lparr>du_waiters := W + mset (map snd ws)\<rparr>) M A (fst (enqueue_into m ws ls h))"
  proof (cases "status_in ?h1 ?mxc")
    case None
    have "audience_ok A (dh_waiters ?h1) (dh_listeners ?h1) (has_job (?h1\<lparr>dh_inbox := dh_inbox h @ [(?mxc, m)]\<rparr>))"
      by (rule audience_ok_mono [of "insert ?mxc A" _ _ "has_job ?h1"]) (use i1 in \<open>auto simp: handler_inv_def has_job_def\<close>)
    then have "handler_inv (du\<lparr>du_waiters := W + mset (map snd ws)\<rparr>) M A (?h1\<lparr>dh_inbox := dh_inbox h @ [(?mxc, m)]\<rparr>)"
      using i1 by (simp add: handler_inv_def has_job_def seeks_held_def waiters_held_def)
    then show ?thesis using None by (simp add: enqueue_into_def Let_def)
  next
    case (Some s)
    then have "?mxc \<in> has_job ?h1"
      by (auto simp: status_in_def has_job_def key_iff split: option.splits if_splits)
    then have sub: "has_job ?h1 \<union> insert ?mxc A \<subseteq> has_job ?h1 \<union> A" by blast
    have "audience_ok (insert ?mxc A) (dh_waiters ?h1) (dh_listeners ?h1) (has_job ?h1)"
      using i1 unfolding handler_inv_def by (elim conjE)
    then have "audience_ok A (dh_waiters ?h1) (dh_listeners ?h1) (has_job ?h1)" by (rule audience_ok_mono [OF _ sub])
    then have "handler_inv (du\<lparr>du_waiters := W + mset (map snd ws)\<rparr>) M A ?h1" using i1 by (simp add: handler_inv_def)
    then show ?thesis using Some by (simp add: enqueue_into_def Let_def)
  qed
  then show "handler_inv (du\<lparr>du_waiters := W + mset (map snd ws)\<rparr>) M A (fst (enqueue_into m ws ls h))" .
  show "dh_preparing (fst (enqueue_into m ws ls h)) = dh_preparing h"
    "dh_downloading (fst (enqueue_into m ws ls h)) = dh_downloading h"
    by (simp_all add: enqueue_into_def Let_def split: option.split)
  assume x: "?mxc \<noteq> x" "no_audience x h"
  have "x \<notin> keys ws"
  proof
    assume "x \<in> keys ws"
    then have "x \<in> {?mxc}" by (rule subsetD [OF ws])
    then show False using x(1) by simp
  qed
  then show "no_audience x (fst (enqueue_into m ws ls h))"
    using x by (simp add: enqueue_into_def Let_def image_Un split: option.split)
qed

lemma hand_over_inv:
  assumes inv: "handler_inv du M A h" and idle: "\<not> runs h (mf_mxc m)"
  shows "handler_inv du M A (hand_over ops running m h)" "no_audience (mf_mxc m) (hand_over ops running m h)"
    "dh_preparing (hand_over ops running m h) = dh_preparing h"
    "keys (dh_downloading (hand_over ops running m h)) = keys (dh_downloading h)"
proof -
  note no = no_main_if_not_running [OF inv idle]
  have same: "keys (dh_downloading h) - {mf_mxc m} = keys (dh_downloading h)" using idle by simp
  note E = end_job_inv [OF handler_inv_weaken [OF inv subset_insertI order_refl] no, of ops "End_Failed Core_AccountBusy"]
  obtain h1 ws ls where t: "take_audience (mf_mxc m) h = (h1, ws, ls)" by (cases "take_audience (mf_mxc m) h")
  obtain W where W: "du_waiters du = W + mset (map snd ws)" "handler_inv (du\<lparr>du_waiters := W\<rparr>) M A h1" "no_audience (mf_mxc m) h1"
    by (rule take_audience_inv [OF handler_inv_weaken [OF inv order_refl subset_insertI] t])
  have "handler_inv du M A (h1\<lparr>dh_handed := dh_handed h1 @ [(other, m, ws, ls)]\<rparr>)" for other
    using W(1,2) by (simp add: handler_inv_def has_job_def seeks_held_def waiters_held_def handed_waiters_def ac_simps)
  then show "handler_inv du M A (hand_over ops running m h)" "no_audience (mf_mxc m) (hand_over ops running m h)"
    "dh_preparing (hand_over ops running m h) = dh_preparing h"
    "keys (dh_downloading (hand_over ops running m h)) = keys (dh_downloading h)"
    using E W(3) t same by (auto simp: hand_over_def Let_def take_audience_def split: option.split)
qed

text \<open>Preparing a job: it runs, or nobody is left waiting for it.\<close>

lemma prepare_download_inv:
  assumes run: "prepare_download ops running cancels m h = Some h'" and inv: "handler_inv du M A h" and notM: "mf_mxc m \<notin> M"
    and prep: "mf_mxc m \<in> keys (dh_preparing h)"
  shows "handler_inv du M A h' \<and> mf_mxc m \<in> keys (dh_preparing h') \<and> (runs h' (mf_mxc m) \<or> no_audience (mf_mxc m) h')"
proof (cases "find_downloading h (mf_mxc m)")
  case (Some d)
  then show ?thesis using run inv prep by (auto simp: prepare_download_def key_iff)
next
  case None
  let ?mxc = "mf_mxc m"
  have idle: "\<not> runs h ?mxc" using None by (simp add: key_iff)
  have ended: "handler_inv du M A (end_job ops ?mxc how k) \<and> ?mxc \<in> keys (dh_preparing (end_job ops ?mxc how k))
      \<and> (runs (end_job ops ?mxc how k) ?mxc \<or> no_audience ?mxc (end_job ops ?mxc how k))"
    if "handler_inv du M A k" "\<not> runs k ?mxc" "?mxc \<in> keys (dh_preparing k)" for how k
    using end_job_inv [OF handler_inv_weaken [OF that(1) subset_insertI order_refl] no_main_if_not_running [OF that(1,2)], of ops how] that(3)
    by simp
  show ?thesis
  proof (cases "map_of (dh_open h) ?mxc = None \<and> op_complete ops ?mxc (dh_world h) \<noteq> None")
    case True
    then show ?thesis using run None ended [OF inv idle prep] by (auto simp: prepare_download_def Let_def)
  next
    case False
    obtain h1 opened where o: "(if map_of (dh_open h) ?mxc = None then open_media ops m h else (h, Inr True)) = (h1, opened)"
      by (rule prod.exhaust)
    have i1: "handler_inv du M A h1 \<and> same_jobs h h1 \<and> (opened = Inr True \<longrightarrow> is_open h1 ?mxc)"
    proof (cases "map_of (dh_open h) ?mxc = None")
      case True
      then have eq: "open_media ops m h = (h1, opened)" using o by simp
      have "\<not> is_open h ?mxc" using True by (simp add: key_iff)
      note O = open_media_inv [OF inv this eq]
      show ?thesis using O by blast
    next
      case False
      then show ?thesis using o inv by (auto simp: key_iff)
    qed
    define h2 where "h2 = (if cancels 0 then fst (cancel ?mxc h1) else h1)"
    note C = cancel_inv [of du M A h1 ?mxc]
    have i2: "handler_inv du M A h2" "\<not> runs h2 ?mxc" "?mxc \<in> keys (dh_preparing h2)" "opened = Inr True \<Longrightarrow> is_open h2 ?mxc"
      using i1 C idle prep by (auto simp: h2_def same_jobs_def)
    have notrun: "\<not> find_downloading h ?mxc \<noteq> None" using None by simp
    have step: "(case opened of
             Inl e \<Rightarrow> Some (end_job ops ?mxc (End_Failed e) h2)
           | Inr False \<Rightarrow>
               if is_cancelled_while_preparing h2 ?mxc then Some (end_job ops ?mxc End_Cancelled h2)
               else Some (hand_over ops running m h2)
           | Inr True \<Rightarrow>
               (case map_of (dh_open h2) ?mxc of
                  None \<Rightarrow> Some h2
                | Some (name, md) \<Rightarrow>
                    if is_cancelled_while_preparing h2 ?mxc then Some (end_job ops ?mxc End_Cancelled h2)
                    else continue_main ops ?mxc
                      (start_job ?mxc (cb_name (mf_block m)) (op_next ops md) (op_count ops md)
                         (if cancels 1 then fst (cancel ?mxc h2) else h2)))) = Some h'"
      using run unfolding prepare_download_def Let_def if_not_P [OF notrun] if_not_P [OF False] o prod.case h2_def [symmetric] .
    note ended2 = ended [OF i2(1-3)]
    show ?thesis
    proof (cases opened)
      case (Inl e)
      then have h': "h' = end_job ops ?mxc (End_Failed e) h2" using step by simp
      show ?thesis unfolding h' by (rule ended2)
    next
      case (Inr was)
      show ?thesis
      proof (cases was)
        case False
        then consider "h' = end_job ops ?mxc End_Cancelled h2" | "h' = hand_over ops running m h2"
          using step Inr by (auto split: if_splits)
        then show ?thesis
        proof cases
          case 1
          show ?thesis unfolding 1 by (rule ended2)
        next
          case 2
          show ?thesis unfolding 2 using hand_over_inv [OF i2(1,2), of ops running] i2(3) by simp
        qed
      next
        case True
        then obtain name md where md: "map_of (dh_open h2) ?mxc = Some (name, md)"
          using i2(4) Inr by (auto simp: key_iff)
        show ?thesis
        proof (cases "is_cancelled_while_preparing h2 ?mxc")
          case cancelled: True
          then have h': "h' = end_job ops ?mxc End_Cancelled h2" using step Inr True md by simp
          show ?thesis unfolding h' by (rule ended2)
        next
          case going: False
          define h3 where "h3 = (if cancels 1 then fst (cancel ?mxc h2) else h2)"
          have i3: "handler_inv du M A h3" "\<not> runs h3 ?mxc" "?mxc \<in> keys (dh_preparing h3)"
            using i2 cancel_inv [OF i2(1), of ?mxc] by (auto simp: h3_def)
          define h4 where "h4 = start_job ?mxc (cb_name (mf_block m)) (op_next ops md) (op_count ops md) h3"
          note S = start_job_inv [OF i3(1) no_main_if_not_running [OF i3(1,2)],
              of "cb_name (mf_block m)" "op_next ops md" "op_count ops md", folded h4_def]
          have c: "continue_main ops ?mxc h4 = Some h'"
            using step Inr True md going by (simp add: h3_def h4_def)
          show ?thesis using continue_main_inv [OF c S(1,2)] S(3,4) i3(3) by (auto simp: job_step_def)
        qed
      qed
    qed
  qed
qed

lemma drop_preparing_inv:
  assumes inv: "handler_inv du M A h" and who: "runs h mxc \<or> no_audience mxc h"
  shows "handler_inv du M A (h\<lparr>dh_preparing := AList.delete mxc (dh_preparing h)\<rparr>)"
proof -
  let ?J = "keys (dh_downloading h) \<union> (keys (dh_preparing h) - {mxc}) \<union> keys (dh_inbox h)"
  have Au: "audience_ok A (dh_waiters h) (dh_listeners h) (has_job h)" using inv by (simp add: handler_inv_def)
  have "audience_ok A (dh_waiters h) (dh_listeners h) ?J"
    using who
  proof
    assume "runs h mxc"
    then show ?thesis by (intro audience_ok_mono [OF Au]) (auto simp: has_job_def)
  next
    assume none: "no_audience mxc h"
    have "audience_ok (insert mxc A) (dh_waiters h) (dh_listeners h) ?J"
      by (rule audience_ok_mono [OF Au]) (auto simp: has_job_def)
    then show ?thesis using none unfolding audience_ok_def by (metis (no_types, lifting) Un_insert_right insert_iff subset_insert)
  qed
  then show ?thesis using inv
    by (simp add: handler_inv_def has_job_def seeks_held_def waiters_held_def keys_delete)
qed

definition late_waiters :: "(manifest \<times> nat option) list \<Rightarrow> nat multiset" where
  "late_waiters late = mset (concat (map (\<lambda>(m, w). case w of None \<Rightarrow> [] | Some w \<Rightarrow> [w]) late))"

lemma enqueue_here_inv:
  assumes inv: "handler_inv (du\<lparr>du_waiters := W\<rparr>) M A h"
  shows "handler_inv (du\<lparr>du_waiters := W + late_waiters [(m, w)]\<rparr>) M A (fst (enqueue_here m w h))"
    "dh_preparing (fst (enqueue_here m w h)) = dh_preparing h" "dh_downloading (fst (enqueue_here m w h)) = dh_downloading h"
    "mf_mxc m \<noteq> x \<Longrightarrow> no_audience x h \<Longrightarrow> no_audience x (fst (enqueue_here m w h))"
proof -
  let ?ws = "case w of None \<Rightarrow> [] | Some w \<Rightarrow> [(mf_mxc m, w)]"
  have ws: "fst ` set ?ws \<subseteq> {mf_mxc m}" "mset (map snd ?ws) = late_waiters [(m, w)]"
    by (auto simp: late_waiters_def split: option.split)
  note E = enqueue_into_inv [OF inv ws(1), where ls = "{ch_user (dh_me h)}", unfolded ws(2), folded enqueue_here_def]
  show "handler_inv (du\<lparr>du_waiters := W + late_waiters [(m, w)]\<rparr>) M A (fst (enqueue_here m w h))" by (rule E)
  show "dh_preparing (fst (enqueue_here m w h)) = dh_preparing h" "dh_downloading (fst (enqueue_here m w h)) = dh_downloading h"
    by (rule E)+
  show "mf_mxc m \<noteq> x \<Longrightarrow> no_audience x h \<Longrightarrow> no_audience x (fst (enqueue_here m w h))" by (rule E)
qed

lemma late_inv:
  assumes "handler_inv (du\<lparr>du_waiters := W\<rparr>) M A h" "\<And>m w. (m, w) \<in> set late \<Longrightarrow> mf_mxc m \<noteq> mxc"
  shows "handler_inv (du\<lparr>du_waiters := W + late_waiters late\<rparr>) M A (fold (\<lambda>(m, w) h. fst (enqueue_here m w h)) late h)
     \<and> dh_downloading (fold (\<lambda>(m, w) h. fst (enqueue_here m w h)) late h) = dh_downloading h
     \<and> (no_audience mxc h \<longrightarrow> no_audience mxc (fold (\<lambda>(m, w) h. fst (enqueue_here m w h)) late h))"
  using assms
proof (induction late arbitrary: W h)
  case Nil
  then show ?case by (simp add: late_waiters_def)
next
  case (Cons x late)
  obtain m w where x: "x = (m, w)" by (cases x)
  have sum: "late_waiters (x # late) = late_waiters [(m, w)] + late_waiters late" by (simp add: late_waiters_def x)
  have m: "mf_mxc m \<noteq> mxc" using Cons.prems(2) [of m w] by (simp add: x)
  have l: "mf_mxc m' \<noteq> mxc" if "(m', w') \<in> set late" for m' w' by (rule Cons.prems(2) [of m' w']) (use that in simp)
  note E = enqueue_here_inv [OF Cons.prems(1), where m = m and w = w]
  have IH: "handler_inv (du\<lparr>du_waiters := W + late_waiters [(m, w)] + late_waiters late\<rparr>) M A
        (fold (\<lambda>(m, w) h. fst (enqueue_here m w h)) late (fst (enqueue_here m w h)))
     \<and> dh_downloading (fold (\<lambda>(m, w) h. fst (enqueue_here m w h)) late (fst (enqueue_here m w h))) = dh_downloading h
     \<and> (no_audience mxc (fst (enqueue_here m w h)) \<longrightarrow>
         no_audience mxc (fold (\<lambda>(m, w) h. fst (enqueue_here m w h)) late (fst (enqueue_here m w h))))"
    using Cons.IH [OF E(1) l] E(3) by simp
  then show ?case using E(4) [OF m] unfolding sum by (simp add: x add.assoc)
qed

lemma process_download_job_inv:
  assumes run: "process_download_job ops running cancels late m h = Some h'"
    and inv: "handler_inv (du\<lparr>du_waiters := W\<rparr>) {} {} h" and prep: "mf_mxc m \<in> keys (dh_preparing h)"
    and late: "\<And>m' w. (m', w) \<in> set late \<Longrightarrow> mf_mxc m' \<noteq> mf_mxc m"
  shows "handler_inv (du\<lparr>du_waiters := W + late_waiters late\<rparr>) {} {} h'"
proof -
  let ?mxc = "mf_mxc m"
  obtain h1 where p: "prepare_download ops running cancels m h = Some h1"
    using run by (auto simp: process_download_job_def)
  define h2 where "h2 = (if cancels 2 then fst (cancel ?mxc h1) else h1)"
  define h3 where "h3 = fold (\<lambda>(m, w) h. fst (enqueue_here m w h)) late h2"
  have h': "h' = (if is_cancelled_while_preparing h3 ?mxc then set_cancelled ?mxc (h3\<lparr>dh_preparing := AList.delete ?mxc (dh_preparing h3)\<rparr>)
      else h3\<lparr>dh_preparing := AList.delete ?mxc (dh_preparing h3)\<rparr>)"
    using run unfolding process_download_job_def p option.map Let_def h2_def [symmetric] h3_def [symmetric] by simp
  have i1: "handler_inv (du\<lparr>du_waiters := W\<rparr>) {} {} h1 \<and> (runs h1 ?mxc \<or> no_audience ?mxc h1)"
    using prepare_download_inv [OF p inv _ prep] by blast
  then have i2: "handler_inv (du\<lparr>du_waiters := W\<rparr>) {} {} h2 \<and> (runs h2 ?mxc \<or> no_audience ?mxc h2)"
  proof (cases "cancels 2")
    case True
    then have h2: "h2 = fst (cancel ?mxc h1)" by (simp add: h2_def)
    have j: "handler_inv (du\<lparr>du_waiters := W\<rparr>) {} {} h1" using i1 ..
    show ?thesis unfolding h2 using i1 cancel_inv(1,4) [OF j, of ?mxc] cancel_inv(6) [OF j, of ?mxc ?mxc] by (elim conjE disjE) simp_all
  next
    case False
    then show ?thesis using i1 by (simp add: h2_def)
  qed
  have i3: "handler_inv (du\<lparr>du_waiters := W + late_waiters late\<rparr>) {} {} h3 \<and> (runs h3 ?mxc \<or> no_audience ?mxc h3)"
  proof -
    have j: "handler_inv (du\<lparr>du_waiters := W\<rparr>) {} {} h2" using i2 ..
    note L = late_inv [OF j, of late ?mxc, OF late, folded h3_def]
    show ?thesis using L i2 by (elim conjE disjE) simp_all
  qed
  then show ?thesis using drop_preparing_inv [of "du\<lparr>du_waiters := W + late_waiters late\<rparr>" "{}" "{}" h3 ?mxc]
    by (simp add: h')
qed

lemma process_inbox_job_inv:
  assumes run: "process_inbox_job ops running cancels late h = Some h'" and inv: "handler_inv (du\<lparr>du_waiters := W\<rparr>) {} {} h"
    and late: "\<And>mxc m rest m' w. dh_inbox h = (mxc, m) # rest \<Longrightarrow> (m', w) \<in> set late \<Longrightarrow> mf_mxc m' \<noteq> mxc"
    and some: "late = [] \<or> dh_inbox h \<noteq> []"
  shows "handler_inv (du\<lparr>du_waiters := W + late_waiters late\<rparr>) {} {} h'"
proof (cases "dh_inbox h")
  case Nil
  then show ?thesis using run inv some by (simp add: process_inbox_job_def late_waiters_def)
next
  case (Cons j rest)
  then obtain mxc m where j: "dh_inbox h = (mxc, m) # rest" by (cases j) simp
  let ?h1 = "mark_preparing mxc (h\<lparr>dh_inbox := rest\<rparr>)"
  have mxc: "mxc = mf_mxc m" using inv j by (simp add: handler_inv_def)
  have "audience_ok {} (dh_waiters h) (dh_listeners h) (has_job ?h1)"
    by (rule audience_ok_mono [of "{}" _ _ "has_job h"])
      (use inv in \<open>auto simp: handler_inv_def has_job_def j mark_preparing_def keys_update\<close>)
  then have i1: "handler_inv (du\<lparr>du_waiters := W\<rparr>) {} {} ?h1"
    using inv by (simp add: handler_inv_def has_job_def seeks_held_def waiters_held_def mark_preparing_def j)
  show ?thesis
  proof (rule process_download_job_inv [OF _ i1])
    show "process_download_job ops running cancels late m ?h1 = Some h'" using run by (simp add: process_inbox_job_def j)
    show "mf_mxc m \<in> keys (dh_preparing ?h1)" by (simp add: mark_preparing_def keys_update mxc)
    show "(m', w) \<in> set late \<Longrightarrow> mf_mxc m' \<noteq> mf_mxc m" for m' w using late [OF j] mxc by simp
  qed
qed

section \<open>Seeks\<close>

lemma main_waits_want_seek [simp]:
  "main_waits (dh_in_flight (want r (Seek index reply) front h)) = main_waits (dh_in_flight h)"
proof -
  have "dh_in_flight (want r (Seek index reply) front h) =
      (case map_of (dh_in_flight h) r of
         Some e \<Rightarrow> AList.update r (e\<lparr>fl_waiters := fl_waiters e @ [Seek index reply]\<rparr>) (dh_in_flight h)
       | None \<Rightarrow> AList.update r \<lparr>fl_waiters = [Seek index reply], fl_retries = no_retries\<rparr> (dh_in_flight h))"
    by (auto simp: want_def Let_def withdraw_request_def split: option.split prod.split bool.split)
  then show ?thesis
    by (cases "map_of (dh_in_flight h) r") (simp_all only: option.case fun_eq_iff main_waits_update, auto simp: main_waits_def)
qed

lemma keys_open_set_open: "map_of (dh_open h) mxc = Some x \<Longrightarrow> keys (dh_open (set_open mxc name md h)) = keys (dh_open h)"
  by (simp add: keys_update_Some)

text \<open>A GET on chunk \<open>index\<close> is answered at once, or waits for a request.\<close>

lemma request_seek_chunk_inv:
  assumes inv: "handler_inv (du\<lparr>du_seeks := S\<rparr>) M A h"
  shows "handler_inv (du\<lparr>du_seeks := add_mset reply S\<rparr>) M A (request_seek_chunk ops mxc index reply h)"
    "same_jobs h (request_seek_chunk ops mxc index reply h)"
    "keys (dh_open (request_seek_chunk ops mxc index reply h)) = keys (dh_open h)"
    "main_waits (dh_in_flight (request_seek_chunk ops mxc index reply h)) = main_waits (dh_in_flight h)"
proof -
  have "handler_inv (du\<lparr>du_seeks := add_mset reply S\<rparr>) M A (request_seek_chunk ops mxc index reply h)
     \<and> same_jobs h (request_seek_chunk ops mxc index reply h)
     \<and> keys (dh_open (request_seek_chunk ops mxc index reply h)) = keys (dh_open h)
     \<and> main_waits (dh_in_flight (request_seek_chunk ops mxc index reply h)) = main_waits (dh_in_flight h)"
  proof (cases "map_of (dh_open h) mxc")
    case None
    then show ?thesis using inv want_seek_inv [OF inv] by (auto simp: request_seek_chunk_def split: option.split)
  next
    case (Some x)
    then obtain name md where md: "map_of (dh_open h) mxc = Some (name, md)" by (cases x) simp
    obtain r md1 where r: "op_read_local ops index md = (r, md1)" by (rule prod.exhaust)
    have i1: "handler_inv (du\<lparr>du_seeks := S\<rparr>) M A (set_open mxc name md1 h)"
      by (subst set_open_inv) (use md inv in simp_all)
    note same = same_jobs_trans [OF same_jobs_frame(1) want_same_jobs(1)] same_jobs_trans [OF same_jobs_frame(1) same_jobs_frame(6)]
    show ?thesis using i1 want_seek_inv [OF i1] md
      by (auto simp: request_seek_chunk_def r Let_def keys_update_Some intro: same split: sum.split option.split)
  qed
  then show "handler_inv (du\<lparr>du_seeks := add_mset reply S\<rparr>) M A (request_seek_chunk ops mxc index reply h)"
    "same_jobs h (request_seek_chunk ops mxc index reply h)"
    "keys (dh_open (request_seek_chunk ops mxc index reply h)) = keys (dh_open h)"
    "main_waits (dh_in_flight (request_seek_chunk ops mxc index reply h)) = main_waits (dh_in_flight h)" by blast+
qed

lemma request_seek_at_inv:
  assumes inv: "handler_inv (du\<lparr>du_seeks := S\<rparr>) M A h"
  shows "handler_inv (du\<lparr>du_seeks := add_mset reply S\<rparr>) M A (request_seek_at ops mxc position chunk_size reply h)"
  using request_seek_chunk_inv(1) [OF inv] inv by (simp add: request_seek_at_def split: sum.split)

lemma process_seek_inv:
  assumes inv: "handler_inv (du\<lparr>du_seeks := S\<rparr>) M A h"
  shows "handler_inv (du\<lparr>du_seeks := add_mset reply S\<rparr>) M A (process_seek ops m position reply h)"
proof -
  have "handler_inv (du\<lparr>du_seeks := S\<rparr>) M A (h\<lparr>dh_seek_only := x\<rparr>)" for x using inv by simp
  note at = request_seek_at_inv [OF inv] request_seek_at_inv [OF this]
  show ?thesis using inv at by (simp add: process_seek_def Let_def split: option.split prod.split)
qed

lemma request_seeks_inv:
  assumes inv: "handler_inv (du\<lparr>du_seeks := S\<rparr>) M A h"
  shows "handler_inv (du\<lparr>du_seeks := S + seek_tokens ws\<rparr>) M A (request_seeks ops mxc ws h)
     \<and> same_jobs h (request_seeks ops mxc ws h) \<and> keys (dh_open (request_seeks ops mxc ws h)) = keys (dh_open h)
     \<and> main_waits (dh_in_flight (request_seeks ops mxc ws h)) = main_waits (dh_in_flight h)"
  using inv
proof (induction ws arbitrary: S h rule: seek_tokens.induct)
  case (3 index reply ws)
  note R = request_seek_chunk_inv [OF 3(2), where reply = reply and ops = ops and mxc = mxc and index = index]
  show ?case using 3(1) [OF R(1)] R(2-4) by (auto intro: same_jobs_trans)
qed auto

section \<open>Replies\<close>

text \<open>
  A reply has come and its request has left the table: the main file is owed its next request, the GETs on
  it their answers.
\<close>

definition replied :: "duties \<Rightarrow> download_request \<Rightarrow> waiting list \<Rightarrow> ('w, 'm) handler \<Rightarrow> bool" where
  "replied du r ws h \<longleftrightarrow>
     (\<exists>S. du_seeks du = S + seek_tokens ws
        \<and> handler_inv (du\<lparr>du_seeks := S\<rparr>) (if Main \<in> set ws then {request_mxc r} else {}) {} h)
     \<and> map_of (dh_in_flight h) r = None
     \<and> (Main \<in> set ws \<longrightarrow> runs h (request_mxc r) \<and> is_open h (request_mxc r) \<and> no_main (request_mxc r) h)"

lemma repliedE:
  assumes "replied du r ws h"
  obtains S where "du_seeks du = S + seek_tokens ws"
    "handler_inv (du\<lparr>du_seeks := S\<rparr>) (if Main \<in> set ws then {request_mxc r} else {}) {} h"
    "map_of (dh_in_flight h) r = None"
    "Main \<in> set ws \<Longrightarrow> runs h (request_mxc r)" "Main \<in> set ws \<Longrightarrow> is_open h (request_mxc r)"
    "Main \<in> set ws \<Longrightarrow> no_main (request_mxc r) h"
  using assms unfolding replied_def by metis

lemma duties_eq: "du_seeks du = S \<Longrightarrow> handler_inv (du\<lparr>du_seeks := S\<rparr>) M A h = handler_inv du M A h"
  by auto

lemma replied_resend:
  assumes "replied du r ws h" "bounded rt"
  shows "handler_inv du {} {} (resend r ws rt h)"
proof -
  obtain S where S: "du_seeks du = S + seek_tokens ws"
    "handler_inv (du\<lparr>du_seeks := S\<rparr>) (if Main \<in> set ws then {request_mxc r} else {}) {} h" "map_of (dh_in_flight h) r = None"
    "Main \<in> set ws \<Longrightarrow> runs h (request_mxc r)" "Main \<in> set ws \<Longrightarrow> is_open h (request_mxc r)"
    "Main \<in> set ws \<Longrightarrow> no_main (request_mxc r) h" using assms(1) by (rule repliedE) blast
  have "handler_inv (du\<lparr>du_seeks := S + seek_tokens ws\<rparr>) {} {} (resend r ws rt h)"
    by (rule resend_inv) (use S assms(2) in simp_all)
  then show ?thesis unfolding duties_eq [OF S(1)] .
qed

lemma replied_answer:
  assumes "replied du r ws h"
  shows "handler_inv du (if Main \<in> set ws then {request_mxc r} else {}) {} (fold (answer_waiting f) ws h)"
proof -
  obtain S where S: "du_seeks du = S + seek_tokens ws"
    "handler_inv (du\<lparr>du_seeks := S\<rparr>) (if Main \<in> set ws then {request_mxc r} else {}) {} h"
    using assms by (rule repliedE) blast
  have "handler_inv (du\<lparr>du_seeks := S + seek_tokens ws\<rparr>) (if Main \<in> set ws then {request_mxc r} else {}) {} (fold (answer_waiting f) ws h)"
    unfolding answer_all_inv by (rule S(2))
  then show ?thesis unfolding duties_eq [OF S(1)] .
qed

lemma replied_main:
  assumes "replied du r ws h" "Main \<in> set ws"
  shows "runs h (request_mxc r)" "is_open h (request_mxc r)" "no_main (request_mxc r) h"
  using assms unfolding replied_def by simp_all

lemma replied_answer_weak:
  assumes "replied du r ws h"
  shows "handler_inv du {request_mxc r} {} (fold (answer_waiting f) ws h)"
  by (rule handler_inv_weaken [OF replied_answer [OF assms]]) auto

text \<open>A file that is not open is not being downloaded, so its main file waits for nothing.\<close>

lemma replied_closed:
  assumes "replied du r ws h" "map_of (dh_open h) (request_mxc r) = None"
  shows "Main \<notin> set ws" "handler_inv du {} {} (fold (answer_waiting f) ws h)"
proof -
  show no: "Main \<notin> set ws" using replied_main(2) [OF assms(1)] assms(2) by (auto simp: key_iff)
  show "handler_inv du {} {} (fold (answer_waiting f) ws h)" using replied_answer [OF assms(1), of f] no by simp
qed

lemma give_up_on_inv:
  assumes "replied du r ws h" "request_mxc r = mxc"
  shows "handler_inv du {} {} (give_up_on ops mxc ws e h)"
proof (cases "map_of (dh_open h) mxc")
  case None
  then show ?thesis using replied_closed(2) [OF assms(1), of "\<lambda>_. Inl (core_of_sdk_error e)"] assms(2)
    by (simp add: give_up_on_def Let_def)
next
  case (Some x)
  have "handler_inv du (insert mxc {}) {} (fold (answer_waiting (\<lambda>_. Inl (core_of_sdk_error e))) ws h)"
    using replied_answer_weak [OF assms(1)] assms(2) by simp
  then show ?thesis using fail_media_inv(1) Some by (simp add: give_up_on_def Let_def)
qed

text \<open>The main file goes on once the reply is dealt with.\<close>

lemma continue_if:
  assumes run: "(if Main \<in> set ws then continue_main ops mxc h else Some h) = Some h'"
    and inv: "handler_inv du (if Main \<in> set ws then {mxc} else {}) {} h" and no: "Main \<in> set ws \<Longrightarrow> no_main mxc h"
  shows "handler_inv du {} {} h'"
proof (cases "Main \<in> set ws")
  case True
  have "handler_inv du {} {} h' \<and> job_step mxc h h'"
    by (rule continue_main_inv) (use True run inv no in \<open>simp_all\<close>)
  then show ?thesis ..
next
  case False
  then show ?thesis using run inv by simp
qed

lemma info_arrived_inv:
  assumes run: "info_arrived ops mxc ack ws rt h = Some h'" and rep: "replied du (Info_Request mxc) ws h" and rt: "bounded rt"
  shows "handler_inv du {} {} h'"
proof (cases "check_info ops mxc ack h")
  case None
  then have closed: "map_of (dh_open h) (request_mxc (Info_Request mxc)) = None"
    by (auto simp: check_info_def split: option.splits)
  show ?thesis using run None replied_closed(2) [OF rep closed] by (auto simp: info_arrived_def)
next
  case (Some r)
  show ?thesis
  proof (cases r)
    case (Inl e)
    then consider "h' = resend (Info_Request mxc) ws (bad_reply_again rt) h" | "h' = give_up_on ops mxc ws e h"
      using run Some by (auto simp: info_arrived_def split: if_splits)
    then show ?thesis
    proof cases
      case 1
      show ?thesis unfolding 1 by (rule replied_resend [OF rep]) (use rt in simp)
    next
      case 2
      show ?thesis unfolding 2 by (rule give_up_on_inv [OF rep]) simp
    qed
  next
    case (Inr h1)
    obtain S where S0: "du_seeks du = S + seek_tokens ws"
      "handler_inv (du\<lparr>du_seeks := S\<rparr>) (if Main \<in> set ws then {request_mxc (Info_Request mxc)} else {}) {} h"
      using rep by (rule repliedE)
    note S = S0 [unfolded request_mxc.simps]
    have no: "no_main mxc h" if "Main \<in> set ws" using replied_main(3) [OF rep that] by simp
    have i1: "handler_inv (du\<lparr>du_seeks := S\<rparr>) (if Main \<in> set ws then {mxc} else {}) {} h1 \<and> dh_in_flight h1 = dh_in_flight h"
    proof (cases "map_of (dh_open h) mxc")
      case None
      then obtain x where "h1 = h\<lparr>dh_seek_only := x\<rparr>"
        using Some Inr by (auto simp: check_info_def rbind_eq_Inr split: option.splits)
      then show ?thesis using S(2) by simp
    next
      case o: (Some y)
      then obtain name md md1 where "map_of (dh_open h) mxc = Some (name, md)" "h1 = set_open mxc name md1 h"
        using Some Inr by (cases y) (auto simp: check_info_def rbind_eq_Inr)
      then show ?thesis using S(2) by simp
    qed
    define h2 where "h2 = request_seeks ops mxc ws h1"
    have R: "handler_inv (du\<lparr>du_seeks := S + seek_tokens ws\<rparr>) (if Main \<in> set ws then {mxc} else {}) {} h2"
      "main_waits (dh_in_flight h2) = main_waits (dh_in_flight h)"
      using request_seeks_inv [OF conjunct1 [OF i1], of ws ops mxc] i1 by (simp_all add: h2_def)
    have i2: "handler_inv du (if Main \<in> set ws then {mxc} else {}) {} h2" using R(1) unfolding duties_eq [OF S(1)] .
    have run2: "(if Main \<in> set ws then continue_main ops mxc h2 else Some h2) = Some h'"
      using run unfolding info_arrived_def Some Inr option.case sum.case Let_def h2_def .
    show ?thesis by (rule continue_if [OF run2 i2]) (use no R(2) in simp)
  qed
qed

lemma chunk_arrived_inv:
  assumes run: "chunk_arrived ops mxc index ack ws rt h = Some h'" and rep: "replied du (Chunk_Request mxc index) ws h"
    and rt: "bounded rt"
  shows "handler_inv du {} {} h'"
proof (cases "open_arrived ops mxc index ack h")
  case None
  then have closed: "map_of (dh_open h) (request_mxc (Chunk_Request mxc index)) = None"
    by (auto simp: open_arrived_def split: option.splits)
  show ?thesis using run None replied_closed(2) [OF rep closed] by (auto simp: chunk_arrived_def)
next
  case (Some r)
  show ?thesis
  proof (cases r)
    case (Inl e)
    then consider "h' = resend (Chunk_Request mxc index) ws (bad_reply_again rt) h" | "h' = give_up_on ops mxc ws e h"
      using run Some by (auto simp: chunk_arrived_def split: if_splits)
    then show ?thesis
    proof cases
      case 1
      show ?thesis unfolding 1 by (rule replied_resend [OF rep]) (use rt in simp)
    next
      case 2
      show ?thesis unfolding 2 by (rule give_up_on_inv [OF rep]) simp
    qed
  next
    case (Inr plain)
    show ?thesis
    proof (cases "map_of (dh_open h) mxc")
      case None
      have closed: "map_of (dh_open h) (request_mxc (Chunk_Request mxc index)) = None" using None by simp
      show ?thesis using run Some Inr None replied_closed(2) [OF rep closed] by (auto simp: chunk_arrived_def Let_def)
    next
      case o: (Some y)
      then obtain name md where md: "map_of (dh_open h) mxc = Some (name, md)" by (cases y) simp
      let ?lands = "Main \<in> set ws \<and> index = op_next ops md"
      obtain stored md1 w where w: "(if ?lands then
             (case op_land ops index plain md of
                Inr md1 \<Rightarrow> (Inr (), md1, dh_world h) | Inl e \<Rightarrow> (Inl e, md, dh_world h))
           else op_store_seek ops index plain md (dh_world h)) = (stored, md1, w)" by (rule prod_cases3)
      define h1 where "h1 = fold (answer_waiting (\<lambda>_. Inr \<lparr>sp_start = chunk_start index (chunk_size_of ops md1), sp_plain = plain\<rparr>))
          ws (set_world w (set_open mxc name md1 h))"
      have rep1: "replied du (Chunk_Request mxc index) ws (set_world w (set_open mxc name md1 h))"
        using rep md by (simp add: replied_def keys_update_Some)
      have i1: "handler_inv du (if Main \<in> set ws then {mxc} else {}) {} h1"
        using replied_answer [OF rep1] unfolding request_mxc.simps h1_def .
      have no: "no_main mxc h1" if "Main \<in> set ws" using replied_main(3) [OF rep1 that] by (simp add: h1_def)
      have step: "(case stored of
             Inl e \<Rightarrow>
               if ?lands then Some (fail_media ops mxc (core_of_sdk_error e) False h1)
               else if Main \<in> set ws then continue_main ops mxc h1 else Some h1
           | Inr u \<Rightarrow>
               (let h2 = (if ?lands then after_landing ops mxc h1 else h1)
                in if Main \<in> set ws then continue_main ops mxc h2 else Some h2)) = Some h'"
        using run unfolding chunk_arrived_def Some Inr option.case sum.case md prod.case Let_def w h1_def [symmetric] .
      show ?thesis
      proof (cases stored)
        case (Inl e)
        show ?thesis
        proof (cases ?lands)
          case True
          then have h': "h' = fail_media ops mxc (core_of_sdk_error e) False h1" using step Inl by simp
          show ?thesis unfolding h' by (rule fail_media_inv(1)) (use i1 True in simp)
        next
          case False
          have "(if Main \<in> set ws then continue_main ops mxc h1 else Some h1) = Some h'"
            using step unfolding Inl sum.case if_not_P [OF False] .
          then show ?thesis by (rule continue_if [OF _ i1 no])
        qed
      next
        case (Inr u)
        let ?h2 = "if ?lands then after_landing ops mxc h1 else h1"
        have run2: "(if Main \<in> set ws then continue_main ops mxc ?h2 else Some ?h2) = Some h'"
          using step unfolding Inr sum.case Let_def .
        show ?thesis by (rule continue_if [OF run2]) (use i1 no in auto)
      qed
    qed
  qed
qed

text \<open>The reply leaves the line, and its request the table.\<close>

lemma accounted_for_pop:
  assumes "rl_replies line = (r, result) # rest"
  shows "accounted_for line = add_mset r (accounted_for (line\<lparr>rl_replies := rest\<rparr>))"
  using assms by (simp add: accounted_for_def in_hand_def)

lemma pop_line:
  assumes "rl_replies line = (r, result) # rest"
  shows "line_ok n line \<Longrightarrow> line_ok n (line\<lparr>rl_replies := rest\<rparr>)"
    "set_mset (accounted_for line) - {r} \<subseteq> set_mset (accounted_for (line\<lparr>rl_replies := rest\<rparr>))"
  using accounted_for_pop [OF assms] by (auto simp: line_ok_def)

text \<open>The error branch of \<open>handle_reply\<close>.\<close>

definition refused_reply ::
    "('w, 'm) media_ops \<Rightarrow> download_request \<Rightarrow> sdk_error \<Rightarrow> waiting list \<Rightarrow> retries \<Rightarrow> ('w, 'm) handler \<Rightarrow> ('w, 'm) handler" where
  "refused_reply ops r err ws rt h =
     (if err = Network then
        (let h2 = fold (answer_waiting (\<lambda>_. Inl Core_Network)) ws h in if Main \<in> set ws then resend r [Main] rt h2 else h2)
      else if err = Timeout \<and> rt_timeouts rt + 1 < TIMEOUT_ATTEMPTS then resend r ws (rt\<lparr>rt_timeouts := rt_timeouts rt + 1\<rparr>) h
      else if is_bad_reply err \<and> rt_bad_replies rt = 0 then resend r ws (bad_reply_again rt) h
      else
        (let h2 = fold (answer_waiting (\<lambda>_. Inl (core_of_sdk_error err))) ws h
         in if Main \<in> set ws \<or> is_permanent_refusal err
            then fail_media ops (request_mxc r) (core_of_sdk_error err) (is_permanent_refusal err) h2
            else h2))"

lemma refused_reply_inv:
  assumes rep: "replied du r ws h" and rt: "bounded rt"
  shows "handler_inv du {} {} (refused_reply ops r err ws rt h)"
proof -
  have net: "handler_inv du {} {} (if Main \<in> set ws then resend r [Main] rt (fold (answer_waiting f) ws h) else fold (answer_waiting f) ws h)" for f
  proof (cases "Main \<in> set ws")
    case True
    have none: "map_of (dh_in_flight h) r = None" using rep by (simp add: replied_def)
    have "handler_inv (du\<lparr>du_seeks := du_seeks du + seek_tokens [Main]\<rparr>) {} {} (resend r [Main] rt (fold (answer_waiting f) ws h))"
      by (rule resend_inv) (use replied_answer_weak [OF rep, of f] replied_main [OF rep True] none rt in simp_all)
    then show ?thesis using True by simp
  next
    case False
    then show ?thesis using replied_answer [OF rep, of f] by simp
  qed
  have failed: "handler_inv du {} {} (if Main \<in> set ws \<or> d then fail_media ops (request_mxc r) e b (fold (answer_waiting f) ws h)
      else fold (answer_waiting f) ws h)" for d b e f
    using fail_media_inv(1) [OF replied_answer_weak [OF rep, of f]] replied_answer [OF rep, of f]
    by (cases "Main \<in> set ws"; cases d) simp_all
  have again: "handler_inv du {} {} (resend r ws rt' h)" if "bounded rt'" for rt' by (rule replied_resend [OF rep that])
  consider "err = Network" | "err \<noteq> Network" "err = Timeout \<and> rt_timeouts rt + 1 < TIMEOUT_ATTEMPTS"
    | "err \<noteq> Network" "\<not> (err = Timeout \<and> rt_timeouts rt + 1 < TIMEOUT_ATTEMPTS)" "is_bad_reply err \<and> rt_bad_replies rt = 0"
    | "err \<noteq> Network" "\<not> (err = Timeout \<and> rt_timeouts rt + 1 < TIMEOUT_ATTEMPTS)" "\<not> (is_bad_reply err \<and> rt_bad_replies rt = 0)" by blast
  then show ?thesis
  proof cases
    case 1
    then show ?thesis using net by (simp add: refused_reply_def Let_def)
  next
    case 2
    then show ?thesis using again rt by (simp add: refused_reply_def)
  next
    case 3
    have "refused_reply ops r err ws rt h = resend r ws (bad_reply_again rt) h"
      unfolding refused_reply_def if_not_P [OF 3(1)] if_not_P [OF 3(2)] if_P [OF 3(3)] ..
    then show ?thesis using again rt by simp
  next
    case 4
    show ?thesis unfolding refused_reply_def if_not_P [OF 4(1)] if_not_P [OF 4(2)] if_not_P [OF 4(3)] Let_def by (rule failed)
  qed
qed

lemma next_reply_inv:
  assumes run: "next_reply ops h = Some h'" and inv: "handler_inv du {} {} h"
  shows "handler_inv du {} {} h'"
proof (cases "rl_replies (dh_line h)")
  case Nil
  then show ?thesis using run inv by (simp add: next_reply_def)
next
  case (Cons x rest)
  then obtain r result where q: "rl_replies (dh_line h) = (r, result) # rest" by (cases x) simp
  let ?line = "(dh_line h)\<lparr>rl_replies := rest\<rparr>"
  have run1: "handle_reply ops r result (h\<lparr>dh_line := ?line\<rparr>) = Some h'" using run by (simp add: next_reply_def q)
  note line = pop_line(1) [OF q flight_fields(2) [OF inv]] pop_line(2) [OF q]
  show ?thesis
  proof (cases "map_of (dh_in_flight h) r")
    case None
    then have "r \<notin> keys (dh_in_flight h)" by (simp add: map_of_eq_None_iff)
    then have "keys (dh_in_flight h) \<subseteq> set_mset (accounted_for (dh_line h)) - {r}"
      using flight_ok_keys [OF flight_fields(1) [OF inv]] by blast
    then have "keys (dh_in_flight h) \<subseteq> set_mset (accounted_for ?line)" using line(2) by (rule order_trans)
    then have "flight_ok (du_numbers du) (dh_in_flight h) ?line"
      using flight_fields(1) [OF inv] line(1) by (simp add: flight_ok_def)
    then have "handler_inv du {} {} (h\<lparr>dh_line := ?line\<rparr>)"
      using inv by (simp add: handler_inv_def has_job_def seeks_held_def waiters_held_def)
    then show ?thesis using run1 None by (simp add: handle_reply_def)
  next
    case (Some e)
    let ?ws = "fl_waiters e" let ?rt = "fl_retries e"
    let ?h1 = "h\<lparr>dh_line := ?line, dh_in_flight := AList.delete r (dh_in_flight h)\<rparr>"
    have rt: "bounded ?rt" by (rule in_flight_accounted(2) [OF inv Some])
    obtain S where S: "du_seeks du = S + seek_tokens ?ws"
      "handler_inv (du\<lparr>du_seeks := S\<rparr>) (if Main \<in> set ?ws then insert (request_mxc r) {} else {}) {}
         (h\<lparr>dh_in_flight := AList.delete r (dh_in_flight h), dh_line := ?line\<rparr>)"
      by (rule take_flight [OF inv Some line])
    have J: "jobs_ok {} (keys (dh_downloading h)) (keys (dh_open h)) (dh_in_flight h)" using inv by (simp add: handler_inv_def)
    have mw: "main_waits (dh_in_flight h) (request_mxc r) r" if "Main \<in> set ?ws" using that Some by (simp add: main_waits_def)
    have swap: "?h1 = h\<lparr>dh_in_flight := AList.delete r (dh_in_flight h), dh_line := ?line\<rparr>" by simp
    have rep: "replied du r ?ws ?h1"
      unfolding replied_def
    proof (intro conjI impI exI [of _ S])
      show "map_of (dh_in_flight ?h1) r = None" by (simp add: delete_conv')
      assume m: "Main \<in> set ?ws"
      show "runs ?h1 (request_mxc r)" using jobs_okD(3) [OF J mw [OF m]] by simp
      then show "is_open ?h1 (request_mxc r)" using jobs_okD(1) [OF J, of "request_mxc r"] by simp
      show "no_main (request_mxc r) ?h1" using jobs_okD(4) [OF J mw [OF m]] by (auto simp: main_waits_delete)
    qed (use S in \<open>simp_all only: swap\<close>)
    have run2: "(case result of
             Inr ack \<Rightarrow>
               (case r of
                  Info_Request mxc \<Rightarrow> info_arrived ops mxc ack ?ws ?rt ?h1
                | Chunk_Request mxc index \<Rightarrow> chunk_arrived ops mxc index ack ?ws ?rt ?h1)
           | Inl err \<Rightarrow> Some (refused_reply ops r err ?ws ?rt ?h1)) = Some h'"
      using run1 Some by (auto simp: handle_reply_def refused_reply_def Let_def answer_seeks_only_def split: sum.splits download_request.splits if_splits)
    show ?thesis
    proof (cases result)
      case (Inl err)
      have h': "h' = refused_reply ops r err ?ws ?rt ?h1" using run2 unfolding Inl sum.case by simp
      show ?thesis unfolding h' by (rule refused_reply_inv [OF rep rt])
    next
      case (Inr ack)
      show ?thesis
      proof (cases r)
        case (Info_Request mxc)
        show ?thesis by (rule info_arrived_inv [OF _ rep [unfolded Info_Request] rt]) (use run2 Inr Info_Request in simp)
      next
        case (Chunk_Request mxc index)
        show ?thesis by (rule chunk_arrived_inv [OF _ rep [unfolded Chunk_Request] rt]) (use run2 Inr Chunk_Request in simp)
      qed
    qed
  qed
qed

section \<open>Housekeeping\<close>

lemma main_request_None: "main_request mxc h = None \<Longrightarrow> no_main mxc h"
  by (force simp: main_request_def find_None_iff main_waits_def dest: map_of_SomeD)

lemma handle_cancellation_inv:
  assumes inv: "handler_inv du {} {} h"
  shows "handler_inv du {} {} (handle_cancellation ops mxc h)"
proof (cases "main_request mxc h")
  case None
  have "handler_inv du {} {} (end_job ops mxc End_Cancelled h)"
    by (rule end_job_inv(1) [OF handler_inv_weaken [OF inv] main_request_None [OF None]]) simp_all
  then show ?thesis using None by (simp add: handle_cancellation_def)
next
  case (Some r)
  then obtain e where e: "(r, e) \<in> set (dh_in_flight h)" "request_mxc r = mxc" "Main \<in> set (fl_waiters e)"
    by (auto simp: main_request_def find_Some_iff) (metis nth_mem)
  then have fl: "map_of (dh_in_flight h) r = Some e" using flight_fields(3) [OF inv] by (simp add: map_of_eq_Some_iff)
  obtain line was where w: "withdraw r (dh_line h) = (line, was)" by (rule prod.exhaust)
  note wl = withdraw_line [where r = r and line = "dh_line h", unfolded w fst_conv snd_conv]
  show ?thesis
  proof (cases was)
    case False
    then have "handle_cancellation ops mxc h = h" using wl(3) by (simp add: handle_cancellation_def Some withdraw_request_def w)
    then show ?thesis using inv by simp
  next
    case True
    let ?h2 = "h\<lparr>dh_in_flight := AList.delete r (dh_in_flight h), dh_line := line\<rparr>"
    let ?others = "filter (\<lambda>w. w \<noteq> Main) (fl_waiters e)"
    obtain S where S: "du_seeks du = S + seek_tokens (fl_waiters e)"
      "handler_inv (du\<lparr>du_seeks := S\<rparr>) (if Main \<in> set (fl_waiters e) then insert (request_mxc r) {} else {}) {} ?h2"
      by (rule take_flight [OF inv fl wl(1) [OF flight_fields(2) [OF inv]] wl(2)])
    have i2: "handler_inv (du\<lparr>du_seeks := S\<rparr>) (insert mxc {}) {} ?h2" using S(2) e(2,3) by simp
    have J: "jobs_ok {} (keys (dh_downloading h)) (keys (dh_open h)) (dh_in_flight h)" using inv by (simp add: handler_inv_def)
    have mw: "main_waits (dh_in_flight h) mxc r" using fl e by (simp add: main_waits_def)
    have no2: "no_main mxc ?h2" using jobs_okD(4) [OF J mw] by (auto simp: main_waits_delete)
    define h3 where "h3 = (if ?others \<noteq> [] then resend r ?others (fl_retries e) ?h2 else ?h2)"
    have i3: "handler_inv du (insert mxc {}) {} h3"
    proof (cases "?others = []")
      case True
      then have "seek_tokens (fl_waiters e) = {#}" by (metis seek_tokens.simps(1) seek_tokens_no_main)
      then have "du_seeks du = S" using S(1) by simp
      then show ?thesis using i2 True by (simp add: h3_def duties_eq)
    next
      case False
      have "handler_inv (du\<lparr>du_seeks := S + seek_tokens ?others\<rparr>) (insert mxc {}) {} (resend r ?others (fl_retries e) ?h2)"
        by (rule resend_inv) (use i2 in_flight_accounted(2) [OF inv fl] in \<open>simp_all add: delete_conv'\<close>)
      then show ?thesis using False S(1) by (simp add: h3_def duties_eq)
    qed
    have swap: "h\<lparr>dh_line := line, dh_in_flight := AList.delete r (dh_in_flight h)\<rparr> = ?h2" by simp
    have no3: "no_main mxc h3"
      using no2 by (auto simp: h3_def resend_def main_waits_update split: if_splits)
    have "handle_cancellation ops mxc h = end_job ops mxc End_Cancelled h3"
      using True fl by (simp add: handle_cancellation_def Some withdraw_request_def w h3_def flip: swap)
    then show ?thesis using end_job_inv(1) [OF i3 no3] by simp
  qed
qed

lemma handle_cancellations_inv: "handler_inv du {} {} h \<Longrightarrow> handler_inv du {} {} (handle_cancellations ops h)"
proof -
  have "handler_inv du {} {} h \<Longrightarrow> handler_inv du {} {} (fold (handle_cancellation ops) xs h)" for xs
    by (induction xs arbitrary: h) (simp_all add: handle_cancellation_inv)
  then show "handler_inv du {} {} h \<Longrightarrow> handler_inv du {} {} (handle_cancellations ops h)" by (simp add: handle_cancellations_def)
qed

lemma close_idle_inv:
  assumes inv: "handler_inv du {} {} h"
  shows "handler_inv du {} {} (close_idle_without_job ops h)"
proof -
  have closed: "handler_inv du {} {} k \<Longrightarrow> \<forall>x\<in>set xs. \<not> runs k x \<Longrightarrow> handler_inv du {} {} (fold (close_and_sync ops) xs k)" for xs k
  proof (induction xs arbitrary: k)
    case (Cons x xs)
    have i: "handler_inv du (insert x {}) {} k" by (rule handler_inv_weaken [OF Cons.prems(1)]) simp_all
    note C = close_and_sync_inv [OF i, of ops]
    have same: "dh_downloading (close_and_sync ops x k) = dh_downloading k" using C(2) by (simp add: same_jobs_def)
    have "handler_inv du {} {} (close_and_sync ops x k)"
      by (rule not_running_inv [OF C(1)]) (use Cons.prems(2) same in simp)
    then show ?case using Cons.IH Cons.prems(2) same by simp
  qed simp
  have drop: "handler_inv du {} {} ((drop_oldest ^^ n) k) = handler_inv du {} {} k" for n k
    by (induction n) (simp_all add: drop_oldest_def split: option.split)
  show ?thesis unfolding close_idle_without_job_def Let_def drop by (rule closed [OF inv]) (auto simp: key_iff)
qed

end
