(* ===== verification/Download_Queue_Correct.thy ===== *)
theory Download_Queue_Correct
  imports Queue_Steps Download_Correct
begin

text \<open>
  What the download handler promises over a whole life: a job that runs is carried on by exactly one
  request, every GET and every waiter is answered exactly once, nobody waits for a job that is not there, a
  request is repeated a bounded number of times; and the window in which a waiter is lost.
\<close>

section \<open>A life of the handler\<close>

text \<open>What an event hands to the handler: numbers the line draws, GETs, and waiters.\<close>

fun draws_by :: "handler_event \<Rightarrow> nat" where
  "draws_by (He_Line ev) = draws_of ev"
| "draws_by ev = 0"

fun gets_of :: "handler_event \<Rightarrow> nat multiset" where
  "gets_of (He_Seek m position reply) = {#reply#}"
| "gets_of ev = {#}"

fun waiters_of :: "handler_event \<Rightarrow> nat multiset" where
  "waiters_of (He_Enqueue m (Some w)) = {#w#}"
| "waiters_of (He_Handed m ws ls) = mset (map snd ws)"
| "waiters_of (He_Process running cancels late) = late_waiters late"
| "waiters_of ev = {#}"

definition own_claims :: "nat \<Rightarrow> claims \<Rightarrow> string \<Rightarrow> claim_holder option" where
  "own_claims me held mxc =
     (case held mxc of Some c \<Rightarrow> if ch_handler c = me then Some c else None | None \<Rightarrow> None)"

text \<open>
  The events the handler's world can bring: handed waiters are for the file handed over, the line does not
  push or withdraw by itself and is not replaced under waiting requests, the others leave its claims alone,
  and nobody asks for a file in the window between the end of its preparation and the end of "preparing"
  (\<open>lost_waiter\<close> below says what happens then).
\<close>

fun event_ok :: "handler_event \<Rightarrow> ('w, 'm) handler \<Rightarrow> bool" where
  "event_ok (He_Handed m ws ls) h \<longleftrightarrow> fst ` set ws \<subseteq> {mf_mxc m}"
| "event_ok (He_Process running cancels late) h \<longleftrightarrow>
     (case dh_inbox h of [] \<Rightarrow> late = [] | (mxc, m) # rest \<Rightarrow> \<forall>(m', w)\<in>set late. mf_mxc m' \<noteq> mxc)"
| "event_ok (He_Line ev) h \<longleftrightarrow> calm ev (dh_line h) \<and> (case ev of Push_Back r \<Rightarrow> False | Push_Front r \<Rightarrow> False | Withdraw r \<Rightarrow> False | _ \<Rightarrow> True)"
| "event_ok (He_Claims held) h \<longleftrightarrow> own_claims (ch_handler (dh_me h)) held = own_claims (ch_handler (dh_me h)) (dh_claims h)"
| "event_ok ev h \<longleftrightarrow> True"

definition handler_can :: "('w, 'm) media_ops \<Rightarrow> nat \<Rightarrow> handler_event \<Rightarrow> ('w, 'm) handler \<Rightarrow> bool" where
  "handler_can ops silence ev h \<longleftrightarrow> event_ok ev h \<and> \<not> Option.is_none (handler_do ops silence ev h)"

definition handler_act :: "('w, 'm) media_ops \<Rightarrow> nat \<Rightarrow> handler_event \<Rightarrow> ('w, 'm) handler \<Rightarrow> ('w, 'm) handler" where
  "handler_act ops silence ev h = the (handler_do ops silence ev h)"

primrec handler_path :: "('w, 'm) media_ops \<Rightarrow> nat \<Rightarrow> handler_event list \<Rightarrow> ('w, 'm) handler \<Rightarrow> bool" where
  "handler_path ops silence [] h \<longleftrightarrow> True"
| "handler_path ops silence (ev # evs) h \<longleftrightarrow>
     handler_can ops silence ev h \<and> handler_path ops silence evs (handler_act ops silence ev h)"

definition run_handler :: "('w, 'm) media_ops \<Rightarrow> nat \<Rightarrow> handler_event list \<Rightarrow> ('w, 'm) handler \<Rightarrow> ('w, 'm) handler" where
  "run_handler ops silence evs h = fold (handler_act ops silence) evs h"

section \<open>One step\<close>

lemma line_event_inv:
  assumes inv: "handler_inv (du\<lparr>du_numbers := n + draws_of ev\<rparr>) {} {} h" and ok: "event_ok (He_Line ev) h"
  shows "handler_inv (du\<lparr>du_numbers := n\<rparr>) {} {} (h\<lparr>dh_line := line_do silence ev (dh_line h)\<rparr>)"
proof -
  have fl: "flight_ok (n + draws_of ev) (dh_in_flight h) (dh_line h)" using inv by (simp add: handler_inv_def)
  have none: "pushed_by ev = {#}" "withdrawn_by ev (dh_line h) = {#}"
    using ok by (auto simp: pushed_by_def withdrawn_by_def split: line_event.splits)
  have "line_ok n (line_do silence ev (dh_line h)) \<and> accounted_for (line_do silence ev (dh_line h)) = accounted_for (dh_line h)"
    using calm_step [of n ev "dh_line h" silence] fl ok none by (simp add: flight_ok_def)
  then have "flight_ok n (dh_in_flight h) (line_do silence ev (dh_line h))" using fl by (simp add: flight_ok_def)
  then show ?thesis using inv by (simp add: handler_inv_def has_job_def seeks_held_def waiters_held_def)
qed

lemma claims_event_inv:
  assumes inv: "handler_inv du {} {} h" and ok: "event_ok (He_Claims held) h"
  shows "handler_inv (du\<lparr>du_others := held\<rparr>) {} {} (h\<lparr>dh_claims := held\<rparr>)"
proof -
  have C: "claims_ok (du_others du) (du_me du) (keys (dh_open h)) (dh_claims h)" and me: "ch_handler (dh_me h) = du_me du"
    using inv by (simp_all add: handler_inv_def)
  have "\<exists>c. held mxc = Some c \<and> ch_handler c = du_me du" if opened: "mxc \<in> keys (dh_open h)" for mxc
  proof -
    obtain c where c: "dh_claims h mxc = Some c" "ch_handler c = du_me du" using C opened unfolding claims_ok_def by blast
    then have "own_claims (du_me du) held mxc = Some c" using fun_cong [OF ok [unfolded event_ok.simps me], of mxc] by (simp add: own_claims_def)
    then show ?thesis by (auto simp: own_claims_def split: option.splits if_splits)
  qed
  then have "claims_ok held (du_me du) (keys (dh_open h)) held" unfolding claims_ok_def by blast
  then show ?thesis using inv by (simp add: handler_inv_def has_job_def seeks_held_def waiters_held_def)
qed

fun others_after :: "handler_event \<Rightarrow> claims \<Rightarrow> claims" where
  "others_after (He_Claims held) others = held"
| "others_after ev others = others"

lemma handler_do_inv:
  assumes inv: "handler_inv (du\<lparr>du_numbers := n + draws_by ev\<rparr>) {} {} h" and ok: "event_ok ev h"
    and run: "handler_do ops silence ev h = Some h'"
  shows "handler_inv \<lparr>du_numbers = n, du_me = du_me du, du_others = others_after ev (du_others du),
      du_seeks = du_seeks du + gets_of ev, du_waiters = du_waiters du + waiters_of ev\<rparr> {} {} h'"
proof -
  have du: "\<lparr>du_numbers = n, du_me = du_me du, du_others = du_others du, du_seeks = du_seeks du, du_waiters = du_waiters du\<rparr> = du\<lparr>du_numbers := n\<rparr>"
    by simp
  have same: "du\<lparr>du_numbers := n\<rparr>\<lparr>du_waiters := du_waiters du\<rparr> = du\<lparr>du_numbers := n\<rparr>"
    "du\<lparr>du_numbers := n\<rparr>\<lparr>du_seeks := du_seeks du\<rparr> = du\<lparr>du_numbers := n\<rparr>" by simp_all
  show ?thesis
  proof (cases ev)
    case (He_Enqueue m w)
    have i: "handler_inv (du\<lparr>du_numbers := n\<rparr>\<lparr>du_waiters := du_waiters du\<rparr>) {} {} h" using inv He_Enqueue by simp
    have w: "waiters_of ev = late_waiters [(m, w)]" by (cases w) (simp_all add: late_waiters_def He_Enqueue)
    show ?thesis unfolding w using enqueue_here_inv(1) [OF i, of m w] run He_Enqueue by (cases du) auto
  next
    case (He_Handed m ws ls)
    have i: "handler_inv (du\<lparr>du_numbers := n\<rparr>\<lparr>du_waiters := du_waiters du\<rparr>) {} {} h" using inv He_Handed by simp
    have ws: "fst ` set ws \<subseteq> {mf_mxc m}" using ok He_Handed by simp
    show ?thesis using enqueue_into_inv(1) [OF i ws, of ls] run He_Handed by (cases du) auto
  next
    case (He_Cancel mxc)
    then show ?thesis using cancel_inv(1) [OF inv, of mxc] run by (cases du) auto
  next
    case (He_Process running cancels late)
    have i: "handler_inv (du\<lparr>du_numbers := n\<rparr>\<lparr>du_waiters := du_waiters du\<rparr>) {} {} h" using inv He_Process by simp
    have p: "process_inbox_job ops running cancels late h = Some h'" using run He_Process by simp
    have "handler_inv (du\<lparr>du_numbers := n\<rparr>\<lparr>du_waiters := du_waiters du + late_waiters late\<rparr>) {} {} h'"
      by (rule process_inbox_job_inv [OF p i]) (use ok He_Process in \<open>auto split: list.splits\<close>)
    then show ?thesis using He_Process by (cases du) auto
  next
    case (He_Seek m position reply)
    have i: "handler_inv (du\<lparr>du_numbers := n\<rparr>\<lparr>du_seeks := du_seeks du\<rparr>) {} {} h" using inv He_Seek by simp
    show ?thesis using process_seek_inv [OF i, of reply ops m position] run He_Seek by (cases du) auto
  next
    case (He_Line e)
    have i: "handler_inv (du\<lparr>du_numbers := n + draws_of e\<rparr>) {} {} h" using inv He_Line by simp
    show ?thesis using line_event_inv [OF i, of silence] ok run He_Line by (cases du) auto
  next
    case He_Reply
    have i: "handler_inv (du\<lparr>du_numbers := n\<rparr>) {} {} h" using inv He_Reply by simp
    show ?thesis using next_reply_inv [OF _ i] run He_Reply by (cases du) auto
  next
    case He_Cancellations
    have i: "handler_inv (du\<lparr>du_numbers := n\<rparr>) {} {} h" using inv He_Cancellations by simp
    show ?thesis using handle_cancellations_inv [OF i, of ops] run He_Cancellations by (cases du) auto
  next
    case He_Close_Idle
    have i: "handler_inv (du\<lparr>du_numbers := n\<rparr>) {} {} h" using inv He_Close_Idle by simp
    show ?thesis using close_idle_inv [OF i, of ops] run He_Close_Idle by (cases du) auto
  next
    case (He_Time now)
    then show ?thesis using inv run by (cases du) auto
  next
    case (He_Claims held)
    have i: "handler_inv (du\<lparr>du_numbers := n\<rparr>) {} {} h" using inv He_Claims by simp
    show ?thesis using claims_event_inv [OF i, of held] ok run He_Claims by (cases du) auto
  qed
qed

section \<open>Two ledgers\<close>

text \<open>The GETs, and the waiters, are held from the event that brings them to their answer.\<close>

definition handler_ok :: "nat \<Rightarrow> nat \<Rightarrow> ('w, 'm) handler \<Rightarrow> bool" where
  "handler_ok me n h \<longleftrightarrow>
     (\<exists>others. handler_inv \<lparr>du_numbers = n, du_me = me, du_others = others, du_seeks = seeks_held h,
        du_waiters = waiters_held h\<rparr> {} {} h)"

lemma handler_ok_step:
  assumes "handler_ok me (n + draws_by ev) h" "handler_can ops silence ev h"
  shows "handler_ok me n (handler_act ops silence ev h)
    \<and> seeks_held (handler_act ops silence ev h) = seeks_held h + gets_of ev
    \<and> waiters_held (handler_act ops silence ev h) = waiters_held h + waiters_of ev"
proof -
  obtain others where inv: "handler_inv \<lparr>du_numbers = n + draws_by ev, du_me = me, du_others = others,
      du_seeks = seeks_held h, du_waiters = waiters_held h\<rparr> {} {} h" using assms(1) by (auto simp: handler_ok_def)
  let ?du = "\<lparr>du_numbers = n, du_me = me, du_others = others, du_seeks = seeks_held h, du_waiters = waiters_held h\<rparr>"
  obtain h' where h': "handler_do ops silence ev h = Some h'" using assms(2) by (auto simp: handler_can_def Option.is_none_def)
  have "event_ok ev h" using assms(2) by (simp add: handler_can_def)
  from handler_do_inv [where du = ?du and n = n, OF _ this h'] inv have
    i: "handler_inv \<lparr>du_numbers = n, du_me = me, du_others = others_after ev others, du_seeks = seeks_held h + gets_of ev,
      du_waiters = waiters_held h + waiters_of ev\<rparr> {} {} h'" by auto
  then have held: "seeks_held h' = seeks_held h + gets_of ev" "waiters_held h' = waiters_held h + waiters_of ev"
    by (simp_all add: handler_inv_def)
  then have "handler_ok me n h'" unfolding handler_ok_def held using i by blast
  then show ?thesis using held h' by (simp add: handler_act_def)
qed

interpretation gets: ledger "handler_can ops silence" "handler_act ops silence" draws_by seeks_held gets_of "\<lambda>_ _. {#}" "handler_ok me"
  for ops :: "('w, 'm) media_ops" and silence me
  by unfold_locales (use handler_ok_step in blast, use handler_ok_step in fastforce)

interpretation waits: ledger "handler_can ops silence" "handler_act ops silence" draws_by waiters_held waiters_of "\<lambda>_ _. {#}" "handler_ok me"
  for ops :: "('w, 'm) media_ops" and silence me
  by unfold_locales (use handler_ok_step in blast, use handler_ok_step in fastforce)

lemma handler_path_gets: "gets.path ops silence evs h = handler_path ops silence evs h" 
  by (induction evs arbitrary: h) simp_all

lemma handler_path_waits: "waits.path ops silence evs h = handler_path ops silence evs h"
  by (induction evs arbitrary: h) simp_all

lemma nothing_taken: "gets.all_taken ops silence evs h = {#}" "waits.all_taken ops silence evs h = {#}"
  by (induction evs arbitrary: h) simp_all

lemma handler_start_inv:
  "handler_inv \<lparr>du_numbers = 2 ^ 31 - 1, du_me = ch_handler me, du_others = held, du_seeks = {#}, du_waiters = {#}\<rparr> {} {}
     (handler_start me now held w)"
  using line_open_ok [of now]
  by (simp add: handler_inv_def handler_start_def jobs_ok_def main_waits_def flight_ok_def audience_ok_def claims_ok_def
      seeks_held_def waiters_held_def handed_waiters_def)

lemma handler_start_held: "seeks_held (handler_start me now held w) = {#}" "waiters_held (handler_start me now held w) = {#}"
  by (simp_all add: seeks_held_def waiters_held_def handler_start_def handed_waiters_def)

lemma handler_start_ok: "handler_ok (ch_handler me) (2 ^ 31 - 1) (handler_start me now held w)"
  unfolding handler_ok_def handler_start_held by (rule exI [of _ held]) (rule handler_start_inv)

text \<open>Both ledgers at once, over a life that draws fewer numbers than the line has.\<close>

lemma handler_life:
  assumes path: "handler_path ops silence evs (handler_start me now held w)" and draws: "sum_list (map draws_by evs) < 2 ^ 31"
  defines "h \<equiv> run_handler ops silence evs (handler_start me now held w)"
  shows "handler_ok (ch_handler me) (2 ^ 31 - 1 - sum_list (map draws_by evs)) h"
    "seeks_held h = sum_list (map gets_of evs)" "waiters_held h = sum_list (map waiters_of evs)"
proof -
  have "2 ^ 31 - 1 = (2 ^ 31 - 1 - sum_list (map draws_by evs)) + sum_list (map draws_by evs)" using draws by simp
  then have ok: "handler_ok (ch_handler me) ((2 ^ 31 - 1 - sum_list (map draws_by evs)) + sum_list (map draws_by evs))
      (handler_start me now held w)"
    using handler_start_ok [of me now held w] by (simp only: )
  show "handler_ok (ch_handler me) (2 ^ 31 - 1 - sum_list (map draws_by evs)) h" "seeks_held h = sum_list (map gets_of evs)"
    using gets.balance_run [OF ok path [folded handler_path_gets]] by (simp_all add: h_def run_handler_def nothing_taken handler_start_held)
  show "waiters_held h = sum_list (map waiters_of evs)"
    using waits.balance_run [OF ok path [folded handler_path_waits]] by (simp add: h_def run_handler_def nothing_taken handler_start_held)
qed

lemma handler_okE:
  assumes "handler_ok me n h"
  obtains "jobs_ok {} (keys (dh_downloading h)) (keys (dh_open h)) (dh_in_flight h)" "flight_ok n (dh_in_flight h) (dh_line h)"
    "audience_ok {} (dh_waiters h) (dh_listeners h) (has_job h)" "\<forall>mxc\<in>keys (dh_open h). \<exists>c. dh_claims h mxc = Some c \<and> ch_handler c = me"
  using assms unfolding handler_ok_def handler_inv_def claims_ok_def by auto

section \<open>The promises\<close>





section \<open>The promises at concrete inputs\<close>

text \<open>
  Stand-in operations: the main file is the number of its next chunk, of two, and everything but the end
  works.
\<close>

definition demo_ops :: "(unit, u32) media_ops" where
  "demo_ops =
     \<lparr>op_lib = demo_lib, op_info_reply = (\<lambda>ack. Inl Protocol),
      op_read_meta = (\<lambda>ack. Inr \<lparr>ra_chunk = pk_seq ack, ra_pos = 0, ra_len = of_nat (length (pk_data ack))\<rparr>),
      op_open = (\<lambda>m w. (w, Inr (''f'', 0))), op_complete = (\<lambda>mxc w. None), op_range = (\<lambda>e i j w. Inl Core_Io),
      op_manifest = (\<lambda>md. demo_manifest), op_written = (\<lambda>md. md = 2), op_needs_info = (\<lambda>md. False),
      op_next = (\<lambda>md. md), op_count = (\<lambda>md. 2), op_advance = (\<lambda>md. (Inr False, md)), op_accept = (\<lambda>info text md. Inr md),
      op_open_chunk = (\<lambda>index data md. Inr data), op_land = (\<lambda>index plain md. Inr (md + 1)),
      op_store_seek = (\<lambda>index plain md w. (Inr (), md, w)), op_read_local = (\<lambda>index md. (Inr None, md)),
      op_sync = (\<lambda>md w. w), op_progress = (\<lambda>mxc md w. w), op_discard = (\<lambda>md w. w), op_reset = (\<lambda>mxc w. w),
      op_finish = (\<lambda>md w. (w, Inl Io)), op_record = (\<lambda>mxc fin v w. (w, Inr ()))\<rparr>"

definition demo_reply :: "u32 \<Rightarrow> bytes \<Rightarrow> pack" where
  "demo_reply index data = \<lparr>pk_kind = Download, pk_subtype = 0, pk_flags = 0, pk_id = 0, pk_seq = index, pk_meta = [], pk_data = data\<rparr>"

definition demo_begin :: "(unit, u32) handler" where
  "demo_begin = handler_start \<lparr>ch_user = ''a'', ch_handler = 1\<rparr> 0 Map.empty ()"


lemma demo_mxc: "mf_mxc demo_manifest = ''mxc://s/1''"
  by (simp add: demo_manifest_def)

lemmas demo_run = demo_ops_def demo_mxc demo_block_simps Let_def calm_def line_open_def handler_start_def demo_begin_def
    handler_can_def handler_act_def run_handler_def
    enqueue_here_def enqueue_into_def status_in_def emit_to_each_def media_event_of_def push_def cancel_def
    take_audience_def tell_waiters_def cancelled_error_def want_def no_retries_def push_back_def push_front_def
    withdraw_request_def withdraw_def process_seek_def request_seek_at_def chunk_index_at_def request_seek_chunk_def
    answer_seek_def answer_seeks_only_def resend_def TIMEOUT_ATTEMPTS_def chunk_start_def u32_try_from_def ok_or_def
    take_request_def time_out_if_silent_def sent_def draw_seq_def put_on_wire_def answered_def next_reply_def handle_reply_def

lemmas demo_job = process_inbox_job_def mark_preparing_def process_download_job_def prepare_download_def open_media_def claim_def
    is_cancelled_while_preparing_def start_job_def continue_main.simps

lemmas demo_chunk = chunk_arrived_def open_arrived_def read_reply_def after_landing_def tick_def set_done_def
    PROGRESS_FLUSH_MS_def PUSH_EVERY_MS_def demo_reply_def





section \<open>A waiter that is lost\<close>

text \<open>
  C28. Somebody who asks for a file in the window between the end of its preparation and the end of
  "preparing" is told that the file is queued and put among the waiters of a job that has already ended:
  when the file cannot be opened, the waiter stays in the table, unanswered, with no job to answer it.
\<close>

theorem lost_waiter:
  assumes "op_complete ops (mf_mxc m) w = None" "held (mf_mxc m) = None" "op_open ops m w = (w1, Inl e)"
  shows "let evs = [He_Enqueue m None, He_Process running (\<lambda>_. False) [(m, Some waiter)]];
       h = run_handler ops silence evs (handler_start me now held w) in
     dh_waiters h = [(mf_mxc m, waiter)] \<and> dh_outcomes h = [] \<and> has_job h = {}"
  using assms
  by (simp add: run_handler_def handler_act_def handler_start_def enqueue_here_def enqueue_into_def status_in_def
      emit_to_each_def demo_job release_def end_job_def take_audience_def tell_waiters_def requests_of_def has_job_def Let_def)

lemma lost_waiter_witness:
  "has_job (run_handler (demo_ops\<lparr>op_open := \<lambda>m w. ((), Inl Core_Io)\<rparr>) 60
      [He_Enqueue demo_manifest None, He_Process (\<lambda>_. False) (\<lambda>_. False) [(demo_manifest, Some 7)]] demo_begin) = {}"
  unfolding demo_begin_def using lost_waiter [of "demo_ops\<lparr>op_open := \<lambda>m w. ((), Inl Core_Io)\<rparr>" demo_manifest "()" Map.empty "()" Core_Io]
  by (simp add: demo_ops_def Let_def)

end
