(* ===== verification/Queue_System.thy ===== *)
theory Queue_System
  imports Download_Queue_Correct
begin

text \<open>
  The handlers of one server together: they share the claims and the disk, each step is one handler's, and
  what it did to the claims and the disk is what the others find.  Then the end of a handler.
\<close>

section \<open>One writer per file\<close>

definition share :: "('w, 'm) handler \<Rightarrow> ('w, 'm) handler \<Rightarrow> ('w, 'm) handler" where
  "share h0 h = h\<lparr>dh_claims := dh_claims h0, dh_world := dh_world h0\<rparr>"

definition in_turn :: "nat \<Rightarrow> ('w, 'm) handler \<Rightarrow> (nat \<Rightarrow> ('w, 'm) handler) \<Rightarrow> nat \<Rightarrow> ('w, 'm) handler" where
  "in_turn i h s = (\<lambda>j. if j = i then h else share h (s j))"

text \<open>\<open>drawn\<close> counts the numbers that each handler's line has drawn.\<close>

inductive together ::
    "('w, 'm) media_ops \<Rightarrow> nat \<Rightarrow> (nat \<Rightarrow> string) \<Rightarrow> nat \<Rightarrow> 'w \<Rightarrow> (nat \<Rightarrow> nat) \<Rightarrow> (nat \<Rightarrow> ('w, 'm) handler) \<Rightarrow> bool"
  for ops silence user now w where
  start: "together ops silence user now w (\<lambda>_. 0) (\<lambda>i. handler_start \<lparr>ch_user = user i, ch_handler = i\<rparr> now Map.empty w)"
| turn: "together ops silence user now w drawn s \<Longrightarrow> event_ok ev (s i) \<Longrightarrow> (\<And>held. ev \<noteq> He_Claims held) \<Longrightarrow>
    handler_do ops silence ev (s i) = Some h \<Longrightarrow>
    together ops silence user now w (drawn(i := drawn i + draws_by ev)) (in_turn i h s)"

definition all_ok :: "(nat \<Rightarrow> nat) \<Rightarrow> (nat \<Rightarrow> ('w, 'm) handler) \<Rightarrow> bool" where
  "all_ok drawn s \<longleftrightarrow>
     (\<forall>i. handler_ok i (2 ^ 31 - 1 - drawn i) (s i)) \<and> (\<forall>i j. dh_claims (s i) = dh_claims (s j))"

lemma own_of_others:
  assumes "others_claim i held' = others_claim i held" "j \<noteq> i"
  shows "own_claims j held' = own_claims j held"
proof (rule ext)
  fix mxc
  show "own_claims j held' mxc = own_claims j held mxc"
    using fun_cong [OF assms(1), of mxc] assms(2)
    by (auto simp: own_claims_def others_claim_def split: option.splits if_splits)
qed

text \<open>A step changes only the handler's own claims, and what others do to theirs leaves it in order.\<close>

lemma others_claim_step:
  assumes "handler_ok me (n + draws_by ev) h" "event_ok ev h" "\<And>held. ev \<noteq> He_Claims held"
    "handler_do ops silence ev h = Some h'"
  shows "others_claim me (dh_claims h') = others_claim me (dh_claims h)"
proof -
  obtain others where inv: "handler_inv \<lparr>du_numbers = n + draws_by ev, du_me = me, du_others = others,
      du_seeks = seeks_held h, du_waiters = waiters_held h\<rparr> {} {} h" using assms(1) by (auto simp: handler_ok_def)
  let ?du = "\<lparr>du_numbers = n, du_me = me, du_others = others, du_seeks = seeks_held h, du_waiters = waiters_held h\<rparr>"
  have "others_after ev others = others" using assms(3) by (cases ev) auto
  then have "handler_inv (?du\<lparr>du_seeks := seeks_held h + gets_of ev, du_waiters := waiters_held h + waiters_of ev\<rparr>) {} {} h'"
    using handler_do_inv [where du = ?du and n = n, OF _ assms(2,4)] inv by simp
  then show ?thesis using inv by (simp add: handler_inv_def claims_ok_def)
qed

lemma handler_ok_share:
  assumes "handler_ok me n h" "own_claims me (dh_claims h0) = own_claims me (dh_claims h)"
  shows "handler_ok me n (share h0 h)"
proof -
  obtain others where inv: "handler_inv \<lparr>du_numbers = n, du_me = me, du_others = others,
      du_seeks = seeks_held h, du_waiters = waiters_held h\<rparr> {} {} h" using assms(1) by (auto simp: handler_ok_def)
  then have "event_ok (He_Claims (dh_claims h0)) h" using assms(2) by (simp add: handler_inv_def)
  from claims_event_inv [OF inv this]
  have "handler_inv \<lparr>du_numbers = n, du_me = me, du_others = dh_claims h0, du_seeks = seeks_held h, du_waiters = waiters_held h\<rparr> {} {}
      (share h0 h)" by (simp add: share_def)
  moreover have "seeks_held (share h0 h) = seeks_held h" "waiters_held (share h0 h) = waiters_held h"
    by (simp_all add: share_def seeks_held_def waiters_held_def)
  ultimately show ?thesis unfolding handler_ok_def by (intro exI [of _ "dh_claims h0"]) simp
qed

lemma all_ok_turn:
  assumes ok: "all_ok drawn s" and ev: "event_ok ev (s i)" and no_claims: "\<And>held. ev \<noteq> He_Claims held"
    and run: "handler_do ops silence ev (s i) = Some h" and room: "drawn i + draws_by ev < 2 ^ 31"
  shows "all_ok (drawn(i := drawn i + draws_by ev)) (in_turn i h s)"
proof -
  have each: "handler_ok j (2 ^ 31 - 1 - drawn j) (s j)" for j using ok unfolding all_ok_def by blast
  have same: "dh_claims (s j) = dh_claims (s i)" for j using ok unfolding all_ok_def by blast
  define n where "n = 2 ^ 31 - 1 - (drawn i + draws_by ev)"
  have "2 ^ 31 - 1 - drawn i = n + draws_by ev" unfolding n_def using room by simp
  then have before: "handler_ok i (n + draws_by ev) (s i)" using each [of i] by (simp only:)
  have "handler_can ops silence ev (s i)" "handler_act ops silence ev (s i) = h"
    using ev run by (simp_all add: handler_can_def handler_act_def)
  then have mine: "handler_ok i n h" using handler_ok_step [OF before] by blast
  have theirs: "handler_ok j (2 ^ 31 - 1 - drawn j) (share h (s j))" if "j \<noteq> i" for j
    by (rule handler_ok_share [OF each])
      (use own_of_others [OF others_claim_step [OF before ev no_claims run] that] same [of j] in simp)
  show ?thesis unfolding all_ok_def
  proof (intro conjI allI)
    show "handler_ok j (2 ^ 31 - 1 - (drawn(i := drawn i + draws_by ev)) j) (in_turn i h s j)" for j
      using mine theirs [of j] by (cases "j = i") (simp_all add: in_turn_def n_def)
    show "dh_claims (in_turn i h s j) = dh_claims (in_turn i h s k)" for j k by (simp add: in_turn_def share_def)
  qed
qed

lemma together_ok: "together ops silence user now w drawn s \<Longrightarrow> (\<And>i. drawn i < 2 ^ 31) \<Longrightarrow> all_ok drawn s"
proof (induction rule: together.induct)
  case start
  show ?case unfolding all_ok_def
  proof (intro conjI allI)
    fix i
    show "handler_ok i (2 ^ 31 - 1 - 0) (handler_start \<lparr>ch_user = user i, ch_handler = i\<rparr> now Map.empty w)"
      using handler_start_ok [of "\<lparr>ch_user = user i, ch_handler = i\<rparr>" now Map.empty w] by simp
  qed (simp add: handler_start_def)
next
  case (turn drawn s ev i h)
  have "drawn j < 2 ^ 31" for j using turn.prems [of j] by (cases "j = i") auto
  then have "all_ok drawn s" by (rule turn.IH)
  then show ?case by (rule all_ok_turn [where i = i]) (use turn.hyps(2-4) turn.prems [of i] in simp_all)
qed

text \<open>
  C21. One writer per file.  However the handlers of a server take turns, with whatever their users ask,
  no file is open in two of them: each open file is claimed, for the server, by the handler that has it.
\<close>

theorem one_writer_per_file:
  assumes "together ops silence user now w drawn s" "\<And>i. drawn i < 2 ^ 31" "mxc \<in> keys (dh_open (s i))"
  shows "map_option ch_handler (dh_claims (s j) mxc) = Some i \<and> (j \<noteq> i \<longrightarrow> mxc \<notin> keys (dh_open (s j)))"
proof -
  have ok: "all_ok drawn s" by (rule together_ok [OF assms(1,2)])
  have mine: "\<exists>c. dh_claims (s k) x = Some c \<and> ch_handler c = k" if "x \<in> keys (dh_open (s k))" for k x
    using handler_okE [OF ok [unfolded all_ok_def, THEN conjunct1, rule_format, of k]] that by metis
  have same: "dh_claims (s j) = dh_claims (s i)" using ok unfolding all_ok_def by blast
  show ?thesis
  proof (intro conjI impI)
    show "map_option ch_handler (dh_claims (s j) mxc) = Some i" using mine [OF assms(3)] unfolding same by auto
    show "mxc \<notin> keys (dh_open (s j))" if "j \<noteq> i" using mine [OF assms(3)] mine [of mxc j] that unfolding same by fastforce
  qed
qed

text \<open>Two users want one file: the first opens it, the second hands its job over.\<close>

lemma one_writer_per_file_witness:
  "\<exists>drawn s. together demo_ops 60 (\<lambda>_. ''a'') 0 () drawn s \<and> ''mxc://s/1'' \<in> keys (dh_open (s 1))
     \<and> map_option ch_handler (dh_claims (s 2) ''mxc://s/1'') = Some 1 \<and> dh_open (s 2) = []"
proof -
  let ?T = "together demo_ops 60 (\<lambda>_. ''a'') 0 ()"
  let ?s0 = "\<lambda>i. handler_start \<lparr>ch_user = ''a'', ch_handler = i\<rparr> 0 Map.empty () :: (unit, u32) handler"
  let ?go = "\<lambda>ev i s. in_turn i (handler_act demo_ops 60 ev (s i)) s"
  have t0: "?T (\<lambda>_. 0) ?s0" by (rule together.start)
  have step: "?T (\<lambda>_. 0) (?go ev i s)" if "?T (\<lambda>_. 0) s" "handler_can demo_ops 60 ev (s i)" "\<And>held. ev \<noteq> He_Claims held"
    "draws_by ev = 0" for ev i and s :: "nat \<Rightarrow> (unit, u32) handler"
    using together.turn [OF that(1) _ that(3), of i "the (handler_do demo_ops 60 ev (s i))"] that(2,4)
    by (auto simp: handler_can_def handler_act_def Option.is_none_def fun_upd_idem)
  define s1 where "s1 = ?go (He_Enqueue demo_manifest (Some 7)) 1 ?s0"
  define s2 where "s2 = ?go (He_Process (\<lambda>_. True) (\<lambda>_. False) []) 1 s1"
  have t1: "?T (\<lambda>_. 0) s1" unfolding s1_def by (rule step [OF t0]) (simp_all add: demo_run)
  have h1: "s1 1 = handler_act demo_ops 60 (He_Enqueue demo_manifest (Some 7)) (?s0 1)" by (simp add: s1_def in_turn_def)
  have t2: "?T (\<lambda>_. 0) s2" unfolding s2_def by (rule step [OF t1]) (simp_all add: h1 [unfolded One_nat_def] demo_run demo_job)
  have o: "''mxc://s/1'' \<in> keys (dh_open (s2 1))" by (simp add: s2_def in_turn_def h1 [unfolded One_nat_def] demo_run demo_job)
  have "dh_open (s2 2) = []" by (simp add: s2_def s1_def in_turn_def share_def handler_start_def)
  moreover have "map_option ch_handler (dh_claims (s2 2) ''mxc://s/1'') = Some 1"
    using one_writer_per_file [OF t2 _ o, of 2] by simp
  ultimately show ?thesis using t2 o by blast
qed

section \<open>The end of a handler\<close>

lemma close_and_sync_fields [simp]:
  "dh_open (close_and_sync ops mxc h) = AList.delete mxc (dh_open h)"
  "dh_inbox (close_and_sync ops mxc h) = dh_inbox h" "dh_preparing (close_and_sync ops mxc h) = dh_preparing h"
  "dh_downloading (close_and_sync ops mxc h) = dh_downloading h" "dh_waiters (close_and_sync ops mxc h) = dh_waiters h"
  "dh_listeners (close_and_sync ops mxc h) = dh_listeners h" "dh_in_flight (close_and_sync ops mxc h) = dh_in_flight h"
  "dh_seek_answers (close_and_sync ops mxc h) = dh_seek_answers h" "dh_outcomes (close_and_sync ops mxc h) = dh_outcomes h"
  "dh_handed (close_and_sync ops mxc h) = dh_handed h" "dh_me (close_and_sync ops mxc h) = dh_me h"
  by (auto simp: close_and_sync_def take_open_def delete_absent map_of_eq_None_iff split: option.split)

lemma close_and_sync_claims:
  "dh_claims (close_and_sync ops mxc h) = (if mxc \<in> keys (dh_open h) then release (dh_claims h) mxc (dh_me h) else dh_claims h)"
proof (cases "map_of (dh_open h) mxc")
  case None
  then show ?thesis using map_of_eq_None_iff [of "dh_open h" mxc] by (simp add: close_and_sync_def take_open_def)
next
  case (Some x)
  then have "mxc \<in> keys (dh_open h)" by (force dest: map_of_SomeD)
  then show ?thesis using Some by (cases x) (simp add: close_and_sync_def take_open_def)
qed

lemma close_all_fields [simp]:
  "dh_inbox (fold (close_and_sync ops) xs h) = dh_inbox h" "dh_preparing (fold (close_and_sync ops) xs h) = dh_preparing h"
  "dh_downloading (fold (close_and_sync ops) xs h) = dh_downloading h" "dh_waiters (fold (close_and_sync ops) xs h) = dh_waiters h"
  "dh_listeners (fold (close_and_sync ops) xs h) = dh_listeners h" "dh_in_flight (fold (close_and_sync ops) xs h) = dh_in_flight h"
  "dh_seek_answers (fold (close_and_sync ops) xs h) = dh_seek_answers h" "dh_outcomes (fold (close_and_sync ops) xs h) = dh_outcomes h"
  "dh_handed (fold (close_and_sync ops) xs h) = dh_handed h" "dh_me (fold (close_and_sync ops) xs h) = dh_me h"
  by (induction xs arbitrary: h) simp_all

lemma close_all_open: "keys (dh_open (fold (close_and_sync ops) xs h)) = keys (dh_open h) - set xs"
  by (induction xs arbitrary: h) (auto simp: keys_delete)

lemma release_gone: "held x = None \<Longrightarrow> release held mxc me x = None"
  by (auto simp: release_def split: option.split)

lemma close_all_claims_gone: "dh_claims h x = None \<Longrightarrow> dh_claims (fold (close_and_sync ops) xs h) x = None"
  by (induction xs arbitrary: h) (simp_all add: close_and_sync_claims release_gone)

lemma close_all_claims:
  assumes "\<forall>x\<in>keys (dh_open h). \<exists>c. dh_claims h x = Some c \<and> ch_handler c = ch_handler (dh_me h)" "x \<in> keys (dh_open h)" "x \<in> set xs"
  shows "dh_claims (fold (close_and_sync ops) xs h) x = None"
  using assms
proof (induction xs arbitrary: h)
  case (Cons y xs)
  show ?case
  proof (cases "y = x")
    case True
    have "dh_claims (close_and_sync ops x h) x = None" using Cons.prems(1,2) by (force simp: close_and_sync_claims release_def)
    then show ?thesis using True by (simp add: close_all_claims_gone)
  next
    case False
    have "\<forall>z\<in>keys (dh_open (close_and_sync ops y h)). \<exists>c. dh_claims (close_and_sync ops y h) z = Some c
        \<and> ch_handler c = ch_handler (dh_me (close_and_sync ops y h))"
      using Cons.prems(1) by (auto simp: keys_delete close_and_sync_claims release_def split: option.split)
    then show ?thesis using Cons.IH [of "close_and_sync ops y h"] Cons.prems False by (simp add: keys_delete)
  qed
qed simp

lemma answer_waitings_held:
  "image_mset fst (mset (dh_seek_answers (fold (answer_waiting f) ws h))) = image_mset fst (mset (dh_seek_answers h)) + seek_tokens ws"
  "dh_outcomes (fold (answer_waiting f) ws h) = dh_outcomes h" "dh_handed (fold (answer_waiting f) ws h) = dh_handed h"
  "dh_claims (fold (answer_waiting f) ws h) = dh_claims h" "dh_waiters (fold (answer_waiting f) ws h) = dh_waiters h"
  by (induction ws arbitrary: h rule: seek_tokens.induct) (simp_all add: answer_seek_def)

lemma answer_flight_held:
  "image_mset fst (mset (dh_seek_answers (fold (\<lambda>(r, e). answer_waiting_gone (fl_waiters e)) fl h)))
     = image_mset fst (mset (dh_seek_answers h)) + flight_tokens fl"
  "dh_outcomes (fold (\<lambda>(r, e). answer_waiting_gone (fl_waiters e)) fl h) = dh_outcomes h"
  "dh_handed (fold (\<lambda>(r, e). answer_waiting_gone (fl_waiters e)) fl h) = dh_handed h"
  "dh_claims (fold (\<lambda>(r, e). answer_waiting_gone (fl_waiters e)) fl h) = dh_claims h"
  "dh_open (fold (\<lambda>(r, e). answer_waiting_gone (fl_waiters e)) fl h) = dh_open h"
  by (induction fl arbitrary: h) (simp_all add: answer_waiting_gone_def answer_waitings_held case_prod_unfold)

lemma emit_all_fields:
  "dh_seek_answers (fold (\<lambda>x. emit_to_each (f x) u (g x)) xs h) = dh_seek_answers h"
  "dh_outcomes (fold (\<lambda>x. emit_to_each (f x) u (g x)) xs h) = dh_outcomes h"
  "dh_handed (fold (\<lambda>x. emit_to_each (f x) u (g x)) xs h) = dh_handed h"
  "dh_claims (fold (\<lambda>x. emit_to_each (f x) u (g x)) xs h) = dh_claims h"
  "dh_in_flight (fold (\<lambda>x. emit_to_each (f x) u (g x)) xs h) = dh_in_flight h"
  "dh_open (fold (\<lambda>x. emit_to_each (f x) u (g x)) xs h) = dh_open h"
  by (induction xs arbitrary: h) (simp_all add: emit_to_each_def)

lemma stop_handler_held:
  "mset (map fst (dh_seek_answers (stop_handler ops h))) = seeks_held h"
  "mset (map fst (dh_outcomes (stop_handler ops h))) + handed_waiters (dh_handed (stop_handler ops h)) = waiters_held h"
  "keys (dh_open (stop_handler ops h)) = {}"
  "dh_claims (stop_handler ops h) = dh_claims (fold (close_and_sync ops) (map fst (dh_open h)) (h\<lparr>dh_stopped := True\<rparr>))"
proof -
  have firsts: "map fst (map (\<lambda>(_, w). (w, r)) xs) = map snd xs" for xs :: "(string \<times> nat) list" and r :: "core_error_kind + unit"
    by (simp add: case_prod_unfold comp_def)
  show "mset (map fst (dh_seek_answers (stop_handler ops h))) = seeks_held h"
    "mset (map fst (dh_outcomes (stop_handler ops h))) + handed_waiters (dh_handed (stop_handler ops h)) = waiters_held h"
    "keys (dh_open (stop_handler ops h)) = {}"
    "dh_claims (stop_handler ops h) = dh_claims (fold (close_and_sync ops) (map fst (dh_open h)) (h\<lparr>dh_stopped := True\<rparr>))"
    unfolding stop_handler_def close_everything_def Let_def
    by (simp_all add: answer_flight_held emit_all_fields tell_waiters_def close_all_open seeks_held_def waiters_held_def
        firsts ac_simps del: map_map)
qed



end
