(* ===== verification/Text_Ops.thy ===== *)
theory Text_Ops
  imports Media_Files
begin

text \<open>
  Rust's operations on text: a \<open>String\<close> is the list of its UTF-8 bytes, one \<open>char\<close> each, so slices and
  lengths count bytes as in Rust.  Only ASCII text is trimmed here (header values, Base58).  Then
  \<open>crates/wbf-sdk/src/local_source.rs\<close>: where on this machine a \<open>file://\<close> URI points.
\<close>

section \<open>Text and bytes\<close>

definition as_bytes :: "string \<Rightarrow> bytes" where
  "as_bytes s = map (\<lambda>c. of_nat (of_char c)) s"

definition of_bytes :: "bytes \<Rightarrow> string" where
  "of_bytes bs = map (\<lambda>b. char_of (unat b)) bs"

text \<open>Well-formed UTF-8: no overlong forms, no surrogates, nothing above \<open>U+10FFFF\<close>.\<close>

definition is_continuation :: "byte \<Rightarrow> bool" where
  "is_continuation b \<longleftrightarrow> 0x80 \<le> b \<and> b \<le> 0xBF"

fun is_utf8 :: "bytes \<Rightarrow> bool" where
  "is_utf8 [] \<longleftrightarrow> True"
| "is_utf8 [a] \<longleftrightarrow> a < 0x80"
| "is_utf8 [a, b] \<longleftrightarrow>
     (if a < 0x80 then is_utf8 [b] else 0xC2 \<le> a \<and> a \<le> 0xDF \<and> is_continuation b)"
| "is_utf8 [a, b, c] \<longleftrightarrow>
     (if a < 0x80 then is_utf8 [b, c]
      else if a \<le> 0xDF then 0xC2 \<le> a \<and> is_continuation b \<and> is_utf8 [c]
      else a \<le> 0xEF \<and> is_continuation b \<and> is_continuation c \<and> (a = 0xE0 \<longrightarrow> 0xA0 \<le> b) \<and> (a = 0xED \<longrightarrow> b \<le> 0x9F))"
| "is_utf8 (a # b # c # d # bs) \<longleftrightarrow>
     (if a < 0x80 then is_utf8 (b # c # d # bs)
      else if a \<le> 0xDF then 0xC2 \<le> a \<and> is_continuation b \<and> is_utf8 (c # d # bs)
      else if a \<le> 0xEF then
        is_continuation b \<and> is_continuation c \<and> (a = 0xE0 \<longrightarrow> 0xA0 \<le> b) \<and> (a = 0xED \<longrightarrow> b \<le> 0x9F) \<and> is_utf8 (d # bs)
      else a \<le> 0xF4 \<and> is_continuation b \<and> is_continuation c \<and> is_continuation d
        \<and> (a = 0xF0 \<longrightarrow> 0x90 \<le> b) \<and> (a = 0xF4 \<longrightarrow> b \<le> 0x8F) \<and> is_utf8 bs)"

definition from_utf8 :: "bytes \<Rightarrow> string option" where
  "from_utf8 bs = (if is_utf8 bs then Some (of_bytes bs) else None)"

section \<open>Cutting text\<close>

definition is_ascii_space :: "char \<Rightarrow> bool" where
  "is_ascii_space c \<longleftrightarrow> c = CHR '' '' \<or> 9 \<le> (of_char c :: nat) \<and> (of_char c :: nat) \<le> 13"

definition trim :: "string \<Rightarrow> string" where
  "trim s = rev (dropWhile is_ascii_space (rev (dropWhile is_ascii_space s)))"

text \<open>\<open>str::split_once\<close> and \<open>split(..).next()\<close> at a character.\<close>

definition split_once :: "char \<Rightarrow> string \<Rightarrow> (string \<times> string) option" where
  "split_once c s =
     (if c \<in> set s then Some (takeWhile (\<lambda>x. x \<noteq> c) s, tl (dropWhile (\<lambda>x. x \<noteq> c) s)) else None)"

definition before_any :: "char list \<Rightarrow> string \<Rightarrow> string" where
  "before_any cs s = takeWhile (\<lambda>x. x \<notin> set cs) s"

text \<open>\<open>str::parse\<close> of an unsigned number: one plus sign may come first.\<close>

definition parse_unsigned :: "nat \<Rightarrow> string \<Rightarrow> nat option" where
  "parse_unsigned limit s =
     (let ds = (case s of c # rest \<Rightarrow> if c = CHR ''+'' then rest else s | [] \<Rightarrow> [])
      in if ds \<noteq> [] \<and> list_all is_ascii_digit ds \<and> digits_value ds < limit then Some (digits_value ds) else None)"

definition hex_digit :: "char \<Rightarrow> nat option" where
  "hex_digit c =
     (let n = (of_char (ascii_lower c) :: nat)
      in if 48 \<le> n \<and> n \<le> 57 then Some (n - 48) else if 97 \<le> n \<and> n \<le> 102 then Some (n - 87) else None)"

text \<open>\<open>u8::from_str_radix(_, 16)\<close> of two characters: it also takes a plus sign and one digit.\<close>

definition u8_from_hex :: "char \<Rightarrow> char \<Rightarrow> byte option" where
  "u8_from_hex a b =
     (case hex_digit b of
        None \<Rightarrow> None
      | Some low \<Rightarrow>
          if a = CHR ''+'' then Some (of_nat low)
          else map_option (\<lambda>high. of_nat (16 * high + low)) (hex_digit a))"

section \<open>Local sources\<close>

fun percent_bytes :: "string \<Rightarrow> bytes option" where
  "percent_bytes [] = Some []"
| "percent_bytes (c # s) =
     (if c = CHR ''%'' then
        (case s of
           a # b # rest \<Rightarrow>
             (case u8_from_hex a b of None \<Rightarrow> None | Some byte \<Rightarrow> map_option ((#) byte) (percent_bytes rest))
         | _ \<Rightarrow> None)
      else map_option ((#) (of_nat (of_char c))) (percent_bytes s))"

definition percent_decode :: "string \<Rightarrow> string option" where
  "percent_decode s = Option.bind (percent_bytes s) from_utf8"

definition is_ascii_alphabetic :: "char \<Rightarrow> bool" where
  "is_ascii_alphabetic c \<longleftrightarrow> (let n = (of_char (ascii_lower c) :: nat) in 97 \<le> n \<and> n \<le> 122)"

definition is_slash_drive :: "string \<Rightarrow> bool" where
  "is_slash_drive path =
     (case path of
        a # letter # c # rest \<Rightarrow>
          a = CHR ''/'' \<and> is_ascii_alphabetic letter \<and> c = CHR '':'' \<and> (rest = [] \<or> hd rest = CHR ''/'')
      | _ \<Rightarrow> False)"

definition URI_SCHEME :: string where "URI_SCHEME = ''file://''"

definition file_uri_to_path_text :: "string \<Rightarrow> bool \<Rightarrow> string option" where
  "file_uri_to_path_text uri windows =
     (if length uri < length URI_SCHEME \<or> \<not> eq_ignore_ascii_case (take (length URI_SCHEME) uri) URI_SCHEME then None
      else
        let without_suffix = before_any [CHR ''?'', CHR ''#''] (drop (length URI_SCHEME) uri);
            host = before_any [CHR ''/''] without_suffix;
            encoded_path = drop (length host) without_suffix
        in if CHR ''/'' \<notin> set without_suffix then None
           else if host \<noteq> [] \<and> \<not> eq_ignore_ascii_case host ''localhost'' then None
           else case percent_decode encoded_path of
             None \<Rightarrow> None
           | Some path \<Rightarrow>
               if char_of (0 :: nat) \<in> set path then None
               else if length path \<ge> 2 \<and> path ! 0 = CHR ''/'' \<and> (path ! 1 = CHR ''/'' \<or> path ! 1 = char_of (92 :: nat)) then None
               else if windows \<and> is_slash_drive path then Some (drop 1 path)
               else Some path)"

section \<open>Facts\<close>

lemma as_bytes_of_bytes: "as_bytes (of_bytes bs) = bs"
proof -
  have "of_nat (of_char (char_of (unat b) :: char)) = b" for b :: byte
  proof -
    have "unat b < 256" using unsigned_less [of b] by simp
    then show ?thesis by (simp add: of_char_of)
  qed
  then show ?thesis by (simp add: as_bytes_def of_bytes_def comp_def map_idI)
qed

lemma of_bytes_as_bytes: "of_bytes (as_bytes s) = s"
proof -
  have "(char_of (unat (of_nat (of_char c) :: byte)) :: char) = c" for c
  proof -
    have "of_char c mod (256 :: nat) < 256" by simp
    then have "(of_char c :: nat) < 256" by (simp only: of_char_mod_256)
    then show ?thesis by (simp add: unat_of_nat)
  qed
  then show ?thesis by (simp add: as_bytes_def of_bytes_def comp_def map_idI)
qed

lemma split_once_Some:
  "split_once c s = Some (a, b) \<longleftrightarrow> s = a @ c # b \<and> c \<notin> set a"
proof
  assume l: "split_once c s = Some (a, b)"
  then have c: "c \<in> set s" and a: "a = takeWhile (\<lambda>x. x \<noteq> c) s" and b: "b = tl (dropWhile (\<lambda>x. x \<noteq> c) s)"
    by (auto simp: split_once_def split: if_splits)
  have d: "dropWhile (\<lambda>x. x \<noteq> c) s \<noteq> []" using c by (auto simp: dropWhile_eq_Nil_conv)
  then have "hd (dropWhile (\<lambda>x. x \<noteq> c) s) = c" using hd_dropWhile [of "\<lambda>x. x \<noteq> c" s] by auto
  then have "dropWhile (\<lambda>x. x \<noteq> c) s = c # b" using d by (cases "dropWhile (\<lambda>x. x \<noteq> c) s") (simp_all add: b)
  then show "s = a @ c # b \<and> c \<notin> set a" using takeWhile_dropWhile_id [of "\<lambda>x. x \<noteq> c" s] a set_takeWhileD by force
next
  assume "s = a @ c # b \<and> c \<notin> set a"
  then show "split_once c s = Some (a, b)"
    by (auto simp: split_once_def takeWhile_append dropWhile_append)
qed

lemma strip_prefix_Some: "strip_prefix p s = Some r \<longleftrightarrow> s = p @ r"
  by (auto simp: strip_prefix_def) (metis append_take_drop_id)

end
