(* ===== verification/Media_Serve.thy ===== *)
theory Media_Serve
  imports Text_Ops Download_Queue
begin

text \<open>
  \<open>crates/wbf-core/src/media_stream.rs\<close>: the plaintext of one range, read piece by piece from a local file,
  a complete pool file, or whoever downloads the file.  Positions are natural numbers: nothing is added to
  them that could pass the end of the range.
\<close>

section \<open>Sources\<close>

text \<open>An open file of the operating system: a read gives at least one byte, and may give fewer than asked.\<close>

record local_file =
  lf_bytes :: bytes
  lf_position :: nat
  lf_most :: "nat \<Rightarrow> nat"

definition local_read :: "local_file \<Rightarrow> nat \<Rightarrow> sdk_error + local_file \<times> bytes" where
  "local_read f n =
     (let piece = take (min n (Suc (lf_most f (lf_position f)))) (drop (lf_position f) (lf_bytes f))
      in Inr (f\<lparr>lf_position := lf_position f + length piece\<rparr>, piece))"

definition local_seek :: "local_file \<Rightarrow> nat \<Rightarrow> sdk_error + local_file" where
  "local_seek f p = Inr (f\<lparr>lf_position := p\<rparr>)"

definition pool_seek :: "pool_reader \<Rightarrow> nat \<Rightarrow> sdk_error + pool_reader" where
  "pool_seek r p = reader_seek r (From_Start p)"

definition PIECE :: nat where "PIECE = 64 * 1024"

text \<open>\<open>Asked\<close>: the chunks and the traditional transfers, whose pieces others read.\<close>

datatype origin = Local local_file | Pool pool_reader | Asked

record media_source =
  so_size :: u64
  so_mimetype :: "string option"
  so_kind :: media_kind
  so_verified :: verification
  so_origin :: origin

record media_stream =
  st_origin :: origin
  st_position :: nat
  st_end :: nat

definition is_trusted :: "media_source \<Rightarrow> bool" where
  "is_trusted s \<longleftrightarrow>
     (case so_origin s of Local f \<Rightarrow> True | _ \<Rightarrow> False) \<or> \<not> is_trust_gated_on_hash (so_kind s) \<or> so_verified s = Matched"

definition into_stream :: "media_source \<Rightarrow> nat \<Rightarrow> nat \<Rightarrow> media_stream" where
  "into_stream s start end_pos = \<lparr>st_origin = so_origin s, st_position = start, st_end = min end_pos (unat (so_size s))\<rparr>"

section \<open>Reading\<close>

lemma less_left: "piece \<noteq> [] \<Longrightarrow> n < m \<Longrightarrow> m - (n + length piece) < m - n"
  by (cases piece) auto

lemma take_of_taken: "take (length (take k xs)) xs = take k xs"
  by (cases "k \<le> length xs") auto

text \<open>Reads until \<open>goal\<close> bytes are there or the source ends.\<close>

function fill_up :: "('r \<Rightarrow> nat \<Rightarrow> sdk_error + 'r \<times> bytes) \<Rightarrow> 'r \<Rightarrow> nat \<Rightarrow> bytes \<Rightarrow> sdk_error + 'r \<times> bytes" where
  "fill_up rd r goal out =
     (if length out < goal then
        case rd r (goal - length out) of
          Inl e \<Rightarrow> Inl e
        | Inr (r1, piece) \<Rightarrow> if piece = [] then Inr (r1, out) else fill_up rd r1 goal (out @ piece)
      else Inr (r, out))"
  by pat_completeness auto
termination by (relation "measure (\<lambda>(rd, r, goal, out). goal - length out)") (auto simp: less_left)

declare fill_up.simps [simp del]

definition read_at ::
    "('r \<Rightarrow> nat \<Rightarrow> sdk_error + 'r) \<Rightarrow> ('r \<Rightarrow> nat \<Rightarrow> sdk_error + 'r \<times> bytes) \<Rightarrow> 'r \<Rightarrow> nat \<Rightarrow> nat
      \<Rightarrow> core_error_kind + 'r \<times> bytes" where
  "read_at seek rd r position goal =
     map_err core_of_sdk_error (rbind (seek r position) (\<lambda>r1. fill_up rd r1 goal []))"

text \<open>The part of a piece that somebody read that the range still wants.\<close>

definition cut_piece :: "nat \<Rightarrow> nat \<Rightarrow> seek_piece \<Rightarrow> core_error_kind + bytes" where
  "cut_piece position end_pos piece =
     (if position < sp_start piece \<or> length (sp_plain piece) \<le> position - sp_start piece then Inl Core_Integrity
      else Inr (case get_range (sp_plain piece) (position - sp_start piece)
                       (min (end_pos - sp_start piece) (length (sp_plain piece))) of
                  None \<Rightarrow> [] | Some bs \<Rightarrow> bs))"

text \<open>\<open>answer\<close> is what the downloader, or the transfer, would answer at this moment.\<close>

definition next_piece ::
    "pool_lib \<Rightarrow> (nat \<Rightarrow> core_error_kind + seek_piece) \<Rightarrow> media_stream \<Rightarrow> core_error_kind + (bytes \<times> media_stream) option" where
  "next_piece L answer s =
     (if st_position s \<ge> st_end s then Inr None
      else
        let goal = min (st_end s - st_position s) PIECE in
        rbind
          (case st_origin s of
             Local f \<Rightarrow> rbind (read_at local_seek local_read f (st_position s) goal) (\<lambda>(f1, piece). Inr (Local f1, piece))
           | Pool r \<Rightarrow> rbind (read_at pool_seek (reader_read L) r (st_position s) goal) (\<lambda>(r1, piece). Inr (Pool r1, piece))
           | Asked \<Rightarrow>
               rbind (answer (st_position s)) (\<lambda>piece.
               rbind (cut_piece (st_position s) (st_end s) piece) (\<lambda>bs. Inr (Asked, bs))))
          (\<lambda>(origin, piece).
             if piece = [] then Inl Core_Io
             else Inr (Some (piece, s\<lparr>st_origin := origin, st_position := st_position s + length piece\<rparr>))))"

text \<open>
  \<open>stream_body\<close> of \<open>crates/wbf-daemon/src/data_plane.rs\<close>: the frames of the body, and the error that cuts
  it off; \<open>answers k\<close> is what would be answered when \<open>k\<close> pieces have been sent.
\<close>

function stream_body ::
    "pool_lib \<Rightarrow> (nat \<Rightarrow> nat \<Rightarrow> core_error_kind + seek_piece) \<Rightarrow> nat \<Rightarrow> media_stream
      \<Rightarrow> bytes list \<times> core_error_kind option" where
  "stream_body L answers k s =
     (case next_piece L (answers k) s of
        Inl e \<Rightarrow> ([], Some e)
      | Inr None \<Rightarrow> ([], None)
      | Inr (Some (piece, s1)) \<Rightarrow>
          (case stream_body L answers (Suc k) s1 of (frames, e) \<Rightarrow> (piece # frames, e)))"
  by pat_completeness auto
termination
  by (relation "measure (\<lambda>(L, answers, k, s). st_end s - st_position s)")
    (auto simp: next_piece_def Let_def rbind_eq_Inr less_left split: if_splits)

declare stream_body.simps [simp del]

section \<open>Sources that hold a plaintext\<close>

text \<open>
  What the stream relies on of a source: \<open>holds r xs p\<close> says that it reads \<open>xs\<close> from position \<open>p\<close>; a seek
  goes anywhere, and a read gives a piece of \<open>xs\<close>, which is empty only at the end.
\<close>

locale byte_source =
  fixes rd :: "'r \<Rightarrow> nat \<Rightarrow> sdk_error + 'r \<times> bytes" and seek :: "'r \<Rightarrow> nat \<Rightarrow> sdk_error + 'r"
    and holds :: "'r \<Rightarrow> bytes \<Rightarrow> nat \<Rightarrow> bool"
  assumes seek_ok: "holds r xs p \<Longrightarrow> \<exists>r'. seek r q = Inr r' \<and> holds r' xs q"
    and read_ok: "holds r xs p \<Longrightarrow> 0 < n \<Longrightarrow>
      \<exists>r' k. rd r n = Inr (r', take k (drop p xs)) \<and> k \<le> n \<and> (p < length xs \<longrightarrow> 0 < k)
        \<and> holds r' xs (p + length (take k (drop p xs)))"
begin

lemma fill_up_ok:
  assumes "holds r xs (p + length out)" "out = take (length out) (drop p xs)" "length out \<le> goal"
  shows "\<exists>r' q. fill_up rd r goal out = Inr (r', take goal (drop p xs)) \<and> holds r' xs q"
  using assms
proof (induction "goal - length out" arbitrary: r out rule: less_induct)
  case less
  show ?case
  proof (cases "length out < goal")
    case True
    obtain r1 k where r1: "rd r (goal - length out) = Inr (r1, take k (drop (p + length out) xs))"
      and k: "k \<le> goal - length out" "p + length out < length xs \<longrightarrow> 0 < k"
      and h1: "holds r1 xs (p + length out + length (take k (drop (p + length out) xs)))"
      using read_ok [OF less.prems(1)] True by (metis zero_less_diff)
    let ?piece = "take k (drop (p + length out) xs)"
    show ?thesis
    proof (cases "?piece = []")
      case True
      then have "length xs \<le> p + length out" using k by auto
      then have "take goal (drop p xs) = out" using less.prems(2,3) by (metis drop_drop drop_eq_Nil take_all_iff length_drop
            add.commute le_diff_conv order.trans take_take min_absorb2 nat_le_linear min_def)
      then show ?thesis using \<open>length out < goal\<close> r1 True h1 by (subst fill_up.simps) auto
    next
      case False
      have len: "length out + length ?piece \<le> goal" using k(1) True by simp
      have glue: "out @ ?piece = take (length (out @ ?piece)) (drop p xs)"
      proof -
        have "?piece = take (length ?piece) (drop (length out) (drop p xs))"
          unfolding drop_drop add.commute [of "length out"] take_of_taken ..
        then have "out @ ?piece = take (length out) (drop p xs) @ take (length ?piece) (drop (length out) (drop p xs))"
          using less.prems(2) by simp
        also have "\<dots> = take (length out + length ?piece) (drop p xs)" by (rule take_add [symmetric])
        finally show ?thesis unfolding length_append .
      qed
      have "\<exists>r' q. fill_up rd r1 goal (out @ ?piece) = Inr (r', take goal (drop p xs)) \<and> holds r' xs q"
      proof (rule less.hyps)
        show "goal - length (out @ ?piece) < goal - length out" using False True by (simp only: length_append) (cases ?piece; simp)
        show "holds r1 xs (p + length (out @ ?piece))" using h1 by (simp add: add.assoc)
        show "length (out @ ?piece) \<le> goal" using len by simp
      qed (rule glue)
      then show ?thesis using True r1 False by (subst fill_up.simps) simp
    qed
  next
    case False
    then have "length out = goal" using less.prems(3) by simp
    then show ?thesis using False less.prems(1,2) by (subst fill_up.simps) auto
  qed
qed

lemma read_at_ok:
  assumes "holds r xs p"
  shows "\<exists>r' q'. read_at seek rd r q goal = Inr (r', take goal (drop q xs)) \<and> holds r' xs q'"
proof -
  obtain r1 where r1: "seek r q = Inr r1" "holds r1 xs q" using seek_ok [OF assms] by blast
  obtain r' q' where "fill_up rd r1 goal [] = Inr (r', take goal (drop q xs))" "holds r' xs q'"
    using fill_up_ok [of r1 xs q "[]" goal] r1 by auto
  then show ?thesis using r1 unfolding read_at_def by (intro exI [of _ r'] exI [of _ q']) simp
qed

end

interpretation local: byte_source local_read local_seek "\<lambda>f xs p. lf_bytes f = xs \<and> lf_position f = p"
proof unfold_locales
  fix f :: local_file and xs p and n :: nat
  assume h: "lf_bytes f = xs \<and> lf_position f = p" and n: "0 < n"
  show "\<exists>r' k. local_read f n = Inr (r', take k (drop p xs)) \<and> k \<le> n \<and> (p < length xs \<longrightarrow> 0 < k)
      \<and> lf_bytes r' = xs \<and> lf_position r' = p + length (take k (drop p xs))"
    using h n by (intro exI [of _ "f\<lparr>lf_position := p + length (take (min n (Suc (lf_most f p))) (drop p xs))\<rparr>"]
        exI [of _ "min n (Suc (lf_most f p))"]) (simp add: local_read_def Let_def)
qed (simp add: local_seek_def)


interpretation pool: byte_source "reader_read L" pool_seek "\<lambda>r xs p. reader_inv L r xs \<and> pr_position r = p" for L
proof unfold_locales
  fix r xs p and n :: nat
  assume h: "reader_inv L r xs \<and> pr_position r = p" and n: "0 < n"
  define k where "k = read_size (seg_size (pr_header r)) (length xs) p n"
  obtain r' where r': "reader_read L r n = Inr (r', take k (drop p xs))" "reader_inv L r' xs" "pr_position r' = p + k"
    using reader_read_inv [of L r xs k n] h unfolding k_def by blast
  have c: "0 < seg_size (pr_header r)" using h by (auto simp: reader_inv_def seg_size_pos)
  have "k \<le> n" "k \<le> length xs - p" by (simp_all add: k_def read_size_def)
  moreover have "p < length xs \<longrightarrow> 0 < k" using read_size_pos [OF c _ n] by (simp add: k_def)
  ultimately show "\<exists>r' k. reader_read L r n = Inr (r', take k (drop p xs)) \<and> k \<le> n \<and> (p < length xs \<longrightarrow> 0 < k)
      \<and> reader_inv L r' xs \<and> pr_position r' = p + length (take k (drop p xs))"
    using r' by (intro exI [of _ r'] exI [of _ k]) (simp add: min_def)
next
  fix r xs p q
  assume "reader_inv L r xs \<and> pr_position r = p"
  then show "\<exists>r'. pool_seek r q = Inr r' \<and> reader_inv L r' xs \<and> pr_position r' = q"
    by (intro exI [of _ "r\<lparr>pr_position := q\<rparr>"]) (simp add: pool_seek_def reader_seek_def reader_inv_def)
qed

section \<open>A range, whole and right\<close>

text \<open>A source serves \<open>xs\<close>: a file that has it, or answers that are pieces of it and cover what was asked.\<close>

definition serves :: "pool_lib \<Rightarrow> (nat \<Rightarrow> nat \<Rightarrow> core_error_kind + seek_piece) \<Rightarrow> origin \<Rightarrow> bytes \<Rightarrow> bool" where
  "serves L answers origin xs \<longleftrightarrow>
     (case origin of
        Local f \<Rightarrow> lf_bytes f = xs
      | Pool r \<Rightarrow> reader_inv L r xs
      | Asked \<Rightarrow>
          \<forall>k p. p < length xs \<longrightarrow>
            (\<exists>start len. answers k p = Inr \<lparr>sp_start = start, sp_plain = take len (drop start xs)\<rparr> \<and> start \<le> p \<and> p < start + len))"

lemma cut_piece_ok:
  assumes "start \<le> p" "p < start + len" "p < length xs" "p < e"
  shows "\<exists>n. cut_piece p e \<lparr>sp_start = start, sp_plain = take len (drop start xs)\<rparr> = Inr (take n (drop p xs)) \<and> 0 < n \<and> p + n \<le> e"
proof -
  let ?plain = "take len (drop start xs)"
  let ?to = "min (e - start) (length ?plain)"
  have to: "p - start < ?to" "?to \<le> length ?plain"
    using assms unfolding length_take length_drop by linarith+
  have fits: "?to - (p - start) \<le> len - (p - start)" by (intro diff_le_mono) (simp add: min.coboundedI2)
  have "drop (p - start) ?plain = take (len - (p - start)) (drop p xs)"
    using assms(1) by (simp only: drop_take drop_drop le_add_diff_inverse le_add_diff_inverse2 add.commute)
  then have "take (?to - (p - start)) (drop (p - start) ?plain) = take (?to - (p - start)) (drop p xs)"
    using fits by (simp only: take_take min.absorb1)
  moreover have "\<not> (p < start \<or> length ?plain \<le> p - start)" "p - start \<le> ?to \<and> ?to \<le> length ?plain"
    using to assms(1) by linarith+
  ultimately have "cut_piece p e \<lparr>sp_start = start, sp_plain = ?plain\<rparr> = Inr (take (?to - (p - start)) (drop p xs))"
    unfolding cut_piece_def get_range_def seek_piece.simps by (simp only: if_False if_True option.case simp_thms)
  moreover have "p + (?to - (p - start)) \<le> e" using to assms by linarith
  ultimately show ?thesis using to by (intro exI [of _ "?to - (p - start)"]) simp
qed

lemma next_piece_serves:
  assumes srv: "serves L answers (st_origin s) xs" and todo: "st_position s < st_end s" "st_end s \<le> length xs"
  obtains piece o' where "next_piece L (answers k) s = Inr (Some (piece, s\<lparr>st_origin := o', st_position := st_position s + length piece\<rparr>))"
    "piece = take (length piece) (drop (st_position s) xs)" "piece \<noteq> []" "st_position s + length piece \<le> st_end s"
    "serves L answers o' xs"
proof -
  define p e where "p = st_position s" and "e = st_end s"
  define g where "g = min (e - p) PIECE"
  have g: "0 < g" "p + g \<le> e" "p + g \<le> length xs" using todo by (auto simp: PIECE_def g_def p_def e_def)
  define piece where "piece = take g (drop p xs)"
  have piece: "length piece = g" "piece = take (length piece) (drop p xs)" "piece \<noteq> []"
    using g by (auto simp: piece_def)
  have nxt: "next_piece L (answers k) s = Inr (Some (bs, s\<lparr>st_origin := o', st_position := p + length bs\<rparr>))"
    if "(case st_origin s of
             Local f \<Rightarrow> rbind (read_at local_seek local_read f p g) (\<lambda>(f1, piece). Inr (Local f1, piece))
           | Pool r \<Rightarrow> rbind (read_at pool_seek (reader_read L) r p g) (\<lambda>(r1, piece). Inr (Pool r1, piece))
           | Asked \<Rightarrow>
               rbind (answers k p) (\<lambda>piece. rbind (cut_piece p e piece) (\<lambda>bs. Inr (Asked, bs)))) = Inr (o', bs)" "bs \<noteq> []" for o' bs
    using that todo unfolding next_piece_def Let_def g_def p_def e_def by simp
  show ?thesis
  proof (cases "st_origin s")
    case (Local f)
    then have "lf_bytes f = xs \<and> lf_position f = lf_position f" using srv by (simp add: serves_def)
    from local.read_at_ok [OF this, of p g] obtain f1 where
      f1: "read_at local_seek local_read f p g = Inr (f1, piece)" "lf_bytes f1 = xs" unfolding piece_def by blast
    show ?thesis
      by (rule that [of piece "Local f1", folded p_def e_def, OF nxt])
        (use Local f1 piece g in \<open>simp_all add: serves_def\<close>)
  next
    case (Pool r)
    then have "reader_inv L r xs \<and> pr_position r = pr_position r" using srv by (simp add: serves_def)
    from pool.read_at_ok [OF this, of p g] obtain r1 where
      r1: "read_at pool_seek (reader_read L) r p g = Inr (r1, piece)" "reader_inv L r1 xs" unfolding piece_def by blast
    show ?thesis
      by (rule that [of piece "Pool r1", folded p_def e_def, OF nxt])
        (use Pool r1 piece g in \<open>simp_all add: serves_def\<close>)
  next
    case Asked
    have "p < length xs" "p < e" using todo by (simp_all add: p_def e_def)
    then obtain start len where a: "answers k p = Inr \<lparr>sp_start = start, sp_plain = take len (drop start xs)\<rparr>" "start \<le> p" "p < start + len"
      using srv Asked unfolding serves_def by fastforce
    then obtain n bs where n: "cut_piece p e \<lparr>sp_start = start, sp_plain = take len (drop start xs)\<rparr> = Inr bs"
      "bs = take n (drop p xs)" "0 < n" "p + n \<le> e" using cut_piece_ok [OF a(2,3) \<open>p < length xs\<close> \<open>p < e\<close>] by auto
    have len: "length bs = n" using n(2,4) todo by (simp add: e_def)
    then have "bs \<noteq> []" "bs = take (length bs) (drop p xs)" using n(2,3) by (auto simp only: list.size less_irrefl)
    then show ?thesis
      by (intro that [of bs Asked, folded p_def e_def, OF nxt]) (use Asked a(1) n(1,4) len srv in simp_all)
  qed
qed

lemma stream_body_serves:
  assumes "serves L answers (st_origin s) xs" "st_end s \<le> length xs" "st_position s \<le> st_end s"
  shows "\<exists>frames. stream_body L answers k s = (frames, None) \<and> concat frames = take (st_end s - st_position s) (drop (st_position s) xs)
     \<and> [] \<notin> set frames"
  using assms
proof (induction "st_end s - st_position s" arbitrary: s k rule: less_induct)
  case less
  show ?case
  proof (cases "st_position s < st_end s")
    case False
    then show ?thesis using less.prems by (subst stream_body.simps) (simp add: next_piece_def)
  next
    case True
    obtain piece o' where p: "next_piece L (answers k) s = Inr (Some (piece, s\<lparr>st_origin := o', st_position := st_position s + length piece\<rparr>))"
      "piece = take (length piece) (drop (st_position s) xs)" "piece \<noteq> []" "st_position s + length piece \<le> st_end s"
      "serves L answers o' xs" by (rule next_piece_serves [OF less.prems(1) True less.prems(2)])
    let ?s = "s\<lparr>st_origin := o', st_position := st_position s + length piece\<rparr>"
    have "st_end ?s - st_position ?s < st_end s - st_position s" using less_left [OF p(3) True] by simp
    from less.hyps [OF this] obtain frames where f: "stream_body L answers (Suc k) ?s = (frames, None)"
      "concat frames = take (st_end s - (st_position s + length piece)) (drop (st_position s + length piece) xs)" "[] \<notin> set frames"
      using p(4,5) less.prems(2) by auto
    have "piece @ concat frames = take (length piece) (drop (st_position s) xs)
        @ take (st_end s - (st_position s + length piece)) (drop (length piece) (drop (st_position s) xs))"
      unfolding f(2) using p(2) by (simp add: add.commute)
    also have "\<dots> = take (length piece + (st_end s - (st_position s + length piece))) (drop (st_position s) xs)"
      by (rule take_add [symmetric])
    finally show ?thesis using p f by (subst stream_body.simps) simp
  qed
qed

text \<open>Whatever is answered, a stream that ends without an error has sent the length it promised.\<close>

lemma fill_up_length:
  assumes "\<And>r n r' p. rd r n = Inr (r', p) \<Longrightarrow> length p \<le> n"
  shows "length out \<le> goal \<Longrightarrow> fill_up rd r goal out = Inr (r', bs) \<Longrightarrow> length bs \<le> goal"
proof (induction "goal - length out" arbitrary: r out rule: less_induct)
  case less
  show ?case
  proof (cases "length out < goal")
    case True
    then obtain r1 piece where p: "rd r (goal - length out) = Inr (r1, piece)" "if piece = [] then bs = out else fill_up rd r1 goal (out @ piece) = Inr (r', bs)"
      using less.prems(2) by (subst (asm) fill_up.simps) (auto split: sum.splits if_splits)
    show ?thesis
    proof (cases "piece = []")
      case False
      then have "goal - length (out @ piece) < goal - length out" "length (out @ piece) \<le> goal"
        using less_left [OF False True] assms [OF p(1)] True by simp_all
      then show ?thesis using less.hyps [of "out @ piece" r1] p(2) False by simp
    qed (use p True in simp)
  next
    case False
    then show ?thesis using less.prems by (subst (asm) fill_up.simps) simp
  qed
qed

lemma read_lengths:
  "local_read f n = Inr (f', piece) \<Longrightarrow> length piece \<le> n"
  "reader_read L r n = Inr (r', piece) \<Longrightarrow> length piece \<le> n"
  by (auto simp: local_read_def reader_read_def Let_def rbind_eq_Inr dest!: get_range_length split: if_splits)

lemma next_piece_length:
  assumes "next_piece L answer s = Inr (Some (piece, s'))"
  shows "piece \<noteq> []" "st_position s + length piece \<le> st_end s" "st_position s' = st_position s + length piece" "st_end s' = st_end s"
proof -
  have todo: "st_position s < st_end s" using assms by (auto simp: next_piece_def split: if_splits)
  obtain o' where o': "s' = s\<lparr>st_origin := o', st_position := st_position s + length piece\<rparr>" "piece \<noteq> []"
    and src: "(case st_origin s of
             Local f \<Rightarrow> rbind (read_at local_seek local_read f (st_position s) (min (st_end s - st_position s) PIECE)) (\<lambda>(f1, piece). Inr (Local f1, piece))
           | Pool r \<Rightarrow> rbind (read_at pool_seek (reader_read L) r (st_position s) (min (st_end s - st_position s) PIECE)) (\<lambda>(r1, piece). Inr (Pool r1, piece))
           | Asked \<Rightarrow>
               rbind (answer (st_position s)) (\<lambda>piece. rbind (cut_piece (st_position s) (st_end s) piece) (\<lambda>bs. Inr (Asked, bs)))) = Inr (o', piece)"
    using assms todo by (auto simp: next_piece_def Let_def rbind_eq_Inr split: if_splits)
  have "length piece \<le> st_end s - st_position s"
  proof (cases "st_origin s")
    case (Local f)
    then obtain r1 r2 where f: "fill_up local_read r1 (min (st_end s - st_position s) PIECE) [] = Inr (r2, piece)"
      using src by (auto simp: read_at_def rbind_eq_Inr)
    show ?thesis using fill_up_length [OF read_lengths(1) _ f] by simp
  next
    case (Pool r)
    then obtain r1 r2 where f: "fill_up (reader_read L) r1 (min (st_end s - st_position s) PIECE) [] = Inr (r2, piece)"
      using src by (auto simp: read_at_def rbind_eq_Inr)
    show ?thesis using fill_up_length [OF read_lengths(2) _ f] by simp
  next
    case Asked
    then obtain a where "cut_piece (st_position s) (st_end s) a = Inr piece" using src by (auto simp: rbind_eq_Inr)
    then have "length piece \<le> min (st_end s - sp_start a) (length (sp_plain a)) - (st_position s - sp_start a) \<and> sp_start a \<le> st_position s"
      using o'(2) by (auto simp: cut_piece_def dest!: get_range_length split: if_splits option.splits)
    then show ?thesis by linarith
  qed
  then show "piece \<noteq> []" "st_position s + length piece \<le> st_end s" "st_position s' = st_position s + length piece" "st_end s' = st_end s"
    using todo o' by simp_all
qed

lemma stream_body_length:
  "stream_body L answers k s = (frames, e) \<Longrightarrow> st_position s \<le> st_end s \<Longrightarrow>
    length (concat frames) \<le> st_end s - st_position s \<and> (e = None \<longleftrightarrow> length (concat frames) = st_end s - st_position s)"
proof (induction "st_end s - st_position s" arbitrary: s k frames rule: less_induct)
  case less
  show ?case
  proof (cases "next_piece L (answers k) s")
    case (Inl err)
    then have "st_position s < st_end s" by (auto simp: next_piece_def split: if_splits)
    then show ?thesis using less.prems Inl by (subst (asm) stream_body.simps) auto
  next
    case (Inr r)
    show ?thesis
    proof (cases r)
      case None
      have "\<not> st_position s < st_end s"
      proof
        assume "st_position s < st_end s"
        then show False using Inr None unfolding next_piece_def Let_def by (auto simp: rbind_eq_Inr split: if_splits)
      qed
      then show ?thesis using less.prems Inr None by (subst (asm) stream_body.simps) auto
    next
      case (Some ps)
      obtain piece s1 where ps: "ps = (piece, s1)" by (cases ps)
      note p = next_piece_length [OF Inr [unfolded Some ps]]
      obtain rest where rest: "stream_body L answers (Suc k) s1 = (rest, e)" "frames = piece # rest"
        using less.prems(1) unfolding stream_body.simps [of L answers k s] Inr Some ps
        by (cases "stream_body L answers (Suc k) s1") auto
      have "0 < length piece" using p(1) by simp
      then have "st_end s1 - st_position s1 < st_end s - st_position s" unfolding p(3,4) using p(2) by linarith
      from less.hyps [OF this rest(1)] have "length (concat rest) \<le> st_end s1 - st_position s1
          \<and> (e = None \<longleftrightarrow> length (concat rest) = st_end s1 - st_position s1)" using p by simp
      then show ?thesis using p rest(2) by auto
    qed
  qed
qed

end
