(* ===== verification/Data_Plane.thy ===== *)
theory Data_Plane
  imports Media_Serve
begin

text \<open>
  \<open>crates/wbf-daemon/src/data_plane.rs\<close>: the loopback HTTP server of media.  URLs and upload states are
  sealed under a key derived from the shared token; a request is routed by path, method and \<open>Host\<close>; a
  GET is answered with the range it asks for.  The AEAD, Base58, the key derivation and the JSON of an upload
  are arguments; so are the core's operations and hyper's rules for header values.
\<close>

section \<open>Sealed texts\<close>

record matrix_upload =
  mu_server :: string
  mu_user_id :: string
  mu_mxc :: string
  mu_name :: string
  mu_mimetype :: "string option"
  mu_size :: u64
  mu_encrypted :: bool

datatype created_upload = Chunked_Upload upload_state | Matrix_Upload matrix_upload

fun upload_mxc :: "created_upload \<Rightarrow> string" where
  "upload_mxc (Chunked_Upload u) = us_mxc u"
| "upload_mxc (Matrix_Upload u) = mu_mxc u"

fun upload_server :: "created_upload \<Rightarrow> string" where
  "upload_server (Chunked_Upload u) = us_server u"
| "upload_server (Matrix_Upload u) = mu_server u"

fun upload_user_id :: "created_upload \<Rightarrow> string" where
  "upload_user_id (Chunked_Upload u) = us_user_id u"
| "upload_user_id (Matrix_Upload u) = mu_user_id u"

fun upload_size :: "created_upload \<Rightarrow> u64 option" where
  "upload_size (Chunked_Upload u) = cb_file_size (us_block u)"
| "upload_size (Matrix_Upload u) = Some (mu_size u)"

record upload_meta =
  um_upload :: created_upload
  um_source_uri :: "string option"

record access_lib =
  al_seal :: "bytes \<Rightarrow> bytes \<Rightarrow> bytes \<Rightarrow> bytes \<Rightarrow> bytes option"  \<comment> \<open>key, nonce, AAD, message\<close>
  al_open :: "bytes \<Rightarrow> bytes \<Rightarrow> bytes \<Rightarrow> bytes \<Rightarrow> bytes option"
  al_b58 :: "bytes \<Rightarrow> string"
  al_unb58 :: "string \<Rightarrow> bytes option"
  al_derive :: "string \<Rightarrow> bytes \<Rightarrow> bytes"
  al_meta_json :: "upload_meta \<Rightarrow> bytes option"
  al_read_meta :: "bytes \<Rightarrow> upload_meta option"

definition ACCESS_CONTEXT :: string where "ACCESS_CONTEXT = ''wbf-matrix-client data plane v1''"
definition URL_AAD :: bytes where "URL_AAD = as_bytes ''wbf-data url v1''"
definition META_AAD :: bytes where "META_AAD = as_bytes ''wbf-data meta v1 ''"
definition ACCESS_NONCE_LEN :: nat where "ACCESS_NONCE_LEN = 24"
definition ENCRYPTED_PREFIX :: string where "ENCRYPTED_PREFIX = ''e-''"
definition PLAIN_PREFIX :: string where "PLAIN_PREFIX = ''c-''"
definition SEPARATOR :: char where "SEPARATOR = CHR ''_''"
definition PURPOSE_UPLOAD :: byte where "PURPOSE_UPLOAD = 0x01"
definition PURPOSE_MEDIA :: byte where "PURPOSE_MEDIA = 0x02"

definition keys_from_token :: "access_lib \<Rightarrow> bytes \<Rightarrow> bytes" where
  "keys_from_token A token = al_derive A ACCESS_CONTEXT token"

text \<open>\<open>draw\<close> is what \<open>getrandom\<close> gives.\<close>

definition to_text :: "access_lib \<Rightarrow> bytes \<Rightarrow> core_error_kind + bytes \<Rightarrow> bytes \<Rightarrow> bytes \<Rightarrow> bool \<Rightarrow> core_error_kind + string" where
  "to_text A key draw plain aad encrypted =
     (if \<not> encrypted then Inr (PLAIN_PREFIX @ al_b58 A plain)
      else rbind draw (\<lambda>nonce.
           rbind (ok_or Core_Io (al_seal A key nonce aad plain)) (\<lambda>sealed.
           Inr (ENCRYPTED_PREFIX @ al_b58 A nonce @ SEPARATOR # al_b58 A sealed))))"

definition open_text :: "access_lib \<Rightarrow> bytes \<Rightarrow> string \<Rightarrow> bytes \<Rightarrow> bool \<Rightarrow> bytes option" where
  "open_text A key s aad enforced =
     (case strip_prefix ENCRYPTED_PREFIX s of
        Some encrypted \<Rightarrow>
          Option.bind (split_once SEPARATOR encrypted) (\<lambda>(nonce_text, sealed_text).
          Option.bind (al_unb58 A nonce_text) (\<lambda>nonce.
          if length nonce \<noteq> ACCESS_NONCE_LEN then None
          else Option.bind (al_unb58 A sealed_text) (al_open A key nonce aad)))
      | None \<Rightarrow>
          Option.bind (strip_prefix PLAIN_PREFIX s) (\<lambda>plain. if enforced then None else al_unb58 A plain))"

definition to_url_key ::
    "access_lib \<Rightarrow> bytes \<Rightarrow> core_error_kind + bytes \<Rightarrow> byte \<Rightarrow> string \<Rightarrow> bool \<Rightarrow> core_error_kind + string" where
  "to_url_key A key draw purpose mxc encrypted = to_text A key draw (purpose # as_bytes mxc) URL_AAD encrypted"

definition open_url_key :: "access_lib \<Rightarrow> bytes \<Rightarrow> byte \<Rightarrow> string \<Rightarrow> bool \<Rightarrow> string option" where
  "open_url_key A key purpose url_key enforced =
     Option.bind (open_text A key url_key URL_AAD enforced) (\<lambda>plain.
       case plain of
         [] \<Rightarrow> None
       | found # mxc \<Rightarrow> if found \<noteq> purpose then None else from_utf8 mxc)"

definition meta_aad :: "string \<Rightarrow> bytes" where
  "meta_aad mxc = META_AAD @ as_bytes mxc"

definition to_upload_meta ::
    "access_lib \<Rightarrow> bytes \<Rightarrow> core_error_kind + bytes \<Rightarrow> upload_meta \<Rightarrow> bool \<Rightarrow> core_error_kind + string" where
  "to_upload_meta A key draw meta encrypted =
     rbind (ok_or Core_Io (al_meta_json A meta)) (\<lambda>json.
     to_text A key draw json (meta_aad (upload_mxc (um_upload meta))) encrypted)"

definition open_upload_meta :: "access_lib \<Rightarrow> bytes \<Rightarrow> string \<Rightarrow> string \<Rightarrow> bool \<Rightarrow> upload_meta option" where
  "open_upload_meta A key s mxc enforced =
     Option.bind (open_text A key s (meta_aad mxc) enforced) (\<lambda>json.
     Option.bind (al_read_meta A json) (\<lambda>meta.
       if upload_mxc (um_upload meta) = mxc then Some meta else None))"

section \<open>Ranges\<close>

datatype range_asked = Whole | Part nat nat | Unsatisfiable

definition U64_MAX :: nat where "U64_MAX = 2 ^ 64 - 1"

definition parse_u64 :: "string \<Rightarrow> nat option" where
  "parse_u64 s = parse_unsigned (2 ^ 64) s"

text \<open>The range between two trimmed texts; then the header.\<close>

definition range_between :: "string \<Rightarrow> string \<Rightarrow> nat \<Rightarrow> range_asked" where
  "range_between first_text last_text file_size =
     (if first_text = [] then
        (case parse_u64 last_text of
           None \<Rightarrow> Whole
         | Some suffix \<Rightarrow> if suffix = 0 \<or> file_size = 0 then Unsatisfiable else Part (file_size - suffix) file_size)
      else case parse_u64 first_text of
        None \<Rightarrow> Whole
      | Some start \<Rightarrow>
          (case (if last_text = [] then Some file_size
                 else case parse_u64 last_text of
                   Some last_pos \<Rightarrow> if last_pos \<ge> start then Some (min (min (last_pos + 1) U64_MAX) file_size) else None
                 | None \<Rightarrow> None) of
             None \<Rightarrow> Whole
           | Some end_pos \<Rightarrow> if start \<ge> file_size then Unsatisfiable else Part start end_pos))"

definition parse_range :: "string option \<Rightarrow> nat \<Rightarrow> range_asked" where
  "parse_range value file_size =
     (case Option.bind value (\<lambda>v. strip_prefix ''bytes='' (trim v)) of
        None \<Rightarrow> Whole
      | Some spec \<Rightarrow>
          if CHR '','' \<in> set spec then Whole
          else case split_once CHR ''-'' (trim spec) of
            None \<Rightarrow> Whole
          | Some (first_text, last_text) \<Rightarrow> range_between (trim first_text) (trim last_text) file_size)"

section \<open>Requests and replies\<close>

record http_request =
  rq_method :: string
  rq_path :: string
  rq_headers :: "string \<Rightarrow> string option"

datatype reply_body = Empty | Error_Json nat | Json bytes | Frames "bytes list" "core_error_kind option"

record http_reply =
  rp_status :: nat
  rp_headers :: "(string \<times> string) list"
  rp_body :: reply_body

definition empty_reply :: "nat \<Rightarrow> http_reply" where
  "empty_reply status = \<lparr>rp_status = status, rp_headers = [], rp_body = Empty\<rparr>"

definition not_found :: http_reply where
  "not_found = empty_reply 404"

definition json_reply :: "nat \<Rightarrow> reply_body \<Rightarrow> http_reply" where
  "json_reply status body = \<lparr>rp_status = status, rp_headers = [(''content-type'', ''application/json'')], rp_body = body\<rparr>"

definition error_reply :: "nat \<Rightarrow> nat \<Rightarrow> http_reply" where
  "error_reply status code = json_reply status (Error_Json code)"

definition method_not_allowed :: "string \<Rightarrow> http_reply" where
  "method_not_allowed allowed = \<lparr>rp_status = 405, rp_headers = [(''allow'', allowed)], rp_body = Empty\<rparr>"

definition INVALID_PARAMS :: nat where "INVALID_PARAMS = 102"
definition BUSY :: nat where "BUSY = 106"
definition INTERNAL :: nat where "INTERNAL = 108"

fun status_of_core_error :: "core_error_kind \<Rightarrow> nat" where
  "status_of_core_error Core_Usage = 400"
| "status_of_core_error Core_NoSuchAccount = 404"
| "status_of_core_error Core_NotLoggedIn = 404"
| "status_of_core_error Core_Locked = 503"
| "status_of_core_error Core_NoKeyFile = 503"
| "status_of_core_error Core_Network = 502"
| "status_of_core_error Core_Server = 502"
| "status_of_core_error Core_Timeout = 502"
| "status_of_core_error e = 500"

definition core_error_reply :: "core_error_kind \<Rightarrow> http_reply" where
  "core_error_reply e = error_reply (status_of_core_error e) (rpc_code e)"

definition status_for_trust :: "nat \<Rightarrow> bool \<Rightarrow> nat" where
  "status_for_trust status trusted = (if trusted then status else 412)"

text \<open>
  What the daemon has: whether the vault is open, the key of the data plane, whether encryption is enforced,
  the core's operations (finding a source, receiving an upload: the JSON of its manifest), and hyper's
  \<open>to_str\<close> and \<open>from_str\<close> of header values.
\<close>

record data_env =
  de_access :: access_lib
  de_pool :: pool_lib
  de_unlocked :: bool
  de_keys :: "bytes option"
  de_enforced :: bool
  de_find :: "string \<Rightarrow> core_error_kind + media_source option"
  de_answers :: "nat \<Rightarrow> nat \<Rightarrow> core_error_kind + seek_piece"
  de_receive :: "upload_meta \<Rightarrow> core_error_kind + bytes option"
  de_to_str :: "string \<Rightarrow> string option"
  de_header_ok :: "string \<Rightarrow> bool"

text \<open>Headers are kept under their names in lower case, and looked up in any case.\<close>

definition header_text :: "data_env \<Rightarrow> http_request \<Rightarrow> string \<Rightarrow> string option" where
  "header_text D rq name = Option.bind (rq_headers rq (map ascii_lower name)) (de_to_str D)"

definition header_if_ok :: "data_env \<Rightarrow> string \<Rightarrow> string \<Rightarrow> (string \<times> string) list" where
  "header_if_ok D name value = (if de_header_ok D value then [(name, value)] else [])"

definition is_loopback_host :: "data_env \<Rightarrow> http_request \<Rightarrow> bool" where
  "is_loopback_host D rq =
     (case header_text D rq ''host'' of
        None \<Rightarrow> False
      | Some host \<Rightarrow>
          (case strip_prefix ''[::1]'' host of
             Some rest \<Rightarrow> rest = [] \<or> hd rest = CHR '':''
           | None \<Rightarrow>
               (let name = before_any [CHR '':''] host
                in name = ''127.0.0.1'' \<or> eq_ignore_ascii_case name ''localhost'')))"

definition check_content_length :: "data_env \<Rightarrow> http_request \<Rightarrow> u64 option \<Rightarrow> unit option" where
  "check_content_length D rq declared =
     (case rq_headers rq ''content-length'' of
        None \<Rightarrow> Some ()
      | Some value \<Rightarrow>
          Option.bind (Option.bind (de_to_str D value) parse_u64) (\<lambda>n.
            case declared of Some d \<Rightarrow> if unat d \<noteq> n then None else Some () | None \<Rightarrow> Some ()))"

section \<open>Reading\<close>

definition UPLOAD_PATH :: string where "UPLOAD_PATH = ''/upload/mxc/''"
definition MEDIA_PATH :: string where "MEDIA_PATH = ''/media/mxc/''"
definition UPLOAD_META_HEADER :: string where "UPLOAD_META_HEADER = ''Wbf-Upload-Meta''"
definition MEDIA_KIND_HEADER :: string where "MEDIA_KIND_HEADER = ''wbf-media-kind''"
definition MEDIA_VERIFIED_HEADER :: string where "MEDIA_VERIFIED_HEADER = ''wbf-media-verified''"

definition media_reply :: "data_env \<Rightarrow> media_source \<Rightarrow> nat \<Rightarrow> nat \<Rightarrow> nat \<Rightarrow> bool \<Rightarrow> http_reply" where
  "media_reply D source status start end_pos is_head =
     (let content_type = (case so_mimetype source of Some t \<Rightarrow> t | None \<Rightarrow> ''application/octet-stream'');
          body = (if is_head \<or> start = end_pos then Empty
                  else (case stream_body (de_pool D) (de_answers D) 0 (into_stream source start end_pos) of
                          (frames, e) \<Rightarrow> Frames frames e));
          range_text = ''bytes '' @ show_nat start @ ''-'' @ show_nat (end_pos - 1) @ ''/'' @ show_nat (unat (so_size source))
      in \<lparr>rp_status = status_for_trust status (is_trusted source),
          rp_headers =
            [(MEDIA_KIND_HEADER, show_int (kind_to_number (so_kind source))),
             (MEDIA_VERIFIED_HEADER, show_int (verification_to_number (so_verified source))),
             (''accept-ranges'', ''bytes''),
             (''content-length'', show_nat (end_pos - start))]
            @ header_if_ok D ''content-type'' content_type
            @ [(''x-content-type-options'', ''nosniff''), (''content-security-policy'', ''sandbox'')]
            @ (if status = 206 then header_if_ok D ''content-range'' range_text else []),
          rp_body = body\<rparr>)"

definition get_media :: "data_env \<Rightarrow> string \<Rightarrow> http_request \<Rightarrow> bool \<Rightarrow> http_reply" where
  "get_media D access rq is_head =
     (if \<not> de_unlocked D then error_reply 503 (rpc_code Core_Locked)
      else case de_keys D of
        None \<Rightarrow> not_found
      | Some key \<Rightarrow>
          (case open_url_key (de_access D) key PURPOSE_MEDIA access (de_enforced D) of
             None \<Rightarrow> not_found
           | Some mxc \<Rightarrow>
               (case de_find D mxc of
                  Inr None \<Rightarrow> not_found
                | Inl e \<Rightarrow> if e = Core_Locked then core_error_reply e else error_reply 502 (rpc_code e)
                | Inr (Some source) \<Rightarrow>
                    (case parse_range (header_text D rq ''range'') (unat (so_size source)) of
                       Whole \<Rightarrow> media_reply D source 200 0 (unat (so_size source)) is_head
                     | Part start end_pos \<Rightarrow> media_reply D source 206 start end_pos is_head
                     | Unsatisfiable \<Rightarrow>
                         (empty_reply 416)
                           \<lparr>rp_headers := header_if_ok D ''content-range'' (''bytes */'' @ show_nat (unat (so_size source)))\<rparr>))))"

section \<open>Uploading\<close>

text \<open>
  The uploads being received, by server and \<open>mxc\<close>: \<open>begin_upload\<close> registers one, and dropping its guard
  takes it out however the PUT ends.
\<close>

type_synonym receiving = "(string \<times> string) set"

definition begin_upload :: "created_upload \<Rightarrow> receiving \<Rightarrow> (receiving \<times> string \<times> string) option" where
  "begin_upload u r =
     (let key = (upload_server u, upload_mxc u) in if key \<in> r then None else Some (insert key r, key))"

definition drop_guard :: "string \<times> string \<Rightarrow> receiving \<Rightarrow> receiving" where
  "drop_guard key r = r - {key}"

definition put_upload :: "data_env \<Rightarrow> upload_meta \<Rightarrow> http_request \<Rightarrow> http_reply" where
  "put_upload D meta rq =
     (case check_content_length D rq (upload_size (um_upload meta)) of
        None \<Rightarrow> error_reply 400 INVALID_PARAMS
      | Some u \<Rightarrow>
          (case de_receive D meta of
             Inl e \<Rightarrow> core_error_reply e
           | Inr None \<Rightarrow> error_reply 500 INTERNAL
           | Inr (Some json) \<Rightarrow> json_reply 200 (Json json)))"

text \<open>
  The first half of a PUT: a reply, or the registered upload, whose body is then received (\<open>put_upload\<close>)
  while others may come; its guard is dropped at the end.
\<close>

definition start_upload ::
    "data_env \<Rightarrow> string \<Rightarrow> http_request \<Rightarrow> receiving \<Rightarrow> receiving \<times> (http_reply + upload_meta \<times> string \<times> string)" where
  "start_upload D access rq r =
     (if \<not> de_unlocked D then (r, Inl (error_reply 503 (rpc_code Core_Locked)))
      else case de_keys D of
        None \<Rightarrow> (r, Inl not_found)
      | Some key \<Rightarrow>
          (case open_url_key (de_access D) key PURPOSE_UPLOAD access (de_enforced D) of
             None \<Rightarrow> (r, Inl not_found)
           | Some mxc \<Rightarrow>
               (case header_text D rq UPLOAD_META_HEADER of
                  None \<Rightarrow> (r, Inl (error_reply 400 INVALID_PARAMS))
                | Some text_meta \<Rightarrow>
                    (case open_upload_meta (de_access D) key text_meta mxc (de_enforced D) of
                       None \<Rightarrow> (r, Inl not_found)
                     | Some meta \<Rightarrow>
                         (case begin_upload (um_upload meta) r of
                            None \<Rightarrow> (r, Inl (error_reply 409 BUSY))
                          | Some (r1, guard) \<Rightarrow> (r1, Inr (meta, guard)))))))"

definition route_upload :: "data_env \<Rightarrow> string \<Rightarrow> http_request \<Rightarrow> receiving \<Rightarrow> receiving \<times> http_reply" where
  "route_upload D access rq r =
     (case start_upload D access rq r of
        (r1, Inl reply) \<Rightarrow> (r1, reply)
      | (r1, Inr (meta, guard)) \<Rightarrow> (drop_guard guard r1, put_upload D meta rq))"

definition route :: "data_env \<Rightarrow> http_request \<Rightarrow> receiving \<Rightarrow> receiving \<times> http_reply" where
  "route D rq r =
     (if \<not> is_loopback_host D rq then (r, empty_reply 403)
      else case strip_prefix UPLOAD_PATH (rq_path rq) of
        Some access \<Rightarrow>
          if rq_method rq \<noteq> ''PUT'' then (r, method_not_allowed ''PUT'') else route_upload D access rq r
      | None \<Rightarrow>
          (case strip_prefix MEDIA_PATH (rq_path rq) of
             Some access \<Rightarrow>
               (let is_head = (rq_method rq = ''HEAD'') in
                if rq_method rq \<noteq> ''GET'' \<and> \<not> is_head then (r, method_not_allowed ''GET, HEAD'')
                else (r, get_media D access rq is_head))
           | None \<Rightarrow> (r, not_found)))"

end
