(* ===== verification/Data_Plane_Correct.thy ===== *)
theory Data_Plane_Correct
  imports Data_Plane
begin

text \<open>
  What the media server promises: a range request gets exactly its bytes, a body that was cut off is never
  taken for a whole one, URLs and upload states open only where they belong, and one upload is received by
  one PUT at a time.
\<close>

section \<open>Ranges\<close>

lemma parse_u64_limit: "parse_u64 s = Some k \<Longrightarrow> k < 2 ^ 64"
  by (auto simp: parse_u64_def parse_unsigned_def Let_def split: if_splits)

lemma range_between_Part:
  assumes "range_between f l n = Part a b" "n < 2 ^ 64"
  shows "a < b \<and> b \<le> n"
proof (cases "f = []")
  case True
  then obtain k where "parse_u64 l = Some k" using assms by (cases "parse_u64 l") (auto simp: range_between_def)
  then show ?thesis using assms True by (auto simp: range_between_def split: if_splits)
next
  case False
  then obtain start where f: "parse_u64 f = Some start" using assms by (cases "parse_u64 f") (auto simp: range_between_def)
  note start = parse_u64_limit [OF f]
  show ?thesis
  proof (cases "l = []")
    case False
    then obtain k where k: "parse_u64 l = Some k" "start \<le> k"
      using assms f \<open>f \<noteq> []\<close> by (cases "parse_u64 l") (auto simp: range_between_def split: if_splits)
    then have "b = min (min (k + 1) U64_MAX) n" "a = start" "start < n"
      using assms f \<open>f \<noteq> []\<close> False by (auto simp: range_between_def split: if_splits)
    then show ?thesis using k parse_u64_limit [OF k(1)] start assms(2) by (auto simp: U64_MAX_def)
  qed (use assms f False in \<open>auto simp: range_between_def split: if_splits\<close>)
qed

lemma parse_range_Part: "parse_range value n = Part a b \<Longrightarrow> n < 2 ^ 64 \<Longrightarrow> a < b \<and> b \<le> n"
  unfolding parse_range_def by (auto split: option.splits if_splits dest: range_between_Part)

lemma digit_not_space: "is_ascii_digit c \<Longrightarrow> \<not> is_ascii_space c \<and> c \<noteq> CHR '','' \<and> c \<noteq> CHR ''-'' \<and> c \<noteq> CHR ''+''"
  by (auto simp: is_ascii_digit_def is_ascii_space_def)

lemma trim_solid: "list_all (\<lambda>c. \<not> is_ascii_space c) s \<Longrightarrow> trim s = s"
proof -
  assume a: "list_all (\<lambda>c. \<not> is_ascii_space c) s"
  have "dropWhile is_ascii_space s = s" using a by (cases s) auto
  moreover have "dropWhile is_ascii_space (rev s) = rev s" using a by (cases "rev s") (auto simp: list_all_iff)
  ultimately show ?thesis by (simp add: trim_def)
qed

lemma show_nat_solid: "list_all is_ascii_digit (show_nat n)" "show_nat n \<noteq> []" "digits_value (show_nat n) = n"
  using show_nat_digits [of n] by simp_all

lemma show_nat_no: "c \<in> set (show_nat n) \<Longrightarrow> \<not> is_ascii_space c \<and> c \<noteq> CHR '','' \<and> c \<noteq> CHR ''-'' \<and> c \<noteq> CHR ''+''"
  using show_nat_solid(1) [of n] digit_not_space by (auto simp: list_all_iff)

lemma trim_show_nat [simp]: "trim (show_nat n) = show_nat n"
  by (rule trim_solid) (use show_nat_no in \<open>auto simp: list_all_iff\<close>)

lemma parse_show_nat: "parse_u64 (show_nat n) = (if n < 2 ^ 64 then Some n else None)"
proof -
  obtain c cs where s: "show_nat n = c # cs" using show_nat_solid(2) [of n] by (cases "show_nat n") auto
  then have "c \<noteq> CHR ''+''" using show_nat_no [of c n] by simp
  then show ?thesis using show_nat_solid [of n] s by (simp add: parse_u64_def parse_unsigned_def)
qed

definition range_header :: "nat \<Rightarrow> nat option \<Rightarrow> string" where
  "range_header a b = ''bytes='' @ show_nat a @ ''-'' @ (case b of None \<Rightarrow> [] | Some b \<Rightarrow> show_nat b)"

lemma range_spec:
  assumes b: "b' = (case b of None \<Rightarrow> [] | Some b \<Rightarrow> show_nat b)"
  shows "Option.bind (Some (range_header a b)) (\<lambda>v. strip_prefix ''bytes='' (trim v)) = Some (show_nat a @ ''-'' @ b')"
    "CHR '','' \<notin> set (show_nat a @ ''-'' @ b')" "trim (show_nat a @ ''-'' @ b') = show_nat a @ ''-'' @ b'"
    "split_once CHR ''-'' (show_nat a @ ''-'' @ b') = Some (show_nat a, b')"
proof -
  have solid: "\<not> is_ascii_space c" if "c \<in> set (''bytes='' @ show_nat a @ ''-'' @ b')" for c
    using that show_nat_no by (auto simp: b is_ascii_space_def split: option.splits)
  have "trim (range_header a b) = range_header a b"
    unfolding range_header_def b [symmetric] by (rule trim_solid) (use solid in \<open>auto simp: list_all_iff\<close>)
  then show "Option.bind (Some (range_header a b)) (\<lambda>v. strip_prefix ''bytes='' (trim v)) = Some (show_nat a @ ''-'' @ b')"
    by (simp add: range_header_def b strip_prefix_def)
  show "trim (show_nat a @ ''-'' @ b') = show_nat a @ ''-'' @ b'"
    by (rule trim_solid) (use solid in \<open>auto simp: list_all_iff\<close>)
  show "CHR '','' \<notin> set (show_nat a @ ''-'' @ b')" using show_nat_no by (auto simp: b split: option.splits)
  show "split_once CHR ''-'' (show_nat a @ ''-'' @ b') = Some (show_nat a, b')"
    using show_nat_no by (auto simp: split_once_Some)
qed

text \<open>
  A range is read as it is written.  \<open>bytes=a-b\<close> and \<open>bytes=a-\<close>, for any 64-bit numbers, ask for
  the bytes from \<open>a\<close> to \<open>b\<close> inclusive, or to the end, cut at the end of the file; a start at or past the end
  cannot be satisfied, and a last position before the first is ignored.
\<close>

lemma range_is_read_as_written:
  assumes "a < 2 ^ 64" "\<forall>l. b = Some l \<longrightarrow> l < 2 ^ 64" "n < 2 ^ 64"
  shows "parse_range (Some (range_header a b)) n =
     (if \<exists>l. b = Some l \<and> l < a then Whole
      else if n \<le> a then Unsatisfiable
      else Part a (case b of None \<Rightarrow> n | Some l \<Rightarrow> min (l + 1) n))"
proof -
  obtain b' where b: "b' = (case b of None \<Rightarrow> [] | Some b \<Rightarrow> show_nat b)" by simp
  note spec = range_spec [OF b, of a]
  have "trim [] = []" by (simp add: trim_def)
  then have t: "trim b' = b'" by (cases b) (simp_all add: b)
  show ?thesis
    unfolding parse_range_def spec(1) option.case spec(3,4) if_not_P [OF spec(2)] prod.case trim_show_nat t range_between_def
    using assms show_nat_solid(2) by (cases b) (auto simp: b parse_show_nat U64_MAX_def)
qed

lemma range_is_read_as_written_witness:
  "parse_range (Some (range_header 100 (Some 199))) 150 = Part 100 150"
  using range_is_read_as_written [of 100 "Some 199" 150] by simp

section \<open>Reading\<close>

definition body_is :: "bool \<Rightarrow> bytes \<Rightarrow> reply_body \<Rightarrow> bool" where
  "body_is is_head bs body \<longleftrightarrow>
     (if is_head \<or> bs = [] then body = Empty else \<exists>frames. body = Frames frames None \<and> concat frames = bs)"

lemma media_reply_serves:
  assumes "serves (de_pool D) (de_answers D) (so_origin source) xs" "unat (so_size source) = length xs" "a \<le> b" "b \<le> length xs"
  shows "body_is is_head (take (b - a) (drop a xs)) (rp_body (media_reply D source status a b is_head))"
    "rp_status (media_reply D source status a b is_head) = (if is_trusted source then status else 412)"
    "(''content-length'', show_nat (b - a)) \<in> set (rp_headers (media_reply D source status a b is_head))"
proof -
  have "\<exists>frames. stream_body (de_pool D) (de_answers D) 0 (into_stream source a b) = (frames, None)
      \<and> concat frames = take (b - a) (drop a xs)"
    using stream_body_serves [of "de_pool D" "de_answers D" "into_stream source a b" xs 0] assms
    by (auto simp: into_stream_def min_def)
  moreover have "take (b - a) (drop a xs) = [] \<longleftrightarrow> a = b" using assms(3,4) by auto
  ultimately show "body_is is_head (take (b - a) (drop a xs)) (rp_body (media_reply D source status a b is_head))"
    by (auto simp: body_is_def media_reply_def Let_def)
qed (simp_all add: media_reply_def Let_def status_for_trust_def)


text \<open>
  C30. A body that was cut off is never taken for a whole one.  Whatever the source answers (wrong pieces,
  missing bytes, errors), the frames never exceed the declared length, and they reach it exactly when the
  stream ends without an error.
\<close>

theorem cut_off_body_is_short:
  assumes "rp_body (get_media D access rq is_head) = Frames frames e"
  shows "\<exists>n. (''content-length'', show_nat n) \<in> set (rp_headers (get_media D access rq is_head))
     \<and> length (concat frames) \<le> n \<and> (e = None \<longleftrightarrow> length (concat frames) = n)"
proof -
  have media: "\<exists>n. (''content-length'', show_nat n) \<in> set (rp_headers (media_reply D source status a b is_head))
     \<and> length (concat frames) \<le> n \<and> (e = None \<longleftrightarrow> length (concat frames) = n)"
    if r: "rp_body (media_reply D source status a b is_head) = Frames frames e" and "a \<le> b" "b \<le> unat (so_size source)" for source status a b
  proof -
    have "stream_body (de_pool D) (de_answers D) 0 (into_stream source a b) = (frames, e)"
      using r by (auto simp: media_reply_def Let_def split: if_splits prod.splits)
    from stream_body_length [OF this] that(2,3) show ?thesis
      by (intro exI [of _ "b - a"]) (simp add: media_reply_def Let_def into_stream_def)
  qed
  obtain source where source: "get_media D access rq is_head =
      (case parse_range (header_text D rq ''range'') (unat (so_size source)) of
         Whole \<Rightarrow> media_reply D source 200 0 (unat (so_size source)) is_head
       | Part start end_pos \<Rightarrow> media_reply D source 206 start end_pos is_head
       | Unsatisfiable \<Rightarrow>
           (empty_reply 416)\<lparr>rp_headers := header_if_ok D ''content-range'' (''bytes */'' @ show_nat (unat (so_size source)))\<rparr>)"
    using assms by (auto simp: get_media_def error_reply_def json_reply_def not_found_def empty_reply_def core_error_reply_def
        split: if_splits option.splits sum.splits)
  show ?thesis
  proof (cases "parse_range (header_text D rq ''range'') (unat (so_size source))")
    case Whole
    then show ?thesis using media [of source 200 0 "unat (so_size source)"] assms by (simp add: source)
  next
    case (Part a b)
    then show ?thesis using media [of source 206 a b] parse_range_Part [OF Part] u64_lt [of "so_size source"] assms by (simp add: source)
  qed (use assms in \<open>simp add: source empty_reply_def\<close>)
qed

section \<open>What is sealed\<close>

text \<open>Documented behaviour of the AEAD and of Base58, whose alphabet has no underscore.\<close>

definition access_ok :: "access_lib \<Rightarrow> bool" where
  "access_ok A \<longleftrightarrow>
     (\<forall>key nonce aad p c. al_open A key nonce aad c = Some p \<longleftrightarrow> al_seal A key nonce aad p = Some c)
     \<and> (\<forall>bs. al_unb58 A (al_b58 A bs) = Some bs) \<and> (\<forall>bs. SEPARATOR \<notin> set (al_b58 A bs))"

lemma open_to_text:
  assumes A: "access_ok A" and t: "to_text A key draw plain aad encrypted = Inr s"
    and n: "\<And>nonce. draw = Inr nonce \<Longrightarrow> length nonce = ACCESS_NONCE_LEN"
  shows "open_text A key s aad enforced = (if encrypted \<or> \<not> enforced then Some plain else None)"
proof (cases encrypted)
  case True
  then obtain nonce sealed where d: "draw = Inr nonce" "al_seal A key nonce aad plain = Some sealed"
    and s: "s = ENCRYPTED_PREFIX @ al_b58 A nonce @ SEPARATOR # al_b58 A sealed"
    using t by (auto simp: to_text_def rbind_eq_Inr)
  have "strip_prefix ENCRYPTED_PREFIX s = Some (al_b58 A nonce @ SEPARATOR # al_b58 A sealed)" by (simp add: strip_prefix_Some s)
  moreover have "split_once SEPARATOR (al_b58 A nonce @ SEPARATOR # al_b58 A sealed) = Some (al_b58 A nonce, al_b58 A sealed)"
    using A by (simp add: split_once_Some access_ok_def)
  ultimately show ?thesis using A n [OF d(1)] d(2) True by (simp add: open_text_def access_ok_def)
next
  case False
  then have s: "s = PLAIN_PREFIX @ al_b58 A plain" using t by (simp add: to_text_def)
  have "strip_prefix ENCRYPTED_PREFIX s = None" by (simp add: strip_prefix_def s ENCRYPTED_PREFIX_def PLAIN_PREFIX_def)
  moreover have "strip_prefix PLAIN_PREFIX s = Some (al_b58 A plain)" by (simp add: strip_prefix_Some s)
  ultimately show ?thesis using A False by (simp add: open_text_def access_ok_def)
qed

text \<open>
  C31. A URL opens exactly what it was made for.  The key in a URL that the daemon made for one purpose and
  one \<open>mxc\<close> opens to that \<open>mxc\<close> for that purpose and to nothing for the other, and an unencrypted one opens
  to nothing at all while encryption is enforced.
\<close>

theorem url_opens_its_purpose_only:
  assumes "access_ok A" "is_utf8 (as_bytes mxc)" "to_url_key A key draw purpose mxc encrypted = Inr s"
    "\<And>nonce. draw = Inr nonce \<Longrightarrow> length nonce = ACCESS_NONCE_LEN"
  shows "open_url_key A key purpose' s enforced = (if purpose' = purpose \<and> (encrypted \<or> \<not> enforced) then Some mxc else None)"
proof -
  have "open_text A key s URL_AAD enforced = (if encrypted \<or> \<not> enforced then Some (purpose # as_bytes mxc) else None)"
    using open_to_text [OF assms(1) assms(3) [unfolded to_url_key_def] assms(4)] .
  then show ?thesis using assms(2) by (auto simp: open_url_key_def from_utf8_def of_bytes_as_bytes)
qed


section \<open>One PUT per upload\<close>

text \<open>PUTs begin and end in any order: \<open>guards\<close> are those of the ones under way.\<close>

inductive putting :: "data_env \<Rightarrow> (string \<times> string) list \<Rightarrow> receiving \<Rightarrow> bool" for D where
  idle: "putting D [] {}"
| started: "putting D guards r \<Longrightarrow> start_upload D access rq r = (r1, Inr (meta, guard)) \<Longrightarrow> putting D (guard # guards) r1"
| ended: "putting D guards r \<Longrightarrow> guard \<in> set guards \<Longrightarrow> putting D (remove1 guard guards) (drop_guard guard r)"

lemma start_upload_begins:
  assumes "start_upload D access rq r = (r1, Inr (meta, guard))"
  shows "guard \<notin> r" "r1 = insert guard r" "guard = (upload_server (um_upload meta), upload_mxc (um_upload meta))"
  using assms by (auto simp: start_upload_def begin_upload_def Let_def split: if_splits option.splits)

lemma putting_distinct: "putting D guards r \<Longrightarrow> distinct guards \<and> set guards = r"
proof (induction rule: putting.induct)
  case (started guards r access rq r1 meta guard)
  then show ?case using start_upload_begins [OF started.hyps(2)] by auto
next
  case (ended guards r guard)
  then show ?case by (auto simp: drop_guard_def)
qed simp

text \<open>
  C33. One PUT per upload.  However PUTs come and go, those that are being received are of different
  uploads; a PUT of an upload that another one is sending gets 409, and when that one has ended (however it
  ended) the next PUT of it is received.
\<close>

theorem one_put_per_upload:
  assumes "putting D guards r" "start_upload D access rq {} = (r0, Inr (meta, guard))"
  shows "distinct guards
     \<and> (if guard \<in> set guards then start_upload D access rq r = (r, Inl (error_reply 409 BUSY))
        else start_upload D access rq r = (insert guard r, Inr (meta, guard)))
     \<and> start_upload D access rq (drop_guard guard r) = (insert guard r, Inr (meta, guard))"
proof -
  have r: "distinct guards" "set guards = r" using putting_distinct [OF assms(1)] by simp_all
  have g: "guard = (upload_server (um_upload meta), upload_mxc (um_upload meta))" using start_upload_begins(3) [OF assms(2)] .
  have any: "start_upload D access rq r' =
      (case begin_upload (um_upload meta) r' of None \<Rightarrow> (r', Inl (error_reply 409 BUSY)) | Some (r1, guard) \<Rightarrow> (r1, Inr (meta, guard)))" for r'
    using assms(2) by (auto simp: start_upload_def begin_upload_def Let_def split: if_splits option.splits)
  show ?thesis unfolding any r(2) using r(1) by (auto simp: begin_upload_def g drop_guard_def Let_def)
qed

section \<open>Local sources\<close>

text \<open>
  A source URI points into this machine.  A path that is read from a URI has no NUL; the URI named no
  host, or \<open>localhost\<close>; and the decoded path (of which Windows drops the slash before a drive) does not start
  with two slashes or with a slash and a backslash, which would name another machine.
\<close>

lemma source_uri_is_local:
  assumes "file_uri_to_path_text uri windows = Some path"
  shows "char_of (0 :: nat) \<notin> set path
     \<and> (let host = before_any [CHR ''/''] (before_any [CHR ''?'', CHR ''#''] (drop 7 uri))
        in host = [] \<or> eq_ignore_ascii_case host ''localhost'')
     \<and> (\<exists>full. (path = full \<or> windows \<and> is_slash_drive full \<and> path = drop 1 full)
          \<and> \<not> (\<exists>c rest. full = CHR ''/'' # c # rest \<and> (c = CHR ''/'' \<or> c = char_of (92 :: nat))))"
proof -
  have seven: "length URI_SCHEME = 7" by (simp add: URI_SCHEME_def)
  let ?rest = "before_any [CHR ''?'', CHR ''#''] (drop 7 uri)"
  let ?host = "before_any [CHR ''/''] ?rest"
  obtain full where host: "?host = [] \<or> eq_ignore_ascii_case ?host ''localhost''"
    and no_nul: "char_of (0 :: nat) \<notin> set full"
    and no_net: "\<not> (length full \<ge> 2 \<and> full ! 0 = CHR ''/'' \<and> (full ! 1 = CHR ''/'' \<or> full ! 1 = char_of (92 :: nat)))"
    and path: "path = (if windows \<and> is_slash_drive full then drop 1 full else full)"
    using assms unfolding file_uri_to_path_text_def seven Let_def by (auto split: if_splits option.splits)
  have "\<not> (\<exists>c rest. full = CHR ''/'' # c # rest \<and> (c = CHR ''/'' \<or> c = char_of (92 :: nat)))"
    using no_net by fastforce
  moreover have "char_of (0 :: nat) \<notin> set path" using no_nul path by (auto dest: in_set_dropD)
  ultimately show ?thesis using host path unfolding Let_def by auto
qed

lemma source_uri_is_local_witness:
  "char_of (0 :: nat) \<notin> set (the (file_uri_to_path_text ''file://localhost/a%20b?x'' False))"
proof -
  have "file_uri_to_path_text ''file://localhost/a%20b?x'' False = Some ''/a b''" by code_simp
  from source_uri_is_local [OF this] show ?thesis using \<open>file_uri_to_path_text _ _ = _\<close> by simp
qed

text \<open>
  A plus sign passes for a hexadecimal digit.  \<open>percent_decode\<close> takes a percent sign, a plus sign and
  one hexadecimal digit for a byte, because \<open>from_str_radix\<close> accepts a sign.
\<close>

lemma percent_plus_is_decoded:
  "percent_decode (''%+'' @ [c]) = (case hex_digit c of None \<Rightarrow> None | Some d \<Rightarrow> Some [char_of d])"
proof -
  have "hex_digit c = Some d \<Longrightarrow> d < 16" for d by (auto simp: hex_digit_def Let_def split: if_splits)
  then have "is_utf8 [of_nat d]" "unat (of_nat d :: byte) = d" if "hex_digit c = Some d" for d
    using that by (auto simp: word_less_nat_alt unat_of_nat)
  then show ?thesis
    by (auto simp: percent_decode_def u8_from_hex_def from_utf8_def of_bytes_def split: option.splits)
qed

section \<open>The promises at concrete inputs\<close>

definition nibble :: "nat \<Rightarrow> char" where
  "nibble n = char_of (65 + n)"

fun demo_unb58 :: "string \<Rightarrow> bytes option" where
  "demo_unb58 [] = Some []"
| "demo_unb58 [c] = None"
| "demo_unb58 (a # b # s) = map_option ((#) (of_nat (16 * (of_char a - 65) + (of_char b - 65)))) (demo_unb58 s)"

definition demo_b58 :: "bytes \<Rightarrow> string" where
  "demo_b58 bs = concat (map (\<lambda>b. [nibble (unat b div 16), nibble (unat b mod 16)]) bs)"

definition demo_upload :: created_upload where
  "demo_upload = Matrix_Upload \<lparr>mu_server = ''s'', mu_user_id = ''@a:s'', mu_mxc = ''mxc://s/1'', mu_name = ''n'', mu_mimetype = None,
     mu_size = 5, mu_encrypted = True\<rparr>"

definition demo_meta :: upload_meta where
  "demo_meta = \<lparr>um_upload = demo_upload, um_source_uri = None\<rparr>"

definition demo_access :: access_lib where
  "demo_access = \<lparr>al_seal = (\<lambda>key nonce aad p. Some (aad @ p)),
     al_open = (\<lambda>key nonce aad c. if take (length aad) c = aad then Some (drop (length aad) c) else None),
     al_b58 = demo_b58, al_unb58 = demo_unb58, al_derive = (\<lambda>_ token. token),
     al_meta_json = (\<lambda>m. if m = demo_meta then Some [1] else None), al_read_meta = (\<lambda>j. if j = [1] then Some demo_meta else None)\<rparr>"

lemma demo_access_ok: "access_ok demo_access"
proof -
  have byte: "unat b div 16 < 16 \<and> unat b mod 16 < 16 \<and> of_nat (16 * (unat b div 16) + unat b mod 16) = b" for b :: byte
  proof -
    have "unat b < 256" using unsigned_less [of b] by simp
    moreover have "16 * (unat b div 16) + unat b mod 16 = unat b" by simp
    moreover have "unat b div 16 < 16" using calculation(1) by linarith
    ultimately show ?thesis by (simp del: of_nat_add of_nat_mult)
  qed
  have nib: "(of_char (nibble n) :: nat) = 65 + n \<and> nibble n \<noteq> CHR ''_''" if "n < 16" for n
  proof -
    have "(of_char (nibble n) :: nat) = 65 + n" using that by (simp add: nibble_def)
    moreover have "(of_char (CHR ''_'') :: nat) = 95" by simp
    moreover have "nibble n \<noteq> CHR ''_''"
    proof
      assume "nibble n = CHR ''_''"
      then have "(of_char (nibble n) :: nat) = 95" by simp
      then show False using calculation(1) that by linarith
    qed
    ultimately show ?thesis by blast
  qed
  have "demo_unb58 (demo_b58 bs) = Some bs" for bs
    by (induction bs) (use nib byte in \<open>auto simp: demo_b58_def\<close>)
  moreover have "SEPARATOR \<notin> set (demo_b58 bs)" for bs
  proof (induction bs)
    case (Cons b bs)
    have "demo_b58 (b # bs) = nibble (unat b div 16) # nibble (unat b mod 16) # demo_b58 bs" by (simp add: demo_b58_def)
    then show ?case using Cons nib [of "unat b div 16"] nib [of "unat b mod 16"] byte [of b] unfolding SEPARATOR_def by simp metis
  qed (simp add: demo_b58_def)
  ultimately show ?thesis by (auto simp: access_ok_def demo_access_def append_eq_conv_conj)
qed

lemma url_opens_its_purpose_only_witness:
  "\<exists>s. to_url_key demo_access [] (Inr (replicate 24 0)) PURPOSE_MEDIA ''mxc://s/1'' True = Inr s
     \<and> open_url_key demo_access [] PURPOSE_MEDIA s True = Some ''mxc://s/1'' \<and> open_url_key demo_access [] PURPOSE_UPLOAD s True = None"
proof -
  obtain s where s: "to_url_key demo_access [] (Inr (replicate 24 0)) PURPOSE_MEDIA ''mxc://s/1'' True = Inr s"
    by (simp add: to_url_key_def to_text_def demo_access_def)
  have u: "is_utf8 (as_bytes ''mxc://s/1'')" by code_simp
  have n: "\<And>nonce. Inr (replicate 24 0) = (Inr nonce :: core_error_kind + bytes) \<Longrightarrow> length nonce = ACCESS_NONCE_LEN"
    by (auto simp: ACCESS_NONCE_LEN_def)
  show ?thesis
    using s url_opens_its_purpose_only [OF demo_access_ok u s n, of PURPOSE_MEDIA True]
      url_opens_its_purpose_only [OF demo_access_ok u s n, of PURPOSE_UPLOAD True]
    by (auto simp: PURPOSE_MEDIA_def PURPOSE_UPLOAD_def)
qed


definition demo_env :: data_env where
  "demo_env = \<lparr>de_access = demo_access, de_pool = demo_pool, de_unlocked = True, de_keys = Some [], de_enforced = False,
     de_find = (\<lambda>mxc. Inr (Some \<lparr>so_size = 5, so_mimetype = None, so_kind = MatrixEncrypted, so_verified = Unknown,
        so_origin = Local \<lparr>lf_bytes = [1, 2, 3, 4, 5], lf_position = 0, lf_most = (\<lambda>_. 1)\<rparr>\<rparr>)),
     de_answers = (\<lambda>k p. Inl Core_Network), de_receive = (\<lambda>m. Inr (Some [])), de_to_str = Some, de_header_ok = (\<lambda>_. True)\<rparr>"

definition demo_url :: string where
  "demo_url = PLAIN_PREFIX @ demo_b58 (PURPOSE_MEDIA # as_bytes ''mxc://s/1'')"

definition demo_request :: http_request where
  "demo_request = \<lparr>rq_method = ''GET'', rq_path = MEDIA_PATH @ demo_url,
     rq_headers = [''range'' \<mapsto> ''bytes=1-3'', ''wbf-upload-meta'' \<mapsto> PLAIN_PREFIX @ demo_b58 [1]]\<rparr>"

lemma demo_range: "parse_range (header_text demo_env demo_request ''range'') 5 = Part 1 4"
proof -
  have "header_text demo_env demo_request ''range'' = Some ''bytes=1-3''"
    by code_simp
  then show ?thesis
    by (simp add: parse_range_def strip_prefix_def trim_def is_ascii_space_def split_once_def range_between_def parse_u64_def
        parse_unsigned_def is_ascii_digit_def digits_value_def U64_MAX_def)
qed

lemma demo_url_opens: "open_url_key demo_access [] PURPOSE_MEDIA demo_url False = Some ''mxc://s/1''"
  by code_simp

definition demo_put_url :: string where
  "demo_put_url = PLAIN_PREFIX @ demo_b58 (PURPOSE_UPLOAD # as_bytes ''mxc://s/1'')"

lemma demo_put_opens:
  "begin_upload demo_upload {} = Some ({(upload_server demo_upload, upload_mxc demo_upload)}, upload_server demo_upload, upload_mxc demo_upload)"
  "open_url_key demo_access [] PURPOSE_UPLOAD demo_put_url False = Some ''mxc://s/1''"
  "header_text demo_env demo_request UPLOAD_META_HEADER = Some (PLAIN_PREFIX @ demo_b58 [1])"
  "open_upload_meta demo_access [] (PLAIN_PREFIX @ demo_b58 [1]) ''mxc://s/1'' False = Some demo_meta"
  "um_upload demo_meta = demo_upload"
      apply (simp add: begin_upload_def Let_def)
     apply code_simp
    apply code_simp
   apply code_simp
  apply (simp add: demo_meta_def)
  done


lemma cut_off_body_is_short_witness:
  "\<exists>frames e. rp_body (get_media demo_env demo_url demo_request False) = Frames frames e
     \<and> (\<exists>n. length (concat frames) \<le> n \<and> (e = None \<longleftrightarrow> length (concat frames) = n))"
proof -
  have "get_media demo_env demo_url demo_request False = media_reply demo_env (the (case_sum (\<lambda>_. None) id (de_find demo_env ''mxc://s/1''))) 206 1 4 False"
    using demo_range demo_url_opens by (simp add: get_media_def demo_env_def)
  moreover obtain frames e where
    "rp_body (media_reply demo_env (the (case_sum (\<lambda>_. None) id (de_find demo_env ''mxc://s/1''))) 206 1 4 False) = Frames frames e"
    by (cases "stream_body (de_pool demo_env) (de_answers demo_env) 0
        (into_stream (the (case_sum (\<lambda>_. None) id (de_find demo_env ''mxc://s/1''))) 1 4)") (simp add: media_reply_def Let_def)
  ultimately have "rp_body (get_media demo_env demo_url demo_request False) = Frames frames e" by simp
  with cut_off_body_is_short [OF this] show ?thesis by blast
qed

lemma one_put_per_upload_witness:
  "\<exists>r meta guard. putting demo_env [guard] r
     \<and> start_upload demo_env demo_put_url demo_request r = (r, Inl (error_reply 409 BUSY))"
proof -
  have start: "start_upload demo_env demo_put_url demo_request {} =
      ({(upload_server demo_upload, upload_mxc demo_upload)}, Inr (demo_meta, upload_server demo_upload, upload_mxc demo_upload))"
    using demo_put_opens by (simp add: start_upload_def demo_env_def)
  have "putting demo_env [(upload_server demo_upload, upload_mxc demo_upload)] {(upload_server demo_upload, upload_mxc demo_upload)}"
    using putting.started [OF putting.idle start] .
  with one_put_per_upload [OF this start] show ?thesis by auto
qed

end
