(* ===== verification/Rpc_Pack.thy ===== *)
theory Rpc_Pack
  imports Text_Ops
begin

text \<open>
  The control plane of the daemon, its frames and messages: \<open>crates/wbf-daemon/src/pack.rs\<close> (version, type,
  data), \<open>protocol.rs\<close> (the two checks of \<open>hello\<close>) and \<open>message.rs\<close> (requests, responses, codes).
  XChaCha20-Poly1305 and BLAKE3 are arguments.  The texts of messages are left out: nothing reads them.
\<close>

section \<open>Frames\<close>

definition PACK_VERSION :: byte where "PACK_VERSION = 0x01"
definition MAX_FRAME_BYTES :: nat where "MAX_FRAME_BYTES = 1024 * 1024"
definition TOKEN_LEN :: nat where "TOKEN_LEN = 256"
definition RPC_NONCE_LEN :: nat where "RPC_NONCE_LEN = 24"
definition RPC_AAD :: bytes where "RPC_AAD = as_bytes ''wbf-rpc v1''"
definition CONTEXT_CLIENT_TO_DAEMON :: string where
  "CONTEXT_CLIENT_TO_DAEMON = ''wbf-matrix-client rpc client-to-daemon v1''"
definition CONTEXT_DAEMON_TO_CLIENT :: string where
  "CONTEXT_DAEMON_TO_CLIENT = ''wbf-matrix-client rpc daemon-to-client v1''"

datatype pack_type = Plain_Pack | Cipher_Pack

fun pack_type_byte :: "pack_type \<Rightarrow> byte" where
  "pack_type_byte Plain_Pack = 0x01"
| "pack_type_byte Cipher_Pack = 0x02"

definition pack_type_from_byte :: "byte \<Rightarrow> pack_type option" where
  "pack_type_from_byte b = (if b = 0x01 then Some Plain_Pack else if b = 0x02 then Some Cipher_Pack else None)"

datatype rpc_pack_error =
  Frame_TooShort | Frame_UnknownVersion byte | Frame_UnknownType byte | Frame_TooLarge nat | Frame_CannotDecrypt

record rpc_keys =
  rk_client_to_daemon :: bytes
  rk_daemon_to_client :: bytes

record rpc_crypto =
  rc_seal :: "bytes \<Rightarrow> bytes \<Rightarrow> bytes \<Rightarrow> bytes \<Rightarrow> bytes option"  \<comment> \<open>key, nonce, AAD, message\<close>
  rc_open :: "bytes \<Rightarrow> bytes \<Rightarrow> bytes \<Rightarrow> bytes \<Rightarrow> bytes option"
  rc_derive :: "string \<Rightarrow> bytes \<Rightarrow> bytes"

definition rpc_keys_from_token :: "rpc_crypto \<Rightarrow> bytes \<Rightarrow> rpc_keys" where
  "rpc_keys_from_token C token =
     \<lparr>rk_client_to_daemon = rc_derive C CONTEXT_CLIENT_TO_DAEMON token,
      rk_daemon_to_client = rc_derive C CONTEXT_DAEMON_TO_CLIENT token\<rparr>"

definition from_token_file :: "rpc_crypto \<Rightarrow> bytes \<Rightarrow> nat + rpc_keys" where
  "from_token_file C token =
     (if length token \<noteq> TOKEN_LEN then Inl (length token) else Inr (rpc_keys_from_token C token))"

datatype side = Client | Daemon

fun sending_key :: "rpc_keys \<Rightarrow> side \<Rightarrow> bytes" where
  "sending_key keys Client = rk_client_to_daemon keys"
| "sending_key keys Daemon = rk_daemon_to_client keys"

fun receiving_key :: "rpc_keys \<Rightarrow> side \<Rightarrow> bytes" where
  "receiving_key keys Client = rk_daemon_to_client keys"
| "receiving_key keys Daemon = rk_client_to_daemon keys"

text \<open>\<open>draw\<close> is the nonce that \<open>getrandom\<close> gives, or nothing.\<close>

definition rpc_seal :: "rpc_crypto \<Rightarrow> rpc_keys \<Rightarrow> side \<Rightarrow> pack_type \<Rightarrow> bytes option \<Rightarrow> bytes \<Rightarrow> bytes option" where
  "rpc_seal C keys side pack_type draw json =
     (case pack_type of
        Plain_Pack \<Rightarrow> Some (PACK_VERSION # pack_type_byte pack_type # json)
      | Cipher_Pack \<Rightarrow>
          Option.bind draw (\<lambda>nonce.
          Option.bind (rc_seal C (sending_key keys side) nonce RPC_AAD json) (\<lambda>ciphertext.
            Some (PACK_VERSION # pack_type_byte pack_type # nonce @ ciphertext))))"

definition rpc_open :: "rpc_crypto \<Rightarrow> rpc_keys \<Rightarrow> side \<Rightarrow> bytes \<Rightarrow> rpc_pack_error + pack_type \<times> bytes" where
  "rpc_open C keys side frame =
     (if length frame > MAX_FRAME_BYTES then Inl (Frame_TooLarge (length frame))
      else case frame of
        version # type_byte # data \<Rightarrow>
          if version \<noteq> PACK_VERSION then Inl (Frame_UnknownVersion version)
          else (case pack_type_from_byte type_byte of
            None \<Rightarrow> Inl (Frame_UnknownType type_byte)
          | Some Plain_Pack \<Rightarrow> Inr (Plain_Pack, data)
          | Some Cipher_Pack \<Rightarrow>
              if length data < RPC_NONCE_LEN then Inl Frame_TooShort
              else rbind
                (ok_or Frame_CannotDecrypt
                  (rc_open C (receiving_key keys side) (take RPC_NONCE_LEN data) RPC_AAD (drop RPC_NONCE_LEN data)))
                (\<lambda>json. Inr (Cipher_Pack, json)))
      | _ \<Rightarrow> Inl Frame_TooShort)"

section \<open>The two checks of hello\<close>

definition CURRENT_PROTOCOL :: u32 where "CURRENT_PROTOCOL = 2"
definition SUPPORTED_PROTOCOLS :: "u32 list" where "SUPPORTED_PROTOCOLS = [CURRENT_PROTOCOL]"
definition CLIENT_NAME_PREFIX :: string where "CLIENT_NAME_PREFIX = ''wbf-matrix''"

definition negotiate :: "u32 list \<Rightarrow> u32 option" where
  "negotiate offered =
     (let common = filter (\<lambda>v. v \<in> set SUPPORTED_PROTOCOLS) offered
      in if common = [] then None else Some (Max (set common)))"

definition is_client_name_acceptable :: "string \<Rightarrow> bool" where
  "is_client_name_acceptable client \<longleftrightarrow> strip_prefix CLIENT_NAME_PREFIX client \<noteq> None"

section \<open>Messages\<close>

text \<open>A JSON value is of any type \<open>'v\<close>.\<close>

record 'v rpc_request =
  rr_method :: string
  rr_params :: 'v
  rr_id :: "u64 option"

definition push_request :: "string \<Rightarrow> 'v \<Rightarrow> 'v rpc_request" where
  "push_request method_name params = \<lparr>rr_method = method_name, rr_params = params, rr_id = None\<rparr>"

record 'v rpc_response =
  rs_code :: nat
  rs_result :: 'v
  rs_id :: "u64 option"
  rs_data :: "'v option"

datatype close_reason = BadToken | BadFrame | HelloRequired | BadClient | ProtocolMismatch | ShuttingDown

fun close_code :: "close_reason \<Rightarrow> nat" where
  "close_code BadToken = 9001"
| "close_code BadFrame = 9002"
| "close_code HelloRequired = 9003"
| "close_code BadClient = 9004"
| "close_code ProtocolMismatch = 9005"
| "close_code ShuttingDown = 9006"

fun close_name :: "close_reason \<Rightarrow> string" where
  "close_name BadToken = ''BAD_TOKEN''"
| "close_name BadFrame = ''BAD_FRAME''"
| "close_name HelloRequired = ''HELLO_REQUIRED''"
| "close_name BadClient = ''BAD_CLIENT''"
| "close_name ProtocolMismatch = ''PROTOCOL_MISMATCH''"
| "close_name ShuttingDown = ''SHUTTING_DOWN''"

fun ws_close_status :: "close_reason \<Rightarrow> nat" where
  "ws_close_status ShuttingDown = 1001"
| "ws_close_status _ = 1008"

definition RPC_BAD_REQUEST :: nat where "RPC_BAD_REQUEST = 100"
definition RPC_INVALID_PARAMS :: nat where "RPC_INVALID_PARAMS = 102"

section \<open>Facts\<close>

lemma pack_type_bytes [simp]: "pack_type_from_byte (pack_type_byte t) = Some t"
  by (cases t) (simp_all add: pack_type_from_byte_def)

lemma pack_type_from_byte_Some: "pack_type_from_byte b = Some t \<longleftrightarrow> b = pack_type_byte t"
  by (cases t) (auto simp: pack_type_from_byte_def)

text \<open>Documented behaviour of the AEAD: it opens exactly what was sealed.\<close>

definition rpc_crypto_ok :: "rpc_crypto \<Rightarrow> bool" where
  "rpc_crypto_ok C \<longleftrightarrow>
     (\<forall>key nonce aad p c. rc_open C key nonce aad c = Some p \<longleftrightarrow> rc_seal C key nonce aad p = Some c)"

lemma rpc_open_cipher:
  "rpc_open C keys side frame = Inr (Cipher_Pack, json) \<longleftrightarrow>
     length frame \<le> MAX_FRAME_BYTES
     \<and> (\<exists>nonce c. frame = PACK_VERSION # pack_type_byte Cipher_Pack # nonce @ c \<and> length nonce = RPC_NONCE_LEN
          \<and> rc_open C (receiving_key keys side) nonce RPC_AAD c = Some json)"
  (is "?l \<longleftrightarrow> ?r")
proof
  assume l: ?l
  then obtain type_byte data where f: "frame = PACK_VERSION # type_byte # data" "length frame \<le> MAX_FRAME_BYTES"
    by (auto simp: rpc_open_def split: if_splits list.splits)
  have t: "pack_type_from_byte type_byte = Some Cipher_Pack"
    using l f by (auto simp: rpc_open_def split: if_splits option.splits pack_type.splits)
  then have "RPC_NONCE_LEN \<le> length data"
    "rc_open C (receiving_key keys side) (take RPC_NONCE_LEN data) RPC_AAD (drop RPC_NONCE_LEN data) = Some json"
    using l f by (auto simp: rpc_open_def rbind_eq_Inr ok_or_def split: if_splits option.splits)
  then show ?r using f t unfolding pack_type_from_byte_Some
    by (intro conjI exI [of _ "take RPC_NONCE_LEN data"] exI [of _ "drop RPC_NONCE_LEN data"]) simp_all
qed (auto simp: rpc_open_def ok_or_def pack_type_from_byte_def)

lemma rpc_open_plain:
  "rpc_open C keys side frame = Inr (Plain_Pack, json) \<longleftrightarrow>
     length frame \<le> MAX_FRAME_BYTES \<and> frame = PACK_VERSION # pack_type_byte Plain_Pack # json"
  (is "?l \<longleftrightarrow> ?r")
proof
  assume l: ?l
  then obtain type_byte data where f: "frame = PACK_VERSION # type_byte # data" "length frame \<le> MAX_FRAME_BYTES"
    by (auto simp: rpc_open_def split: if_splits list.splits)
  have t: "pack_type_from_byte type_byte = Some Plain_Pack"
    using l f by (auto simp: rpc_open_def rbind_eq_Inr split: if_splits option.splits pack_type.splits)
  then show ?r using l f unfolding pack_type_from_byte_Some by (simp add: rpc_open_def pack_type_from_byte_def)
qed (auto simp: rpc_open_def pack_type_from_byte_def)

end
