(* ===== verification/Rpc_Connection.thy ===== *)
theory Rpc_Connection
  imports Rpc_Pack
begin

text \<open>
  One connection of the control plane: \<open>crates/wbf-daemon/src/connection.rs\<close> (what a frame means, and whether
  a frame goes out sealed), the subscriptions of \<open>push.rs\<close>, and the tasks of \<open>server.rs\<close> that serve a
  connection, as a step for each thing that happens to it.  \<open>serde_json\<close> is an argument: its values are of
  type \<open>'v\<close>, and \<open>json_lib\<close> has the operations the code uses.
\<close>

section \<open>JSON\<close>

record 'v json_lib =
  jl_parse :: "bytes \<Rightarrow> 'v option"  \<comment> \<open>\<open>from_slice\<close>\<close>
  jl_request :: "'v \<Rightarrow> 'v rpc_request option"  \<comment> \<open>\<open>from_value::<Request>\<close>\<close>
  jl_hello :: "'v \<Rightarrow> (u32 list \<times> string) option"  \<comment> \<open>\<open>from_value::<HelloParams>\<close>\<close>
  jl_get :: "'v \<Rightarrow> string \<Rightarrow> 'v option"
  jl_as_u64 :: "'v \<Rightarrow> u64 option"
  jl_as_array :: "'v \<Rightarrow> 'v list option"
  jl_as_str :: "'v \<Rightarrow> string option"
  jl_is_null :: "'v \<Rightarrow> bool"
  jl_null :: 'v
  jl_text :: "string \<Rightarrow> 'v"
  jl_number :: "int \<Rightarrow> 'v"
  jl_bool :: "bool \<Rightarrow> 'v"
  jl_array :: "'v list \<Rightarrow> 'v"
  jl_object :: "(string \<times> 'v) list \<Rightarrow> 'v"  \<comment> \<open>\<open>json!({..})\<close>\<close>
  jl_insert :: "'v \<Rightarrow> string \<Rightarrow> 'v \<Rightarrow> 'v"  \<comment> \<open>\<open>as_object_mut\<close> and \<open>insert\<close>\<close>
  jl_response :: "'v rpc_response \<Rightarrow> bytes option"  \<comment> \<open>\<open>to_vec\<close>\<close>
  jl_push :: "'v rpc_request \<Rightarrow> bytes option"

definition response_ok :: "'v json_lib \<Rightarrow> u64 option \<Rightarrow> 'v \<Rightarrow> 'v rpc_response" where
  "response_ok J id_of result = \<lparr>rs_code = 0, rs_result = result, rs_id = id_of, rs_data = None\<rparr>"

definition response_error :: "'v json_lib \<Rightarrow> u64 option \<Rightarrow> nat \<Rightarrow> 'v rpc_response" where
  "response_error J id_of code = \<lparr>rs_code = code, rs_result = jl_null J, rs_id = id_of, rs_data = None\<rparr>"

definition response_close :: "'v json_lib \<Rightarrow> u64 option \<Rightarrow> close_reason \<Rightarrow> 'v rpc_response" where
  "response_close J id_of reason =
     \<lparr>rs_code = close_code reason, rs_result = jl_object J [(''close'', jl_text J (close_name reason))],
      rs_id = id_of, rs_data = None\<rparr>"

section \<open>The connection\<close>

datatype 'v inbound =
    Hello_Accepted "u64 option" u32
  | Inbound_Request "'v rpc_request"
  | Inbound_Close "'v rpc_response"
  | Inbound_Reply "'v rpc_response"

record connection =
  cn_keys :: rpc_keys
  cn_protocol :: "u32 option"
  cn_last_inbound :: pack_type

definition connection_new :: "rpc_keys \<Rightarrow> connection" where
  "connection_new keys = \<lparr>cn_keys = keys, cn_protocol = None, cn_last_inbound = Cipher_Pack\<rparr>"

definition hello :: "'v json_lib \<Rightarrow> connection \<Rightarrow> 'v rpc_request \<Rightarrow> connection \<times> 'v inbound" where
  "hello J cn request =
     (case jl_hello J (rr_params request) of
        None \<Rightarrow> (cn, Inbound_Close (response_close J (rr_id request) BadFrame))
      | Some (protocols, client) \<Rightarrow>
          if \<not> is_client_name_acceptable client then (cn, Inbound_Close (response_close J (rr_id request) BadClient))
          else case negotiate protocols of
            None \<Rightarrow> (cn, Inbound_Close (response_close J (rr_id request) ProtocolMismatch))
          | Some agreed \<Rightarrow>
              (let protocol = (case cn_protocol cn of Some p \<Rightarrow> p | None \<Rightarrow> agreed)
               in (cn\<lparr>cn_protocol := Some protocol\<rparr>, Hello_Accepted (rr_id request) protocol)))"

text \<open>\<open>enforced\<close> is what the shared switch says at this moment.\<close>

definition receive :: "rpc_crypto \<Rightarrow> 'v json_lib \<Rightarrow> bool \<Rightarrow> bytes \<Rightarrow> connection \<Rightarrow> connection \<times> 'v inbound" where
  "receive C J enforced frame cn =
     (case rpc_open C (cn_keys cn) Daemon frame of
        Inl Frame_CannotDecrypt \<Rightarrow> (cn, Inbound_Close (response_close J None BadToken))
      | Inl e \<Rightarrow> (cn, Inbound_Close (response_close J None BadFrame))
      | Inr (pack_type, json_bytes) \<Rightarrow>
          if pack_type = Plain_Pack \<and> enforced then (cn, Inbound_Close (response_close J None BadFrame))
          else
            let cn1 = cn\<lparr>cn_last_inbound := pack_type\<rparr> in
            (case jl_parse J json_bytes of
               None \<Rightarrow> (cn1, Inbound_Close (response_close J None BadFrame))
             | Some v \<Rightarrow>
                 (case jl_request J v of
                    None \<Rightarrow>
                      if cn_protocol cn1 = None then (cn1, Inbound_Close (response_close J None HelloRequired))
                      else (cn1, Inbound_Reply (response_error J (Option.bind (jl_get J v ''id'') (jl_as_u64 J)) RPC_BAD_REQUEST))
                  | Some request \<Rightarrow>
                      if rr_method request = ''hello'' then hello J cn1 request
                      else if cn_protocol cn1 = None then
                        (cn1, Inbound_Close (response_close J (rr_id request) HelloRequired))
                      else (cn1, Inbound_Request request))))"

definition outbound_type :: "bool \<Rightarrow> connection \<Rightarrow> pack_type" where
  "outbound_type enforced cn = (if enforced then Cipher_Pack else cn_last_inbound cn)"

definition seal_response ::
    "rpc_crypto \<Rightarrow> 'v json_lib \<Rightarrow> bool \<Rightarrow> bytes option \<Rightarrow> connection \<Rightarrow> 'v rpc_response \<Rightarrow> bytes option" where
  "seal_response C J enforced draw cn response =
     Option.bind (jl_response J response) (rpc_seal C (cn_keys cn) Daemon (outbound_type enforced cn) draw)"

definition seal_push ::
    "rpc_crypto \<Rightarrow> 'v json_lib \<Rightarrow> bool \<Rightarrow> bytes option \<Rightarrow> connection \<Rightarrow> 'v rpc_request \<Rightarrow> bytes option" where
  "seal_push C J enforced draw cn push =
     Option.bind (jl_push J push) (rpc_seal C (cn_keys cn) Daemon (outbound_type enforced cn) draw)"

definition seal_close :: "rpc_crypto \<Rightarrow> 'v json_lib \<Rightarrow> connection \<Rightarrow> 'v rpc_response \<Rightarrow> bytes option" where
  "seal_close C J cn notice = Option.bind (jl_response J notice) (rpc_seal C (cn_keys cn) Daemon Plain_Pack None)"

definition params_or_empty_object :: "'v json_lib \<Rightarrow> 'v \<Rightarrow> 'v" where
  "params_or_empty_object J params = (if jl_is_null J params then jl_object J [] else params)"

section \<open>Subscriptions\<close>

record subscriptions =
  sb_events :: "string set"
  sb_user :: "string option"

definition no_subscriptions :: subscriptions where
  "no_subscriptions = \<lparr>sb_events = {}, sb_user = None\<rparr>"

definition subscribe :: "subscriptions \<Rightarrow> string list \<Rightarrow> string option \<Rightarrow> subscriptions" where
  "subscribe sb names user =
     (let sb1 = sb\<lparr>sb_events := sb_events sb \<union> set names\<rparr>
      in if user \<noteq> None then sb1\<lparr>sb_user := user\<rparr> else sb1)"

definition unsubscribe :: "subscriptions \<Rightarrow> string list \<Rightarrow> subscriptions" where
  "unsubscribe sb names = sb\<lparr>sb_events := sb_events sb - set names\<rparr>"

definition wants :: "subscriptions \<Rightarrow> string \<Rightarrow> string option \<Rightarrow> bool" where
  "wants sb method_name user \<longleftrightarrow>
     (''*'' \<in> sb_events sb \<or> method_name \<in> sb_events sb)
     \<and> (case (sb_user sb, user) of (Some wanted, Some actual) \<Rightarrow> wanted = actual | _ \<Rightarrow> True)"

definition parse_subscription_params :: "'v json_lib \<Rightarrow> 'v \<Rightarrow> (string list \<times> string option) option" where
  "parse_subscription_params J params =
     Option.bind (Option.bind (jl_get J params ''events'') (jl_as_array J)) (\<lambda>names_json.
       let names = map (jl_as_str J) names_json in
       if None \<in> set names then None
       else case jl_get J params ''user'' of
         None \<Rightarrow> Some (map the names, None)
       | Some v \<Rightarrow>
           if jl_is_null J v then Some (map the names, None)
           else case jl_as_str J v of Some user \<Rightarrow> Some (map the names, Some user) | None \<Rightarrow> None)"

text \<open>\<open>list\<close> sorts the names.\<close>

definition listed :: "'v json_lib \<Rightarrow> subscriptions \<Rightarrow> 'v" where
  "listed J sb =
     jl_object J [(''subscribed'',
       jl_array J (map (jl_text J) (sorted_key_list_of_set (map of_char :: string \<Rightarrow> nat list) (sb_events sb))))]"

definition subscription_response ::
    "'v json_lib \<Rightarrow> subscriptions \<Rightarrow> 'v rpc_request \<Rightarrow> subscriptions \<times> 'v rpc_response" where
  "subscription_response J sb request =
     (case parse_subscription_params J (params_or_empty_object J (rr_params request)) of
        None \<Rightarrow> (sb, response_error J (rr_id request) RPC_INVALID_PARAMS)
      | Some (names, user) \<Rightarrow>
          (let sb1 = (if rr_method request = ''subscribe'' then subscribe sb names user else unsubscribe sb names)
           in (sb1, response_ok J (rr_id request) (listed J sb1))))"

end
