(* ===== verification/Rpc_Server.thy ===== *)
theory Rpc_Server
  imports Rpc_Connection
begin

text \<open>
  What the core tells, as pushes (\<open>push_of\<close> of \<open>crates/wbf-daemon/src/push.rs\<close>), and the tasks that serve one
  connection (\<open>server.rs\<close>): the loop that reads messages, the spawned calls, the forwarding of pushes and the
  writer.  Each step is one turn of one of these tasks; \<open>enforced\<close> and the nonces drawn come with the step.
\<close>

section \<open>Pushes\<close>

text \<open>Values that only travel through (chat messages, states with serde names) come as JSON.\<close>

datatype 'v core_event =
    Note "u64 option" string
  | Progress "u64 option" u64 "u64 option" string
  | Message string string 'v  \<comment> \<open>user, \<open>message.conversation\<close>, message\<close>
  | Sync_State string 'v "int option"
  | Link_Event string 'v 'v "string option"
  | Device_Changed string string string 'v bool
  | Membership string string 'v "'v option" bool
  | Keys string 'v "nat option" "nat option" "string option"
  | Verify string 'v
  | Media_Told string string 'v u32 u32 "'v option" "string option"
  | Received string 'v byte byte u64 u32 'v

record 'v push =
  pu_request :: "'v rpc_request"
  pu_user :: "string option"
  pu_job :: "u64 option"

definition insert_if :: "'v json_lib \<Rightarrow> string \<Rightarrow> 'v option \<Rightarrow> 'v \<Rightarrow> 'v" where
  "insert_if J key x params = (case x of None \<Rightarrow> params | Some v \<Rightarrow> jl_insert J params key v)"

definition push_to :: "string \<Rightarrow> string \<Rightarrow> 'v \<Rightarrow> 'v push" where
  "push_to user method_name params = \<lparr>pu_request = push_request method_name params, pu_user = Some user, pu_job = None\<rparr>"

fun push_of :: "'v json_lib \<Rightarrow> 'v core_event \<Rightarrow> 'v push" where
  "push_of J (Note job text) =
     \<lparr>pu_request = push_request ''note''
        (insert_if J ''id'' (map_option (\<lambda>j. jl_number J (uint j)) job) (jl_object J [(''note'', jl_text J text)])),
      pu_user = None, pu_job = job\<rparr>"
| "push_of J (Progress job n_done n_total text) =
     \<lparr>pu_request = push_request ''progress''
        (insert_if J ''total'' (map_option (\<lambda>t. jl_number J (uint t)) n_total)
          (insert_if J ''id'' (map_option (\<lambda>j. jl_number J (uint j)) job)
            (jl_object J [(''done'', jl_number J (uint n_done)), (''note'', jl_text J text)]))),
      pu_user = None, pu_job = job\<rparr>"
| "push_of J (Message user conversation message) =
     push_to user ''room.message''
       (jl_object J [(''user'', jl_text J user), (''room'', jl_text J conversation), (''message'', message)])"
| "push_of J (Sync_State user state cg_seq) =
     push_to user ''sync.state''
       (insert_if J ''cg_seq'' (map_option (jl_number J) cg_seq) (jl_object J [(''user'', jl_text J user), (''state'', state)]))"
| "push_of J (Link_Event user role state reason) =
     push_to user ''link.state''
       (insert_if J ''reason'' (map_option (jl_text J) reason)
         (jl_object J [(''user'', jl_text J user), (''role'', role), (''state'', state)]))"
| "push_of J (Device_Changed user changed_user device_version rooms gap) =
     push_to user ''devices.changed''
       (jl_object J [(''user'', jl_text J user), (''changed_user'', jl_text J changed_user),
          (''device_version'', jl_text J device_version), (''rooms'', rooms), (''gap'', jl_bool J gap)])"
| "push_of J (Membership user room membership invite gap) =
     push_to user ''room.membership''
       (insert_if J ''invite'' invite
         (jl_object J [(''user'', jl_text J user), (''room'', jl_text J room), (''membership'', membership), (''gap'', jl_bool J gap)]))"
| "push_of J (Keys user state imported room_keys reason) =
     push_to user ''keys.state''
       (insert_if J ''reason'' (map_option (jl_text J) reason)
         (insert_if J ''room_keys'' (map_option (\<lambda>n. jl_number J (int n)) room_keys)
           (insert_if J ''imported'' (map_option (\<lambda>n. jl_number J (int n)) imported)
             (jl_object J [(''user'', jl_text J user), (''state'', state)]))))"
| "push_of J (Verify user state) = push_to user ''verify.state'' (jl_insert J state ''user'' (jl_text J user))"
| "push_of J (Media_Told user mxc state n_done n_total verified reason) =
     push_to user ''media.download''
       (insert_if J ''reason'' (map_option (jl_text J) reason)
         (insert_if J ''verified'' verified
           (jl_object J [(''user'', jl_text J user), (''mxc'', jl_text J mxc), (''state'', state),
              (''done'', jl_number J (uint n_done)), (''total'', jl_number J (uint n_total))])))"
| "push_of J (Received user role k subtype id_of seq route) =
     push_to user ''pack.received''
       (jl_object J [(''user'', jl_text J user), (''role'', role), (''kind'', jl_number J (uint k)),
          (''subtype'', jl_number J (uint subtype)), (''id'', jl_number J (uint id_of)), (''seq'', jl_number J (uint seq)),
          (''route'', route)])"

definition desync :: "'v json_lib \<Rightarrow> u64 \<Rightarrow> 'v rpc_request" where
  "desync J missed = push_request ''desync'' (jl_object J [(''missed'', jl_number J (uint missed))])"

section \<open>One connection being served\<close>

datatype outgoing = Out_Frame bytes | Close_After bytes close_reason

text \<open>
  \<open>sv_reading\<close>: the loop still runs.  \<open>sv_writer\<close>: the socket takes what the writer sends.  \<open>sv_calls\<close>: the
  spawned calls that have not been answered.  \<open>sv_out\<close>: what was put into the channel of the writer, oldest first.
\<close>

record 'v served =
  sv_connection :: connection
  sv_subscriptions :: subscriptions
  sv_in_flight :: "u64 set"
  sv_calls :: "'v rpc_request list"
  sv_reading :: bool
  sv_writer :: bool
  sv_out :: "outgoing list"

definition served_new :: "rpc_keys \<Rightarrow> 'v served" where
  "served_new keys =
     \<lparr>sv_connection = connection_new keys, sv_subscriptions = no_subscriptions, sv_in_flight = {}, sv_calls = [],
      sv_reading = True, sv_writer = True, sv_out = []\<rparr>"

definition put_out :: "outgoing \<Rightarrow> 'v served \<Rightarrow> 'v served" where
  "put_out out s = (if sv_writer s then s\<lparr>sv_out := sv_out s @ [out]\<rparr> else s)"

text \<open>A frame that goes out: without one (it could not be sealed) nothing is sent; a writer that is gone ends the loop.\<close>

definition send_frame :: "bytes option \<Rightarrow> 'v served \<Rightarrow> 'v served" where
  "send_frame frame s =
     (case frame of
        None \<Rightarrow> s
      | Some bs \<Rightarrow> if sv_writer s then put_out (Out_Frame bs) s else s\<lparr>sv_reading := False\<rparr>)"

definition send_close :: "bytes option \<Rightarrow> close_reason \<Rightarrow> 'v served \<Rightarrow> 'v served" where
  "send_close frame reason s =
     (case frame of None \<Rightarrow> s | Some bs \<Rightarrow> put_out (Close_After bs reason) s)\<lparr>sv_reading := False\<rparr>"

definition close_reason_of :: "'v rpc_response \<Rightarrow> close_reason" where
  "close_reason_of notice =
     (case find (\<lambda>r. close_code r = rs_code notice) [BadToken, BadFrame, HelloRequired, BadClient, ProtocolMismatch, ShuttingDown] of
        Some r \<Rightarrow> r | None \<Rightarrow> BadFrame)"

datatype ws_message = Ws_Binary bytes | Ws_Close | Ws_Text | Ws_Other

text \<open>\<open>hello_result\<close> is what the handle says of the daemon.\<close>

definition on_inbound ::
    "rpc_crypto \<Rightarrow> 'v json_lib \<Rightarrow> (u32 \<Rightarrow> 'v) \<Rightarrow> bool \<Rightarrow> bytes option \<Rightarrow> 'v inbound \<Rightarrow> 'v served \<Rightarrow> 'v served" where
  "on_inbound C J hello_result enforced draw inbound s =
     (case inbound of
        Inbound_Close notice \<Rightarrow> send_close (seal_close C J (sv_connection s) notice) (close_reason_of notice) s
      | Inbound_Reply response \<Rightarrow> send_frame (seal_response C J enforced draw (sv_connection s) response) s
      | Hello_Accepted id_of protocol \<Rightarrow>
          send_frame (seal_response C J enforced draw (sv_connection s) (response_ok J id_of (hello_result protocol))) s
      | Inbound_Request request \<Rightarrow>
          if rr_method request = ''subscribe'' \<or> rr_method request = ''unsubscribe'' then
            (case subscription_response J (sv_subscriptions s) request of
               (sb, response) \<Rightarrow>
                 send_frame (seal_response C J enforced draw (sv_connection s) response) (s\<lparr>sv_subscriptions := sb\<rparr>))
          else
            s\<lparr>sv_calls := sv_calls s @ [request],
              sv_in_flight := (case rr_id request of Some i \<Rightarrow> insert i (sv_in_flight s) | None \<Rightarrow> sv_in_flight s)\<rparr>)"

definition on_message ::
    "rpc_crypto \<Rightarrow> 'v json_lib \<Rightarrow> (u32 \<Rightarrow> 'v) \<Rightarrow> bool \<Rightarrow> bytes option \<Rightarrow> ws_message option \<Rightarrow> 'v served \<Rightarrow> 'v served" where
  "on_message C J hello_result enforced draw message s =
     (case message of
        None \<Rightarrow> s\<lparr>sv_reading := False\<rparr>
      | Some Ws_Close \<Rightarrow> s\<lparr>sv_reading := False\<rparr>
      | Some Ws_Other \<Rightarrow> s
      | Some Ws_Text \<Rightarrow> send_close (seal_close C J (sv_connection s) (response_close J None BadFrame)) BadFrame s
      | Some (Ws_Binary frame) \<Rightarrow>
          (case receive C J enforced frame (sv_connection s) of
             (cn, inbound) \<Rightarrow> on_inbound C J hello_result enforced draw inbound (s\<lparr>sv_connection := cn\<rparr>)))"

text \<open>A spawned call comes back with a response: its number is no longer in flight, and the response is sent.\<close>

definition call_done ::
    "rpc_crypto \<Rightarrow> 'v json_lib \<Rightarrow> bool \<Rightarrow> bytes option \<Rightarrow> nat \<Rightarrow> 'v rpc_response \<Rightarrow> 'v served \<Rightarrow> 'v served" where
  "call_done C J enforced draw k response s =
     (if k < length (sv_calls s) then
        let request = sv_calls s ! k;
            s1 = s\<lparr>sv_calls := take k (sv_calls s) @ drop (Suc k) (sv_calls s),
                   sv_in_flight := (case rr_id request of Some i \<Rightarrow> sv_in_flight s - {i} | None \<Rightarrow> sv_in_flight s)\<rparr>
        in (case seal_response C J enforced draw (sv_connection s1) response of
              None \<Rightarrow> s1 | Some bs \<Rightarrow> put_out (Out_Frame bs) s1)
      else s)"

definition is_pushed :: "'v json_lib \<Rightarrow> 'v core_event \<Rightarrow> 'v served \<Rightarrow> bool" where
  "is_pushed J ev s \<longleftrightarrow>
     (case pu_job (push_of J ev) of Some job \<Rightarrow> job \<in> sv_in_flight s | None \<Rightarrow> False)
     \<or> wants (sv_subscriptions s) (rr_method (pu_request (push_of J ev))) (pu_user (push_of J ev))"

definition forward_push ::
    "rpc_crypto \<Rightarrow> 'v json_lib \<Rightarrow> bool \<Rightarrow> bytes option \<Rightarrow> 'v core_event \<Rightarrow> 'v served \<Rightarrow> 'v served" where
  "forward_push C J enforced draw ev s =
     (if is_pushed J ev s then
        (case seal_push C J enforced draw (sv_connection s) (pu_request (push_of J ev)) of
           None \<Rightarrow> s | Some bs \<Rightarrow> put_out (Out_Frame bs) s)
      else s)"

definition forward_lagged ::
    "rpc_crypto \<Rightarrow> 'v json_lib \<Rightarrow> bool \<Rightarrow> bytes option \<Rightarrow> u64 \<Rightarrow> 'v served \<Rightarrow> 'v served" where
  "forward_lagged C J enforced draw missed s =
     (if sb_events (sv_subscriptions s) = {} then s
      else case seal_push C J enforced draw (sv_connection s) (desync J missed) of
        None \<Rightarrow> s | Some bs \<Rightarrow> put_out (Out_Frame bs) s)"

definition on_shutdown :: "rpc_crypto \<Rightarrow> 'v json_lib \<Rightarrow> 'v served \<Rightarrow> 'v served" where
  "on_shutdown C J s = send_close (seal_close C J (sv_connection s) (response_close J None ShuttingDown)) ShuttingDown s"

text \<open>What the writer puts on the wire: it stops after the first close.\<close>

fun written :: "outgoing list \<Rightarrow> outgoing list" where
  "written [] = []"
| "written (Out_Frame bs # outs) = Out_Frame bs # written outs"
| "written (Close_After bs reason # outs) = [Close_After bs reason]"

section \<open>Steps\<close>

text \<open>The loop and the forwarding of pushes run while the loop reads; spawned calls may come back later.\<close>

datatype 'v serve_event =
    Arrives "ws_message option"
  | Call_Done nat "'v rpc_response"
  | Told "'v core_event"
  | Lagged u64
  | Shutdown
  | Writer_Gone

fun serve ::
    "rpc_crypto \<Rightarrow> 'v json_lib \<Rightarrow> (u32 \<Rightarrow> 'v) \<Rightarrow> bool \<times> bytes option \<times> 'v serve_event \<Rightarrow> 'v served \<Rightarrow> 'v served" where
  "serve C J hr (enforced, draw, Arrives message) s =
     (if sv_reading s then on_message C J hr enforced draw message s else s)"
| "serve C J hr (enforced, draw, Call_Done k response) s = call_done C J enforced draw k response s"
| "serve C J hr (enforced, draw, Told ev) s = (if sv_reading s then forward_push C J enforced draw ev s else s)"
| "serve C J hr (enforced, draw, Lagged missed) s = (if sv_reading s then forward_lagged C J enforced draw missed s else s)"
| "serve C J hr (enforced, draw, Shutdown) s = (if sv_reading s then on_shutdown C J s else s)"
| "serve C J hr (enforced, draw, Writer_Gone) s = s\<lparr>sv_writer := False\<rparr>"

definition serve_all ::
    "rpc_crypto \<Rightarrow> 'v json_lib \<Rightarrow> (u32 \<Rightarrow> 'v) \<Rightarrow> (bool \<times> bytes option \<times> 'v serve_event) list \<Rightarrow> 'v served \<Rightarrow> 'v served" where
  "serve_all C J hr evs s = fold (serve C J hr) evs s"

end
