(* ===== verification/Rpc_Correct.thy ===== *)
theory Rpc_Correct
  imports Rpc_Server
begin

text \<open>
  What the control plane promises: only a client that knows the token and has said hello runs a request; what
  goes out is sealed, but for one notice at the end; the progress of a job goes by its number.
\<close>

section \<open>Frames\<close>

lemma rpc_seal_open:
  assumes "rpc_crypto_ok C" "rpc_seal C keys from_side t draw json = Some frame" "length frame \<le> MAX_FRAME_BYTES"
    "\<And>nonce. draw = Some nonce \<Longrightarrow> length nonce = RPC_NONCE_LEN" "{from_side, to_side} = {Client, Daemon}"
  shows "rpc_open C keys to_side frame = Inr (t, json)"
proof (cases t)
  case Plain_Pack
  then show ?thesis using assms unfolding Plain_Pack rpc_open_plain by (simp add: rpc_seal_def)
next
  case Cipher_Pack
  have "sending_key keys from_side = receiving_key keys to_side"
    using assms(5) by (cases from_side; cases to_side) auto
  then show ?thesis
    using assms unfolding Cipher_Pack rpc_open_cipher by (auto simp: rpc_seal_def bind_eq_Some_conv rpc_crypto_ok_def) blast
qed

text \<open>A frame that brings a text: sealed with the client's key, or plain while that is allowed.\<close>

definition brings :: "rpc_crypto \<Rightarrow> rpc_keys \<Rightarrow> bool \<Rightarrow> bytes \<Rightarrow> bytes \<Rightarrow> bool" where
  "brings C keys enforced frame json \<longleftrightarrow>
     (\<exists>nonce c. frame = PACK_VERSION # pack_type_byte Cipher_Pack # nonce @ c
        \<and> rc_seal C (rk_client_to_daemon keys) nonce RPC_AAD json = Some c)
     \<or> \<not> enforced \<and> frame = PACK_VERSION # pack_type_byte Plain_Pack # json"

definition asks :: "rpc_crypto \<Rightarrow> 'v json_lib \<Rightarrow> rpc_keys \<Rightarrow> bool \<times> bytes option \<times> 'v serve_event \<Rightarrow> 'v rpc_request \<Rightarrow> bool" where
  "asks C J keys e request \<longleftrightarrow>
     (\<exists>frame json. snd (snd e) = Arrives (Some (Ws_Binary frame)) \<and> brings C keys (fst e) frame json
        \<and> Option.bind (jl_parse J json) (jl_request J) = Some request)"

definition good_hello :: "'v json_lib \<Rightarrow> 'v rpc_request \<Rightarrow> bool" where
  "good_hello J request \<longleftrightarrow>
     rr_method request = ''hello''
     \<and> (\<exists>protocols client. jl_hello J (rr_params request) = Some (protocols, client)
          \<and> CURRENT_PROTOCOL \<in> set protocols \<and> take (length CLIENT_NAME_PREFIX) client = CLIENT_NAME_PREFIX)"

lemma negotiate_Some: "negotiate offered = Some v \<longleftrightarrow> v = CURRENT_PROTOCOL \<and> CURRENT_PROTOCOL \<in> set offered"
proof -
  have "set (filter (\<lambda>v. v \<in> set SUPPORTED_PROTOCOLS) offered) = (if CURRENT_PROTOCOL \<in> set offered then {CURRENT_PROTOCOL} else {})"
    by (auto simp: SUPPORTED_PROTOCOLS_def)
  moreover from this have "filter (\<lambda>v. v \<in> set SUPPORTED_PROTOCOLS) offered = [] \<longleftrightarrow> CURRENT_PROTOCOL \<notin> set offered"
    by (metis empty_set insert_not_empty set_empty)
  ultimately show ?thesis unfolding negotiate_def Let_def by (auto split: if_splits)
qed

lemma hello_spec:
  assumes "hello J cn request = (cn', i)" "rr_method request = ''hello''"
  shows "cn_keys cn' = cn_keys cn" "i \<noteq> Inbound_Request r"
    "cn_protocol cn' = cn_protocol cn
     \<or> cn_protocol cn = None \<and> cn_protocol cn' = Some CURRENT_PROTOCOL \<and> good_hello J request"
proof -
  have "cn_keys cn' = cn_keys cn \<and> i \<noteq> Inbound_Request r \<and> (cn_protocol cn' = cn_protocol cn
     \<or> cn_protocol cn = None \<and> cn_protocol cn' = Some CURRENT_PROTOCOL \<and> good_hello J request)"
  proof (cases "jl_hello J (rr_params request)")
    case (Some pc)
    obtain protocols client where pc: "pc = (protocols, client)" by (cases pc)
    show ?thesis
    proof (cases "is_client_name_acceptable client")
      case True
      then have name: "take (length CLIENT_NAME_PREFIX) client = CLIENT_NAME_PREFIX"
        by (auto simp: is_client_name_acceptable_def strip_prefix_def split: if_splits)
      show ?thesis
      proof (cases "negotiate protocols")
        case (Some agreed)
        then have "agreed = CURRENT_PROTOCOL" "CURRENT_PROTOCOL \<in> set protocols" by (simp_all add: negotiate_Some)
        then show ?thesis using assms \<open>jl_hello _ _ = _\<close> pc True Some name
          by (cases "cn_protocol cn") (auto simp: hello_def good_hello_def Let_def)
      qed (use assms Some pc True in \<open>auto simp: hello_def\<close>)
    qed (use assms Some pc in \<open>auto simp: hello_def\<close>)
  qed (use assms in \<open>auto simp: hello_def\<close>)
  then show "cn_keys cn' = cn_keys cn" "i \<noteq> Inbound_Request r"
    "cn_protocol cn' = cn_protocol cn
     \<or> cn_protocol cn = None \<and> cn_protocol cn' = Some CURRENT_PROTOCOL \<and> good_hello J request"
    by blast+
qed

lemma opened_brings:
  assumes "rpc_crypto_ok C" "rpc_open C keys Daemon frame = Inr (t, json)" "\<not> (t = Plain_Pack \<and> enforced)"
  shows "brings C keys enforced frame json"
proof (cases t)
  case Plain_Pack
  then show ?thesis using assms(2,3) rpc_open_plain [of C keys Daemon frame json] by (simp add: brings_def)
next
  case Cipher_Pack
  then show ?thesis using assms(1,2) rpc_open_cipher [of C keys Daemon frame json] by (auto simp: brings_def rpc_crypto_ok_def)
qed

lemma receive_spec:
  assumes C: "rpc_crypto_ok C" and r: "receive C J enforced frame cn = (cn', i)"
  shows "cn_keys cn' = cn_keys cn"
    "cn_protocol cn' = cn_protocol cn
     \<or> cn_protocol cn = None \<and> cn_protocol cn' = Some CURRENT_PROTOCOL
       \<and> (\<exists>json request. brings C (cn_keys cn) enforced frame json
            \<and> Option.bind (jl_parse J json) (jl_request J) = Some request \<and> good_hello J request)"
    "i = Inbound_Request request \<Longrightarrow> cn_protocol cn \<noteq> None
       \<and> (\<exists>json. brings C (cn_keys cn) enforced frame json \<and> Option.bind (jl_parse J json) (jl_request J) = Some request)"
proof -
  have "cn_keys cn' = cn_keys cn
     \<and> (cn_protocol cn' = cn_protocol cn
        \<or> cn_protocol cn = None \<and> cn_protocol cn' = Some CURRENT_PROTOCOL
          \<and> (\<exists>json request. brings C (cn_keys cn) enforced frame json
               \<and> Option.bind (jl_parse J json) (jl_request J) = Some request \<and> good_hello J request))
     \<and> (i = Inbound_Request request \<longrightarrow> cn_protocol cn \<noteq> None
        \<and> (\<exists>json. brings C (cn_keys cn) enforced frame json \<and> Option.bind (jl_parse J json) (jl_request J) = Some request))"
    (is "?P cn' i")
  proof (cases "rpc_open C (cn_keys cn) Daemon frame")
    case (Inl e)
    then show ?thesis using r by (cases e) (auto simp: receive_def)
  next
    case (Inr tj)
    obtain t json where tj: "tj = (t, json)" by (cases tj)
    show ?thesis
    proof (cases "t = Plain_Pack \<and> enforced")
      case True
      then show ?thesis using r Inr tj by (auto simp: receive_def)
    next
      case False
      have b: "brings C (cn_keys cn) enforced frame json" by (rule opened_brings [OF C Inr [unfolded tj] False])
      let ?cn = "cn\<lparr>cn_last_inbound := t\<rparr>"
      show ?thesis
      proof (cases "Option.bind (jl_parse J json) (jl_request J)")
        case None
        then show ?thesis using r Inr tj False by (auto simp: receive_def Let_def split: option.splits if_splits)
      next
        case (Some q)
        then obtain v where v: "jl_parse J json = Some v" "jl_request J v = Some q" by (auto simp: bind_eq_Some_conv)
        show ?thesis
        proof (cases "rr_method q = ''hello''")
          case True
          then have h: "hello J ?cn q = (cn', i)" using r Inr tj False v by (simp add: receive_def Let_def)
          show ?thesis using hello_spec [OF h True] b Some by auto
        next
          case no: False
          show ?thesis
          proof (cases "cn_protocol cn")
            case None
            then show ?thesis using r Inr tj False v no by (auto simp: receive_def Let_def)
          next
            case (Some p)
            then have "cn' = ?cn" "i = Inbound_Request q" using r Inr tj False v no by (auto simp: receive_def Let_def)
            then show ?thesis using b Some \<open>Option.bind _ _ = Some q\<close> by auto
          qed
        qed
      qed
    qed
  qed
  then show "cn_keys cn' = cn_keys cn"
    "cn_protocol cn' = cn_protocol cn
     \<or> cn_protocol cn = None \<and> cn_protocol cn' = Some CURRENT_PROTOCOL
       \<and> (\<exists>json request. brings C (cn_keys cn) enforced frame json
            \<and> Option.bind (jl_parse J json) (jl_request J) = Some request \<and> good_hello J request)"
    "i = Inbound_Request request \<Longrightarrow> cn_protocol cn \<noteq> None
       \<and> (\<exists>json. brings C (cn_keys cn) enforced frame json \<and> Option.bind (jl_parse J json) (jl_request J) = Some request)"
    by blast+
qed

section \<open>Who gets a request run\<close>

lemma send_simps [simp]:
  "sv_calls (send_frame f s) = sv_calls s" "sv_calls (send_close f reason s) = sv_calls s" "sv_calls (put_out out s) = sv_calls s"
  "sv_connection (send_frame f s) = sv_connection s" "sv_connection (send_close f reason s) = sv_connection s"
  "sv_connection (put_out out s) = sv_connection s"
  by (simp_all add: send_frame_def send_close_def put_out_def split: option.splits)

lemma on_inbound_connection: "sv_connection (on_inbound C J hr enforced draw i s) = sv_connection s"
  by (cases i) (auto simp: on_inbound_def split: prod.splits)

lemma on_inbound_calls:
  "sv_calls (on_inbound C J hr enforced draw i s) =
     (case i of Inbound_Request r \<Rightarrow>
        if rr_method r = ''subscribe'' \<or> rr_method r = ''unsubscribe'' then sv_calls s else sv_calls s @ [r]
      | _ \<Rightarrow> sv_calls s)"
  by (cases i) (auto simp: on_inbound_def split: prod.splits)

text \<open>A step that does not bring a frame leaves the connection alone and adds no call.\<close>

lemma serve_other:
  assumes "\<And>frame. snd (snd e) \<noteq> Arrives (Some (Ws_Binary frame))"
  shows "sv_connection (serve C J hr e s) = sv_connection s" "set (sv_calls (serve C J hr e s)) \<subseteq> set (sv_calls s)"
proof -
  obtain enforced draw ev where e: "e = (enforced, draw, ev)" by (cases e)
  have "sv_connection (serve C J hr e s) = sv_connection s \<and> set (sv_calls (serve C J hr e s)) \<subseteq> set (sv_calls s)"
  proof (cases ev)
    case (Arrives message)
    then show ?thesis using assms e by (cases message; cases "the message") (auto simp: on_message_def)
  next
    case (Call_Done k response)
    then show ?thesis using e
      by (auto simp: call_done_def Let_def dest: in_set_takeD in_set_dropD split: option.splits)
  qed (auto simp: e forward_push_def forward_lagged_def on_shutdown_def split: option.splits)
  then show "sv_connection (serve C J hr e s) = sv_connection s" "set (sv_calls (serve C J hr e s)) \<subseteq> set (sv_calls s)"
    by blast+
qed

definition hello_said :: "rpc_crypto \<Rightarrow> 'v json_lib \<Rightarrow> rpc_keys \<Rightarrow> (bool \<times> bytes option \<times> 'v serve_event) list \<Rightarrow> bool" where
  "hello_said C J keys evs \<longleftrightarrow> (\<exists>e \<in> set evs. \<exists>request. asks C J keys e request \<and> good_hello J request)"

definition asked :: "rpc_crypto \<Rightarrow> 'v json_lib \<Rightarrow> rpc_keys \<Rightarrow> (bool \<times> bytes option \<times> 'v serve_event) list \<Rightarrow> 'v rpc_request \<Rightarrow> bool" where
  "asked C J keys evs request \<longleftrightarrow> (\<exists>evs1 e evs2. evs = evs1 @ e # evs2 \<and> asks C J keys e request \<and> hello_said C J keys evs1)"

lemma asked_append: "asked C J keys evs r \<Longrightarrow> asked C J keys (evs @ more_evs) r"
  unfolding asked_def by (metis append.assoc append_Cons)

lemma life_of_connection:
  assumes C: "rpc_crypto_ok C"
  shows "cn_keys (sv_connection (serve_all C J hr evs (served_new keys))) = keys
     \<and> (cn_protocol (sv_connection (serve_all C J hr evs (served_new keys))) \<in> {None, Some CURRENT_PROTOCOL})
     \<and> (cn_protocol (sv_connection (serve_all C J hr evs (served_new keys))) \<noteq> None \<longrightarrow> hello_said C J keys evs)
     \<and> (\<forall>r \<in> set (sv_calls (serve_all C J hr evs (served_new keys))). asked C J keys evs r)"
proof (induction evs rule: rev_induct)
  case Nil
  then show ?case by (simp add: serve_all_def served_new_def connection_new_def)
next
  case (snoc e evs)
  define s where "s = serve_all C J hr evs (served_new keys)"
  have s': "serve_all C J hr (evs @ [e]) (served_new keys) = serve C J hr e s" by (simp add: s_def serve_all_def)
  note IH = snoc.IH [folded s_def]
  have said: "hello_said C J keys evs \<Longrightarrow> hello_said C J keys (evs @ [e])" by (auto simp: hello_said_def)
  show ?case
  proof (cases "\<exists>frame. snd (snd e) = Arrives (Some (Ws_Binary frame)) \<and> sv_reading s")
    case False
    have same: "sv_connection (serve C J hr e s) = sv_connection s \<and> set (sv_calls (serve C J hr e s)) \<subseteq> set (sv_calls s)"
    proof (cases "\<exists>frame. snd (snd e) = Arrives (Some (Ws_Binary frame))")
      case True
      then show ?thesis using False by (cases e) auto
    qed (use serve_other in blast)
    then have "\<forall>r \<in> set (sv_calls (serve C J hr e s)). asked C J keys (evs @ [e]) r" using IH asked_append by blast
    then show ?thesis unfolding s' conjunct1 [OF same] using IH said by blast
  next
    case True
    obtain enforced draw frame where e: "e = (enforced, draw, Arrives (Some (Ws_Binary frame)))" and reading: "sv_reading s"
      using True by (cases e) auto
    obtain cn i where r: "receive C J enforced frame (sv_connection s) = (cn, i)" by (cases "receive C J enforced frame (sv_connection s)")
    have step: "serve C J hr e s = on_inbound C J hr enforced draw i (s\<lparr>sv_connection := cn\<rparr>)"
      using reading by (simp add: e on_message_def r)
    have keys: "cn_keys (sv_connection s) = keys" using IH by simp
    note spec = receive_spec [OF C r, unfolded keys]
    have asks: "asks C J keys e q" if "brings C keys enforced frame json" "Option.bind (jl_parse J json) (jl_request J) = Some q" for json q
      using that by (auto simp: asks_def e)
    have conn: "sv_connection (serve C J hr e s) = cn" unfolding step on_inbound_connection by simp
    have calls: "asked C J keys (evs @ [e]) q" if "q \<in> set (sv_calls (serve C J hr e s))" for q
    proof (cases "q \<in> set (sv_calls s)")
      case True
      then show ?thesis using IH asked_append by blast
    next
      case False
      then have "i = Inbound_Request q" using that unfolding step on_inbound_calls by (auto split: inbound.splits if_splits)
      from spec(3) [OF this] have "asks C J keys e q" "hello_said C J keys evs" using asks IH by auto
      then show ?thesis unfolding asked_def by blast
    qed
    show ?thesis unfolding s' conn using spec(1,2) IH said calls asks by (auto simp: hello_said_def)
  qed
qed

text \<open>
  C34. Only a client that knows the token and said hello gets a request run.  Whatever arrives, every request
  that is running came in a frame, after another one that said hello with a client name of ours and a protocol
  we speak; while encryption was enforced when they came, both were sealed with the key of that direction.
\<close>

theorem requests_come_after_hello:
  assumes "rpc_crypto_ok C" "request \<in> set (sv_calls (serve_all C J hr evs (served_new keys)))"
  shows "\<exists>evs1 h evs2 e evs3 greeting. evs = evs1 @ h # evs2 @ e # evs3
     \<and> asks C J keys h greeting \<and> good_hello J greeting \<and> asks C J keys e request"
proof -
  have "asked C J keys evs request" using life_of_connection [OF assms(1), of J hr evs keys] assms(2) by blast
  then obtain before e evs3 where e: "evs = before @ e # evs3" "asks C J keys e request" "hello_said C J keys before"
    unfolding asked_def by blast
  then obtain h greeting where "h \<in> set before" "asks C J keys h greeting" "good_hello J greeting" unfolding hello_said_def by blast
  then show ?thesis using e by (metis append.assoc append_Cons split_list)
qed

section \<open>What goes out\<close>

definition goes_out_sealed :: "rpc_crypto \<Rightarrow> rpc_keys \<Rightarrow> bytes \<Rightarrow> bool" where
  "goes_out_sealed C keys frame \<longleftrightarrow>
     (\<exists>nonce c json. frame = PACK_VERSION # pack_type_byte Cipher_Pack # nonce @ c
        \<and> rc_seal C (rk_daemon_to_client keys) nonce RPC_AAD json = Some c)"

definition is_notice :: "'v json_lib \<Rightarrow> bytes \<Rightarrow> close_reason \<Rightarrow> bool" where
  "is_notice J frame reason \<longleftrightarrow>
     (\<exists>id_of json. jl_response J (response_close J id_of reason) = Some json
        \<and> frame = PACK_VERSION # pack_type_byte Plain_Pack # json)"

definition out_ok :: "rpc_crypto \<Rightarrow> 'v json_lib \<Rightarrow> rpc_keys \<Rightarrow> outgoing \<Rightarrow> bool" where
  "out_ok C J keys out \<longleftrightarrow>
     (case out of Out_Frame f \<Rightarrow> goes_out_sealed C keys f | Close_After f reason \<Rightarrow> is_notice J f reason)"

definition closes :: "outgoing list \<Rightarrow> nat" where
  "closes outs = length (filter (\<lambda>out. \<exists>f reason. out = Close_After f reason) outs)"

text \<open>The state of the writer: at most one close notice, and none while the loop reads.\<close>

definition out_inv :: "rpc_crypto \<Rightarrow> 'v json_lib \<Rightarrow> rpc_keys \<Rightarrow> 'v served \<Rightarrow> bool" where
  "out_inv C J keys s \<longleftrightarrow>
     (\<forall>out \<in> set (sv_out s). out_ok C J keys out) \<and> cn_keys (sv_connection s) = keys
     \<and> closes (sv_out s) \<le> (if sv_reading s then 0 else 1)"

lemma close_reason_of_close [simp]: "close_reason_of (response_close J i reason) = reason"
  by (cases reason) (simp_all add: close_reason_of_def response_close_def)

lemma sealed_out:
  "seal_response C J True draw cn response = Some f \<Longrightarrow> goes_out_sealed C (cn_keys cn) f"
  "seal_push C J True draw cn push = Some f \<Longrightarrow> goes_out_sealed C (cn_keys cn) f"
  by (auto simp: seal_response_def seal_push_def rpc_seal_def outbound_type_def goes_out_sealed_def bind_eq_Some_conv)

lemma send_frame_inv:
  "out_inv C J keys s \<Longrightarrow> (\<And>f. frame = Some f \<Longrightarrow> goes_out_sealed C keys f) \<Longrightarrow> out_inv C J keys (send_frame frame s)"
  by (auto simp: send_frame_def put_out_def out_inv_def out_ok_def closes_def split: option.splits if_splits)

lemma put_frame_inv:
  "out_inv C J keys s \<Longrightarrow> goes_out_sealed C keys f \<Longrightarrow> out_inv C J keys (put_out (Out_Frame f) s)"
  by (auto simp: put_out_def out_inv_def out_ok_def closes_def)

lemma send_close_inv:
  assumes "out_inv C J keys s" "sv_reading s"
  shows "out_inv C J keys (send_close (seal_close C J cn (response_close J i reason)) reason s)"
  using assms
  by (auto simp: send_close_def seal_close_def rpc_seal_def put_out_def out_inv_def out_ok_def closes_def is_notice_def
      bind_eq_Some_conv split: option.splits)

lemma receive_close:
  assumes "receive C J enforced frame cn = (cn', Inbound_Close notice)"
  shows "\<exists>i reason. notice = response_close J i reason"
  using assms by (auto simp: receive_def hello_def Let_def split: sum.splits rpc_pack_error.splits prod.splits if_splits option.splits)

lemma serve_out_inv:
  assumes C: "rpc_crypto_ok C" and inv: "out_inv C J keys s"
  shows "out_inv C J keys (serve C J hr (True, draw, ev) s)"
proof -
  have keys: "cn_keys (sv_connection s) = keys" using inv by (simp add: out_inv_def)
  show ?thesis
  proof (cases ev)
    case (Arrives message)
    show ?thesis
    proof (cases "sv_reading s")
      case True
      show ?thesis
      proof (cases message)
        case None
        then show ?thesis using inv Arrives True by (auto simp: on_message_def out_inv_def)
      next
        case (Some m)
        show ?thesis
        proof (cases m)
          case (Ws_Binary frame)
          obtain cn i where r: "receive C J True frame (sv_connection s) = (cn, i)" by (cases "receive C J True frame (sv_connection s)")
          let ?s = "s\<lparr>sv_connection := cn\<rparr>"
          have keys: "cn_keys cn = keys" using receive_spec(1) [OF C r] inv by (simp add: out_inv_def)
          have inv1: "out_inv C J keys ?s" using inv keys by (simp add: out_inv_def)
          have "out_inv C J keys (on_inbound C J hr True draw i ?s)"
          proof (cases i)
            case (Inbound_Close notice)
            then obtain j reason where n: "notice = response_close J j reason" using receive_close r by blast
            show ?thesis using send_close_inv [OF inv1, of cn j reason] True by (simp add: on_inbound_def Inbound_Close n)
          next
            case (Inbound_Request q)
            obtain sb response where sb: "subscription_response J (sv_subscriptions s) q = (sb, response)"
              by (cases "subscription_response J (sv_subscriptions s) q")
            have "out_inv C J keys (?s\<lparr>sv_subscriptions := sb\<rparr>)" using inv1 by (simp add: out_inv_def)
            then show ?thesis using inv1 sealed_out(1) keys unfolding on_inbound_def Inbound_Request inbound.case
              by (auto simp: sb out_inv_def [where s = "s\<lparr>sv_connection := cn, sv_calls := _, sv_in_flight := _\<rparr>"] out_inv_def [of C J keys ?s]
                  intro!: send_frame_inv)
          qed (use inv1 sealed_out(1) keys in \<open>auto simp: on_inbound_def intro!: send_frame_inv\<close>)
          then show ?thesis using True by (simp add: Arrives Some Ws_Binary on_message_def r)
        next
          case Ws_Text
          then show ?thesis using send_close_inv [OF inv True] True by (simp add: Arrives Some on_message_def)
        next
          case Ws_Close
          have "out_inv C J keys (s\<lparr>sv_reading := False\<rparr>)" using inv True by (simp add: out_inv_def)
          then show ?thesis using True by (simp add: Arrives Some Ws_Close on_message_def)
        next
          case Ws_Other
          then show ?thesis using inv True by (simp add: Arrives Some on_message_def)
        qed
      qed
    qed (use inv Arrives in simp)
  next
    case (Call_Done k response)
    show ?thesis
    proof (cases "k < length (sv_calls s)")
      case True
      let ?s = "s\<lparr>sv_calls := take k (sv_calls s) @ drop (Suc k) (sv_calls s),
          sv_in_flight := (case rr_id (sv_calls s ! k) of Some i \<Rightarrow> sv_in_flight s - {i} | None \<Rightarrow> sv_in_flight s)\<rparr>"
      have "out_inv C J keys ?s" "cn_keys (sv_connection ?s) = keys" using inv by (simp_all add: out_inv_def)
      then show ?thesis using True sealed_out(1) [of C J draw "sv_connection s" response]
        by (auto simp: Call_Done call_done_def Let_def split: option.splits intro: put_frame_inv)
    qed (use inv Call_Done in \<open>simp add: call_done_def\<close>)
  next
    case (Told e)
    then show ?thesis using inv sealed_out(2) [of C J draw "sv_connection s"] keys
      by (auto simp: forward_push_def split: option.splits intro!: put_frame_inv)
  next
    case (Lagged n)
    then show ?thesis using inv sealed_out(2) [of C J draw "sv_connection s"] keys
      by (auto simp: forward_lagged_def split: option.splits intro!: put_frame_inv)
  next
    case Shutdown
    then show ?thesis using inv send_close_inv by (auto simp: on_shutdown_def)
  qed (use inv in \<open>simp add: out_inv_def\<close>)
qed


section \<open>The promises at concrete inputs\<close>

definition demo_crypto :: rpc_crypto where
  "demo_crypto = \<lparr>rc_seal = (\<lambda>key nonce aad p. Some (key @ p)),
     rc_open = (\<lambda>key nonce aad c. if take (length key) c = key then Some (drop (length key) c) else None),
     rc_derive = (\<lambda>c token. token)\<rparr>"

definition demo_keys :: rpc_keys where
  "demo_keys = \<lparr>rk_client_to_daemon = [7], rk_daemon_to_client = [8]\<rparr>"

text \<open>JSON values are numbers: 1 is a hello, 2 and 3 are requests with the number 0.\<close>

definition demo_json :: "nat json_lib" where
  "demo_json = \<lparr>jl_parse = (\<lambda>bs. case bs of [b] \<Rightarrow> Some (unat b) | _ \<Rightarrow> None),
     jl_request = (\<lambda>v. if v = 1 then Some \<lparr>rr_method = ''hello'', rr_params = 0, rr_id = None\<rparr>
        else if v = 2 then Some \<lparr>rr_method = ''upload.file'', rr_params = 0, rr_id = Some 0\<rparr>
        else if v = 3 then Some \<lparr>rr_method = ''sync.recent'', rr_params = 0, rr_id = Some 0\<rparr> else None),
     jl_hello = (\<lambda>v. Some ([2], ''wbf-matrix-cli'')), jl_get = (\<lambda>v s. None), jl_as_u64 = (\<lambda>v. None), jl_as_array = (\<lambda>v. None),
     jl_as_str = (\<lambda>v. None), jl_is_null = (\<lambda>v. False), jl_null = 0, jl_text = (\<lambda>v. 0), jl_number = (\<lambda>v. 0), jl_bool = (\<lambda>v. 0),
     jl_array = (\<lambda>v. 0), jl_object = (\<lambda>v. 0), jl_insert = (\<lambda>v k x. 0), jl_response = (\<lambda>r. Some [4]), jl_push = (\<lambda>r. Some [5])\<rparr>"

definition demo_frame :: "byte \<Rightarrow> bool \<times> bytes option \<times> nat serve_event" where
  "demo_frame b = (True, Some (replicate 24 0), Arrives (Some (Ws_Binary ([1, 2] @ replicate 24 0 @ [7, b]))))"

lemma demo_crypto_ok: "rpc_crypto_ok demo_crypto"
  by (auto simp: rpc_crypto_ok_def demo_crypto_def append_eq_conv_conj)

definition demo_served :: "byte \<Rightarrow> nat served" where
  "demo_served b = serve_all demo_crypto demo_json (\<lambda>p. 0) [demo_frame 1, demo_frame b] (served_new demo_keys)"

lemmas demo_simps = serve_all_def demo_frame_def on_message_def receive_def rpc_open_def PACK_VERSION_def MAX_FRAME_BYTES_def
  RPC_NONCE_LEN_def pack_type_from_byte_def demo_crypto_def demo_json_def served_new_def connection_new_def demo_keys_def ok_or_def
  hello_def is_client_name_acceptable_def CLIENT_NAME_PREFIX_def strip_prefix_def negotiate_def SUPPORTED_PROTOCOLS_def
  CURRENT_PROTOCOL_def on_inbound_def send_frame_def put_out_def seal_response_def rpc_seal_def outbound_type_def response_ok_def
  no_subscriptions_def

lemma demo_served_calls:
  "sv_calls (demo_served 2) = [\<lparr>rr_method = ''upload.file'', rr_params = 0, rr_id = Some 0\<rparr>]"
  "sv_calls (demo_served 3) = [\<lparr>rr_method = ''sync.recent'', rr_params = 0, rr_id = Some 0\<rparr>]"
  "sv_in_flight (demo_served 2) = {0}" "sv_in_flight (demo_served 3) = {0}" "sb_events (sv_subscriptions (demo_served 3)) = {}"
  by (simp_all add: demo_served_def demo_simps)

lemma requests_come_after_hello_witness:
  "\<exists>h e greeting. h \<in> {demo_frame 1, demo_frame 2} \<and> good_hello demo_json greeting
     \<and> asks demo_crypto demo_json demo_keys e \<lparr>rr_method = ''upload.file'', rr_params = 0, rr_id = Some 0\<rparr>"
proof -
  have "\<lparr>rr_method = ''upload.file'', rr_params = 0, rr_id = Some 0\<rparr>
      \<in> set (sv_calls (serve_all demo_crypto demo_json (\<lambda>p. 0) [demo_frame 1, demo_frame 2] (served_new demo_keys)))"
    using demo_served_calls(1) by (simp add: demo_served_def)
  from requests_come_after_hello [OF demo_crypto_ok this] obtain evs1 h evs2 e evs3 greeting where
    evs: "[demo_frame 1, demo_frame 2] = evs1 @ h # evs2 @ e # evs3"
    and *: "good_hello demo_json greeting"
      "asks demo_crypto demo_json demo_keys e \<lparr>rr_method = ''upload.file'', rr_params = 0, rr_id = Some 0\<rparr>"
    by blast
  have "h \<in> set [demo_frame 1, demo_frame 2]" unfolding evs by simp
  then have "h \<in> {demo_frame 1, demo_frame 2}" by simp
  with * show ?thesis by (intro exI [of _ h] exI [of _ e] exI [of _ greeting]) blast
qed


section \<open>Progress goes by number\<close>

lemma progress_pushed_iff:
  "is_pushed J (Progress (Some i) n_done n_total txt) s \<longleftrightarrow> i \<in> sv_in_flight s \<or> wants (sv_subscriptions s) ''progress'' None"
  by (simp add: is_pushed_def push_request_def)


end
