(* ===== verification/Matrix_Transfer.thy ===== *)
theory Matrix_Transfer
  imports Download_World
begin

text \<open>
  \<open>crates/wbf-core/src/matrix_download.rs\<close>: downloads of standard Matrix attachments.  One task per file
  writes its pool file from the pieces the HTTP download hands it, answers the GETs that wait for bytes, and
  settles the row.  The state is that of one server: its table, its pool, and the tasks, which are numbered.
  A step is one turn of a task or one call of the core; what the download gives is an argument.
\<close>

section \<open>State\<close>

text \<open>\<open>'p\<close> names whoever waits for an answer.\<close>

datatype 'p command = Get_Piece nat 'p | Wait_End 'p | Cancel_Transfer

datatype 'p told = Told_Piece 'p nat "core_error_kind + seek_piece" | Told_End 'p "core_error_kind + unit"

text \<open>The file of a running task is the writer's; \<open>Over\<close> means the inbox is closed.\<close>

datatype transfer_phase = Spawned | Fetching bytes pool_writer | Over

record 'p transfer =
  tr_account :: string
  tr_mxc :: string
  tr_attachment :: matrix_attachment
  tr_pending_name :: string
  tr_user :: string
  tr_total :: u32
  tr_listeners :: "string set"
  tr_inbox :: "'p command list"
  tr_reads :: "(nat \<times> 'p) list"
  tr_waiters :: "'p list"
  tr_phase :: transfer_phase

record 'p transfers =
  ts_table :: media_table
  ts_dir :: pool_dir
  ts_files :: "string \<Rightarrow> nat option"
  ts_tasks :: "'p transfer list"
  ts_events :: "media_event list"
  ts_told :: "'p told list"

record media_job =
  mj_mxc :: string
  mj_state :: download_state
  mj_done :: u32
  mj_total :: u32
  mj_kind :: "media_kind option"
  mj_verified :: "verification option"

definition GET_PIECE :: nat where "GET_PIECE = 64 * 1024"

definition transfer_gone :: core_error_kind where "transfer_gone = Core_Io"
definition described_otherwise :: core_error_kind where "described_otherwise = Core_Integrity"
definition other_description_error :: core_error_kind where "other_description_error = Core_Integrity"
definition record_changed_error :: core_error_kind where "record_changed_error = Core_Integrity"

text \<open>\<open>u32::try_from(n).unwrap_or(u32::MAX)\<close>.\<close>

definition u32_or_max :: "nat \<Rightarrow> u32" where
  "u32_or_max n = (case u32_try_from n of Some x \<Rightarrow> x | None \<Rightarrow> - 1)"

definition segments_of :: "u64 option \<Rightarrow> u32" where
  "segments_of size_of =
     (case size_of of None \<Rightarrow> 0 | Some n \<Rightarrow> u32_or_max ((unat n + unat SEGMENT_SIZE - 1) div unat SEGMENT_SIZE))"

definition tr_description :: "'p transfer \<Rightarrow> media_description" where
  "tr_description tr = of_matrix_attachment (tr_attachment tr)"

definition set_task :: "nat \<Rightarrow> 'p transfer \<Rightarrow> 'p transfers \<Rightarrow> 'p transfers" where
  "set_task k tr s = s\<lparr>ts_tasks := (ts_tasks s)[k := tr]\<rparr>"

definition tell :: "'p told \<Rightarrow> 'p transfers \<Rightarrow> 'p transfers" where
  "tell t s = s\<lparr>ts_told := ts_told s @ [t]\<rparr>"

definition tell_all :: "'p told list \<Rightarrow> 'p transfers \<Rightarrow> 'p transfers" where
  "tell_all l s = s\<lparr>ts_told := ts_told s @ l\<rparr>"

definition push_state ::
    "'p transfer \<Rightarrow> download_state \<Rightarrow> u32 \<Rightarrow> verification option \<Rightarrow> core_error_kind option \<Rightarrow> 'p transfers \<Rightarrow> 'p transfers" where
  "push_state tr st n_done verified reason s =
     s\<lparr>ts_events := ts_events s @
       [(media_event_of (tr_mxc tr) st n_done (tr_total tr) verified reason)
          \<lparr>ev_to := (if tr_listeners tr = {} then {tr_user tr} else tr_listeners tr)\<rparr>]\<rparr>"

section \<open>Asking for a file\<close>

text \<open>
  \<open>ensure_matrix_download\<close> up to the table of tasks: a job that needs no download, or the name of the pending
  file, the number of segments and the kind.
\<close>

definition ensure_row ::
    "pool_lib \<Rightarrow> bytes \<Rightarrow> i64 \<Rightarrow> matrix_attachment \<Rightarrow> 'p transfers
      \<Rightarrow> 'p transfers \<times> (core_error_kind + media_job + string \<times> u32 \<times> media_kind)" where
  "ensure_row L key now a s =
     (let mxc = ma_mxc a; description = of_matrix_attachment a in
      case media_begin (ts_table s) now mxc description of
        Inl e \<Rightarrow> (s, Inl (core_of_sdk_error e))
      | Inr (t, entry) \<Rightarrow>
          let s1 = s\<lparr>ts_table := t\<rparr> in
          (case media_pending_name t mxc of
             None \<Rightarrow> (s1, Inl Core_Io)
           | Some pending_name \<Rightarrow>
               if \<not> is_same_matrix_file entry description then (s1, Inl other_description_error)
               else
                 let total_of = segments_of (case ma_size a of Some n \<Rightarrow> Some n | None \<Rightarrow> me_file_size entry) in
                 if open_complete L key (ts_dir s1) entry \<noteq> None then
                   (s1, Inr (Inl \<lparr>mj_mxc = mxc, mj_state = Complete, mj_done = total_of, mj_total = total_of,
                      mj_kind = Some (me_kind entry), mj_verified = Some (me_verified entry)\<rparr>))
                 else (s1, Inr (Inr (pending_name, total_of, me_kind entry)))))"

definition downloading_job :: "string \<Rightarrow> u32 \<Rightarrow> media_kind \<Rightarrow> media_job" where
  "downloading_job mxc total_of k =
     \<lparr>mj_mxc = mxc, mj_state = Downloading, mj_done = 0, mj_total = total_of, mj_kind = Some k, mj_verified = Some Unknown\<rparr>"

text \<open>The rest, under the lock: join the task of the file, or register a new one.\<close>

definition join_or_start ::
    "string \<Rightarrow> string \<Rightarrow> matrix_attachment \<Rightarrow> string \<times> u32 \<times> media_kind \<Rightarrow> 'p option \<Rightarrow> 'p transfers
      \<Rightarrow> 'p transfers \<times> (core_error_kind + media_job)" where
  "join_or_start account me a found waiter s =
     (case found of (pending_name, total_of, k) \<Rightarrow>
        (case ts_files s (ma_mxc a) of
           Some i \<Rightarrow>
             let existing = ts_tasks s ! i in
             if \<not> is_same_matrix_description (tr_description existing) (of_matrix_attachment a)
             then (s, Inl described_otherwise)
             else
               let joined = existing\<lparr>tr_listeners := insert me (tr_listeners existing)\<rparr> in
               ((case waiter of
                   None \<Rightarrow> set_task i joined s
                 | Some p \<Rightarrow>
                     if tr_phase existing = Over then tell (Told_End p (Inl transfer_gone)) (set_task i joined s)
                     else set_task i (joined\<lparr>tr_inbox := tr_inbox joined @ [Wait_End p]\<rparr>) s),
                Inr (downloading_job (ma_mxc a) total_of k))
         | None \<Rightarrow>
             let new_task =
               \<lparr>tr_account = account, tr_mxc = ma_mxc a, tr_attachment = a, tr_pending_name = pending_name, tr_user = me,
                tr_total = total_of, tr_listeners = {me},
                tr_inbox = (case waiter of Some p \<Rightarrow> [Wait_End p] | None \<Rightarrow> []),
                tr_reads = [], tr_waiters = [], tr_phase = Spawned\<rparr>
             in (s\<lparr>ts_files := (ts_files s)(ma_mxc a \<mapsto> length (ts_tasks s)), ts_tasks := ts_tasks s @ [new_task]\<rparr>,
                 Inr (downloading_job (ma_mxc a) total_of k))))"

text \<open>A command to a task; sending fails when its inbox is closed.\<close>

definition send_command :: "nat \<Rightarrow> 'p command \<Rightarrow> 'p transfers \<Rightarrow> 'p transfers \<times> bool" where
  "send_command i c s =
     (let tr = ts_tasks s ! i in
      if tr_phase tr = Over then (s, False) else (set_task i (tr\<lparr>tr_inbox := tr_inbox tr @ [c]\<rparr>) s, True))"

text \<open>\<open>MatrixTransfer::read_at\<close>: a stream holds the task it found, so the task may be over.\<close>

definition transfer_read_at :: "nat \<Rightarrow> nat \<Rightarrow> 'p \<Rightarrow> 'p transfers \<Rightarrow> 'p transfers" where
  "transfer_read_at i position p s =
     (case send_command i (Get_Piece position p) s of
        (s1, True) \<Rightarrow> s1
      | (s1, False) \<Rightarrow> tell (Told_Piece p position (Inl transfer_gone)) s1)"

definition cancel_matrix_download :: "string \<Rightarrow> 'p transfers \<Rightarrow> 'p transfers \<times> bool" where
  "cancel_matrix_download mxc s =
     (case ts_files s mxc of Some i \<Rightarrow> send_command i Cancel_Transfer s | None \<Rightarrow> (s, False))"

definition stop_matrix_downloads_of :: "string \<Rightarrow> 'p transfers \<Rightarrow> 'p transfers" where
  "stop_matrix_downloads_of account s =
     fold (\<lambda>i s. if tr_account (ts_tasks s ! i) = account \<and> ts_files s (tr_mxc (ts_tasks s ! i)) = Some i
                 then fst (send_command i Cancel_Transfer s) else s)
       [0..<length (ts_tasks s)] s"

definition list_pending_names :: "'p transfers \<Rightarrow> string set" where
  "list_pending_names s = {tr_pending_name (ts_tasks s ! i) | mxc i. ts_files s mxc = Some i}"

section \<open>The end of a task\<close>

datatype transfer_end = Ended_Complete string | Ended_Cancelled | Ended_Failed core_error_kind

definition read_from_pool :: "pool_lib \<Rightarrow> bytes \<Rightarrow> pool_dir \<Rightarrow> string \<Rightarrow> nat \<Rightarrow> core_error_kind + seek_piece" where
  "read_from_pool L key d pool_name position =
     rbind (map_err core_of_sdk_error (open_read L key d pool_name)) (\<lambda>(_, r).
     if position \<ge> pr_plain_len r then Inl Core_Usage
     else map_err core_of_sdk_error
       (rbind (reader_seek r (From_Start position)) (\<lambda>r1.
        rbind (read_exact L r1 (min (pr_plain_len r) (position + GET_PIECE) - position) []) (\<lambda>plain.
        Inr \<lparr>sp_start = position, sp_plain = plain\<rparr>))))"

text \<open>Commands that were on their way when the inbox closed.\<close>

fun drained_reads :: "'p command list \<Rightarrow> (nat \<times> 'p) list" where
  "drained_reads [] = []"
| "drained_reads (Get_Piece position p # cs) = (position, p) # drained_reads cs"
| "drained_reads (c # cs) = drained_reads cs"

fun drained_waiters :: "'p command list \<Rightarrow> 'p list" where
  "drained_waiters [] = []"
| "drained_waiters (Wait_End p # cs) = p # drained_waiters cs"
| "drained_waiters (c # cs) = drained_waiters cs"

text \<open>\<open>run\<close> after the download.\<close>

definition settle :: "transfer_end \<Rightarrow> 'p transfer \<Rightarrow> 'p transfers \<Rightarrow> 'p transfers" where
  "settle how tr s =
     (case how of
        Ended_Complete pool_name \<Rightarrow> s
      | _ \<Rightarrow>
          s\<lparr>ts_dir := discard_pending (ts_dir s) (tr_pending_name tr),
            ts_table := (if media_pending_name (ts_table s) (tr_mxc tr) = Some (tr_pending_name tr)
                         then media_reset (ts_table s) (tr_mxc tr) else ts_table s)\<rparr>)"

definition end_result :: "transfer_end \<Rightarrow> core_error_kind + unit" where
  "end_result how =
     (case how of Ended_Complete _ \<Rightarrow> Inr () | Ended_Cancelled \<Rightarrow> Inl cancelled_error | Ended_Failed e \<Rightarrow> Inl e)"

definition conclude :: "pool_lib \<Rightarrow> bytes \<Rightarrow> nat \<Rightarrow> transfer_end \<Rightarrow> 'p transfers \<Rightarrow> 'p transfers" where
  "conclude L key k how s =
     (let tr = ts_tasks s ! k;
          s1 = settle how tr s;
          s2 = s1\<lparr>ts_files := (ts_files s1)(tr_mxc tr := None)\<rparr>;
          reads = tr_reads tr @ drained_reads (tr_inbox tr);
          waiters = tr_waiters tr @ drained_waiters (tr_inbox tr);
          answers = map (\<lambda>(position, p). Told_Piece p position
             (case how of
                Ended_Complete pool_name \<Rightarrow> read_from_pool L key (ts_dir s2) pool_name position
              | Ended_Cancelled \<Rightarrow> Inl cancelled_error
              | Ended_Failed e \<Rightarrow> Inl e)) reads;
          s3 = tell_all answers s2;
          s4 = (case how of
                  Ended_Complete _ \<Rightarrow> s3
                | Ended_Cancelled \<Rightarrow> push_state tr Cancelled 0 None None s3
                | Ended_Failed e \<Rightarrow> push_state tr Download_Queue.Failed 0 None (Some e) s3);
          s5 = tell_all (map (\<lambda>p. Told_End p (end_result how)) waiters) s4
      in set_task k (tr\<lparr>tr_phase := Over, tr_inbox := [], tr_reads := [], tr_waiters := []\<rparr>) s5)"

section \<open>The download\<close>

text \<open>A file that somebody unlinked stays unlinked while its writer goes on.\<close>

definition put_pending :: "pool_dir \<Rightarrow> string \<Rightarrow> bytes \<Rightarrow> pool_dir" where
  "put_pending d name f =
     (if pd_pending d name = None then d else d\<lparr>pd_pending := (pd_pending d)(name \<mapsto> f)\<rparr>)"

text \<open>The start of \<open>download\<close>: asks the row again, then creates the pending file.\<close>

definition begin_download :: "pool_lib \<Rightarrow> bytes \<Rightarrow> sdk_error + bytes \<Rightarrow> nat \<Rightarrow> 'p transfers \<Rightarrow> 'p transfers" where
  "begin_download L key draw k s =
     (let tr = ts_tasks s ! k in
      case find_media (ts_table s) (tr_mxc tr) of
        None \<Rightarrow> conclude L key k (Ended_Failed record_changed_error) s
      | Some entry \<Rightarrow>
          if \<not> is_same_matrix_file entry (tr_description tr) then conclude L key k (Ended_Failed record_changed_error) s
          else if me_pool_file entry \<noteq> None \<and> open_complete L key (ts_dir s) entry \<noteq> None then
            conclude L key k (Ended_Complete (the (me_pool_file entry)))
              (push_state tr Complete (tr_total tr) (Some (me_verified entry)) None s)
          else
            let d = discard_pending (ts_dir s) (tr_pending_name tr) in
            (case create_pending L key draw (tr_pending_name tr) (as_bytes (tr_mxc tr)) of
               Inl e \<Rightarrow> conclude L key k (Ended_Failed (core_of_sdk_error e)) (s\<lparr>ts_dir := d\<rparr>)
             | Inr (f, w) \<Rightarrow>
                 push_state tr Downloading 0 None None
                   (set_task k (tr\<lparr>tr_phase := Fetching f w\<rparr>)
                     (s\<lparr>ts_dir := d\<lparr>pd_pending := (pd_pending d)(tr_pending_name tr \<mapsto> f)\<rparr>\<rparr>))))"

text \<open>
  \<open>answer_reads\<close>: the reads that the sealed segments cover.  One that cannot be read ends the download; the
  rest of them are dropped, which tells whoever waits that the transfer is gone.
\<close>

fun answer_ready :: "pool_lib \<Rightarrow> bytes \<Rightarrow> pool_writer \<Rightarrow> (nat \<times> 'p) list \<Rightarrow> 'p told list \<times> core_error_kind option" where
  "answer_ready L f w [] = ([], None)"
| "answer_ready L f w ((position, p) # ready) =
     (case read_sealed L f w position (min (sealed_plain_len w) (position + GET_PIECE)) of
        Some (Inr plain) \<Rightarrow>
          (case answer_ready L f w ready of
             (l, e) \<Rightarrow> (Told_Piece p position (Inr \<lparr>sp_start = position, sp_plain = plain\<rparr>) # l, e))
      | Some (Inl e) \<Rightarrow>
          (map (\<lambda>(q, p). Told_Piece p q (Inl transfer_gone)) ((position, p) # ready), Some (core_of_sdk_error e))
      | None \<Rightarrow> (map (\<lambda>(q, p). Told_Piece p q (Inl transfer_gone)) ((position, p) # ready), Some Core_Io))"

definition answer_reads :: "pool_lib \<Rightarrow> bytes \<Rightarrow> nat \<Rightarrow> bytes \<Rightarrow> pool_writer \<Rightarrow> 'p transfers \<Rightarrow> 'p transfers" where
  "answer_reads L key k f w s =
     (let tr = ts_tasks s ! k;
          ready = filter (\<lambda>(position, p). position < sealed_plain_len w) (tr_reads tr);
          waiting = filter (\<lambda>(position, p). \<not> position < sealed_plain_len w) (tr_reads tr);
          s1 = set_task k (tr\<lparr>tr_reads := waiting\<rparr>) s
      in case answer_ready L f w ready of
           (l, None) \<Rightarrow> tell_all l s1
         | (l, Some e) \<Rightarrow> conclude L key k (Ended_Failed e) (tell_all l s1))"

text \<open>A piece of the plaintext arrives; \<open>due\<close> says whether progress is due.\<close>

definition piece_arrives :: "pool_lib \<Rightarrow> bytes \<Rightarrow> bytes \<Rightarrow> bool \<Rightarrow> nat \<Rightarrow> 'p transfers \<Rightarrow> 'p transfers" where
  "piece_arrives L key piece due k s =
     (let tr = ts_tasks s ! k in
      case tr_phase tr of
        Fetching f w \<Rightarrow>
          (case writer_write L f w piece of
             Some (Inr (f1, w1)) \<Rightarrow>
               let s1 = set_task k (tr\<lparr>tr_phase := Fetching f1 w1\<rparr>)
                          (s\<lparr>ts_dir := put_pending (ts_dir s) (tr_pending_name tr) f1\<rparr>);
                   s2 = answer_reads L key k f1 w1 s1
               in if due \<and> tr_phase (ts_tasks s2 ! k) \<noteq> Over
                  then push_state tr Downloading (u32_or_max (pw_segments_written w1)) None None s2
                  else s2
           | Some (Inl e) \<Rightarrow> conclude L key k (Ended_Failed (core_of_sdk_error e)) s
           | None \<Rightarrow> conclude L key k (Ended_Failed Core_Io) s)
      | _ \<Rightarrow> s)"

definition take_command :: "pool_lib \<Rightarrow> bytes \<Rightarrow> nat \<Rightarrow> 'p transfers \<Rightarrow> 'p transfers" where
  "take_command L key k s =
     (let tr = ts_tasks s ! k in
      case (tr_phase tr, tr_inbox tr) of
        (Fetching f w, c # rest) \<Rightarrow>
          let tr1 = tr\<lparr>tr_inbox := rest\<rparr> in
          (case c of
             Get_Piece position p \<Rightarrow>
               answer_reads L key k f w (set_task k (tr1\<lparr>tr_reads := tr_reads tr @ [(position, p)]\<rparr>) s)
           | Wait_End p \<Rightarrow> set_task k (tr1\<lparr>tr_waiters := tr_waiters tr @ [p]\<rparr>) s
           | Cancel_Transfer \<Rightarrow> conclude L key k Ended_Cancelled (set_task k tr1 s))
      | _ \<Rightarrow> s)"

text \<open>The download has ended: an error, or how its hash compared.\<close>

definition fetch_ends ::
    "pool_lib \<Rightarrow> bytes \<Rightarrow> i64 \<Rightarrow> core_error_kind + verification \<Rightarrow> nat \<Rightarrow> 'p transfers \<Rightarrow> 'p transfers" where
  "fetch_ends L key now fetched k s =
     (let tr = ts_tasks s ! k; mxc = tr_mxc tr in
      case tr_phase tr of
        Fetching f w \<Rightarrow>
          (case fetched of
             Inl e \<Rightarrow> conclude L key k (Ended_Failed e) s
           | Inr verified \<Rightarrow>
               let s1 = (if ma_kind (tr_attachment tr) = MatrixEncrypted then push_state tr Verifying (tr_total tr) None None s else s);
                   ours = (media_pending_name (ts_table s1) mxc = Some (tr_pending_name tr)
                     \<and> (case find_media (ts_table s1) mxc of Some e \<Rightarrow> is_same_matrix_file e (tr_description tr) | None \<Rightarrow> False))
               in if \<not> ours then conclude L key k (Ended_Failed record_changed_error) s1
                  else (case writer_finish L f w of
                    Inl e \<Rightarrow> conclude L key k (Ended_Failed (core_of_sdk_error e)) s1
                  | Inr (f1, fin) \<Rightarrow>
                      let d = put_pending (ts_dir s1) (tr_pending_name tr) f1 in
                      (case adopt L key d (tr_pending_name tr) (fin_hash_hex fin) of
                         Inl e \<Rightarrow> conclude L key k (Ended_Failed (core_of_sdk_error e)) (s1\<lparr>ts_dir := d\<rparr>)
                       | Inr (d1, _) \<Rightarrow>
                           (case pool_bytes_on_disk d1 (fin_hash_hex fin) of
                              Inl e \<Rightarrow> conclude L key k (Ended_Failed (core_of_sdk_error e)) (s1\<lparr>ts_dir := d1\<rparr>)
                            | Inr n \<Rightarrow>
                                conclude L key k (Ended_Complete (fin_hash_hex fin))
                                  (push_state tr Complete (u32_or_max (fin_segments fin)) (Some verified) None
                                    (s1\<lparr>ts_dir := d1,
                                        ts_table := media_finish (ts_table s1) now mxc (fin_hash_hex fin)
                                          (of_nat (fin_segments fin)) (of_nat (fin_plain_len fin)) (of_nat n) verified\<rparr>))))))
      | _ \<Rightarrow> s)"

end
