(* ===== verification/Matrix_Transfer_Correct.thy ===== *)
theory Matrix_Transfer_Correct
  imports Matrix_Transfer Request_Line_Correct
begin

text \<open>
  What the tasks that download standard attachments promise, whatever else happens to the table and the pool:
  one running task per file, every GET and every waiter told exactly once, and GETs told what was downloaded.
\<close>

section \<open>What can happen\<close>

text \<open>
  \<open>Found\<close> is the first half of asking for a file and \<open>Join\<close> the second, with whatever an earlier first half
  found; \<open>Others\<close> is what the rest of the program does to the table and the pool.
\<close>

datatype 'p transfer_event =
    Found i64 matrix_attachment
  | Join string string matrix_attachment "string \<times> u32 \<times> media_kind" "'p option"
  | Get nat nat 'p
  | Cancel_One string
  | Stop_All string
  | Others media_table pool_dir
  | Begin_Task "sdk_error + bytes" nat
  | Piece bytes bool nat
  | Take nat
  | Fetched i64 "core_error_kind + verification" nat

definition possible :: "'p transfer_event \<Rightarrow> 'p transfers \<Rightarrow> bool" where
  "possible e s \<longleftrightarrow>
     (case e of
        Get i position p \<Rightarrow> i < length (ts_tasks s)
      | Begin_Task draw k \<Rightarrow> k < length (ts_tasks s) \<and> tr_phase (ts_tasks s ! k) = Spawned
      | Piece piece due k \<Rightarrow> k < length (ts_tasks s) \<and> (\<exists>f w. tr_phase (ts_tasks s ! k) = Fetching f w)
      | Take k \<Rightarrow> k < length (ts_tasks s)
      | Fetched now fetched k \<Rightarrow> k < length (ts_tasks s)
      | _ \<Rightarrow> True)"

fun happen :: "pool_lib \<Rightarrow> bytes \<Rightarrow> 'p transfer_event \<Rightarrow> 'p transfers \<Rightarrow> 'p transfers" where
  "happen L key (Found now a) s = fst (ensure_row L key now a s)"
| "happen L key (Join account me a found waiter) s = fst (join_or_start account me a found waiter s)"
| "happen L key (Get i position p) s = transfer_read_at i position p s"
| "happen L key (Cancel_One mxc) s = fst (cancel_matrix_download mxc s)"
| "happen L key (Stop_All account) s = stop_matrix_downloads_of account s"
| "happen L key (Others t d) s = s\<lparr>ts_table := t, ts_dir := d\<rparr>"
| "happen L key (Begin_Task draw k) s = begin_download L key draw k s"
| "happen L key (Piece piece due k) s = piece_arrives L key piece due k s"
| "happen L key (Take k) s = take_command L key k s"
| "happen L key (Fetched now fetched k) s = fetch_ends L key now fetched k s"

definition no_transfers :: "media_table \<Rightarrow> pool_dir \<Rightarrow> 'p transfers" where
  "no_transfers t d = \<lparr>ts_table = t, ts_dir = d, ts_files = (\<lambda>_. None), ts_tasks = [], ts_events = [], ts_told = []\<rparr>"

section \<open>The invariant\<close>

text \<open>The table of files has exactly the running tasks; a task that is over holds nobody.\<close>

definition transfers_inv :: "'p transfers \<Rightarrow> bool" where
  "transfers_inv s \<longleftrightarrow>
     (\<forall>i < length (ts_tasks s). tr_phase (ts_tasks s ! i) \<noteq> Over \<longrightarrow> ts_files s (tr_mxc (ts_tasks s ! i)) = Some i)
     \<and> (\<forall>m i. ts_files s m = Some i \<longrightarrow>
          i < length (ts_tasks s) \<and> tr_mxc (ts_tasks s ! i) = m \<and> tr_phase (ts_tasks s ! i) \<noteq> Over)
     \<and> (\<forall>i < length (ts_tasks s). tr_phase (ts_tasks s ! i) = Over \<longrightarrow>
          tr_inbox (ts_tasks s ! i) = [] \<and> tr_reads (ts_tasks s ! i) = [] \<and> tr_waiters (ts_tasks s ! i) = [])"

fun asker_of :: "'p command \<Rightarrow> 'p multiset" where
  "asker_of (Get_Piece position p) = {#p#}"
| "asker_of (Wait_End p) = {#p#}"
| "asker_of Cancel_Transfer = {#}"

fun told_who :: "'p told \<Rightarrow> 'p" where
  "told_who (Told_Piece p position r) = p"
| "told_who (Told_End p r) = p"

definition waiting_in :: "'p transfer \<Rightarrow> 'p multiset" where
  "waiting_in tr = sum_list (map asker_of (tr_inbox tr)) + mset (map snd (tr_reads tr)) + mset (tr_waiters tr)"

text \<open>Everybody who asked: still waiting in some task, or told.\<close>

definition waiting_all :: "'p transfers \<Rightarrow> 'p multiset" where
  "waiting_all s = sum_list (map waiting_in (ts_tasks s))"

definition told_all :: "'p transfers \<Rightarrow> 'p multiset" where
  "told_all s = mset (map told_who (ts_told s))"

definition answered_or_waiting :: "'p transfers \<Rightarrow> 'p multiset" where
  "answered_or_waiting s = waiting_all s + told_all s"

lemma sum_list_update_multiset:
  "k < length xs \<Longrightarrow> sum_list (map h (xs[k := x])) + h (xs ! k) = sum_list (map h xs) + (h x :: 'a multiset)"
proof (induction xs arbitrary: k)
  case (Cons y ys)
  then show ?case by (cases k) (simp_all add: ac_simps)
qed simp

lemma drained: "mset (map snd (drained_reads cs)) + mset (drained_waiters cs) = sum_list (map asker_of cs)"
proof (induction cs)
  case (Cons c cs)
  then show ?case by (cases c) (simp_all add: ac_simps flip: Cons)
qed simp

lemma simple_sels [simp]:
  "ts_tasks (tell t s) = ts_tasks s" "ts_files (tell t s) = ts_files s" "ts_tasks (tell_all l s) = ts_tasks s"
  "ts_files (tell_all l s) = ts_files s" "ts_told (tell t s) = ts_told s @ [t]" "ts_told (tell_all l s) = ts_told s @ l"
  "ts_tasks (push_state tr st n v e s) = ts_tasks s" "ts_files (push_state tr st n v e s) = ts_files s"
  "ts_told (push_state tr st n v e s) = ts_told s" "ts_dir (push_state tr st n v e s) = ts_dir s"
  "ts_table (push_state tr st n v e s) = ts_table s"
  "ts_tasks (set_task k tr s) = (ts_tasks s)[k := tr]" "ts_files (set_task k tr s) = ts_files s"
  "ts_told (set_task k tr s) = ts_told s" "ts_dir (set_task k tr s) = ts_dir s" "ts_table (set_task k tr s) = ts_table s"
  "ts_dir (tell_all l s) = ts_dir s" "ts_table (tell_all l s) = ts_table s"
  "ts_tasks (settle how tr s) = ts_tasks s" "ts_files (settle how tr s) = ts_files s" "ts_told (settle how tr s) = ts_told s"
  by (simp_all add: tell_def tell_all_def push_state_def set_task_def settle_def split: transfer_end.splits)

lemma same_parts:
  "ts_tasks s' = ts_tasks s \<Longrightarrow> ts_files s' = ts_files s \<Longrightarrow> transfers_inv s' = transfers_inv s"
  "ts_tasks s' = ts_tasks s \<Longrightarrow> ts_told s' = ts_told s \<Longrightarrow> answered_or_waiting s' = answered_or_waiting s"
  by (simp_all add: transfers_inv_def answered_or_waiting_def waiting_all_def told_all_def)

text \<open>A task that changes, but not its name, while it runs.\<close>

lemma set_task_inv:
  assumes "transfers_inv s" "tr_mxc tr = tr_mxc (ts_tasks s ! k)"
    "tr_phase tr \<noteq> Over" "tr_phase (ts_tasks s ! k) \<noteq> Over"
  shows "transfers_inv (set_task k tr s)"
  unfolding transfers_inv_def
proof (intro conjI allI impI)
  fix i assume i: "i < length (ts_tasks (set_task k tr s))" "tr_phase (ts_tasks (set_task k tr s) ! i) \<noteq> Over"
  then show "ts_files (set_task k tr s) (tr_mxc (ts_tasks (set_task k tr s) ! i)) = Some i"
    using assms by (cases "i = k") (auto simp: transfers_inv_def)
next
  fix m i assume i: "ts_files (set_task k tr s) m = Some i"
  then have *: "i < length (ts_tasks s)" "tr_mxc (ts_tasks s ! i) = m" "tr_phase (ts_tasks s ! i) \<noteq> Over"
    using assms(1) by (auto simp: transfers_inv_def)
  then show "i < length (ts_tasks (set_task k tr s))" "tr_mxc (ts_tasks (set_task k tr s) ! i) = m"
    "tr_phase (ts_tasks (set_task k tr s) ! i) \<noteq> Over"
    using assms by (cases "i = k"; simp)+
next
  fix i assume i: "i < length (ts_tasks (set_task k tr s))" "tr_phase (ts_tasks (set_task k tr s) ! i) = Over"
  then have "i \<noteq> k" using assms(3) by auto
  then show "tr_inbox (ts_tasks (set_task k tr s) ! i) = []" "tr_reads (ts_tasks (set_task k tr s) ! i) = []"
    "tr_waiters (ts_tasks (set_task k tr s) ! i) = []"
    using assms(1) i by (auto simp: transfers_inv_def)
qed

lemma set_task_accounted:
  assumes "k < length (ts_tasks s)"
  shows "answered_or_waiting (set_task k tr s) + waiting_in (ts_tasks s ! k) = answered_or_waiting s + waiting_in tr"
  using sum_list_update_multiset [OF assms, of waiting_in tr]
  by (simp add: answered_or_waiting_def waiting_all_def told_all_def ac_simps)

lemma tell_accounted:
  "answered_or_waiting (tell t s) = answered_or_waiting s + {#told_who t#}"
  "answered_or_waiting (tell_all l s) = answered_or_waiting s + mset (map told_who l)"
  by (simp_all add: answered_or_waiting_def waiting_all_def told_all_def ac_simps)

section \<open>The end of a task\<close>

lemma conclude_shape:
  obtains s5 where "conclude L key k how s =
      set_task k ((ts_tasks s ! k)\<lparr>tr_phase := Over, tr_inbox := [], tr_reads := [], tr_waiters := []\<rparr>) s5"
    "ts_tasks s5 = ts_tasks s" "ts_files s5 = (ts_files s)(tr_mxc (ts_tasks s ! k) := None)"
    "mset (map told_who (ts_told s5)) = told_all s + waiting_in (ts_tasks s ! k)"
proof -
  let ?tr = "ts_tasks s ! k"
  define reads where "reads = tr_reads ?tr @ drained_reads (tr_inbox ?tr)"
  define waiters where "waiters = tr_waiters ?tr @ drained_waiters (tr_inbox ?tr)"
  have who: "map told_who (map (\<lambda>(position, p). Told_Piece p position (g position)) l) = map snd l"
    "map told_who (map (\<lambda>p. Told_End p r) l') = l'" for g r l and l' :: "'a list" and l2
    by (induction l) (auto, induction l', auto)
  have all: "mset (map snd reads) + mset waiters = waiting_in ?tr"
    using drained [of "tr_inbox ?tr"] by (simp add: reads_def waiters_def waiting_in_def ac_simps)
  show thesis
  proof (cases how)
    case (Ended_Complete pool_name)
    show thesis
      by (rule that, unfold conclude_def Let_def, rule refl)
        (use all in \<open>simp_all add: Ended_Complete told_all_def who reads_def waiters_def ac_simps del: map_map\<close>)
  next
    case Ended_Cancelled
    show thesis
      by (rule that, unfold conclude_def Let_def, rule refl)
        (use all in \<open>simp_all add: Ended_Cancelled told_all_def who reads_def waiters_def ac_simps del: map_map\<close>)
  next
    case (Ended_Failed e)
    show thesis
      by (rule that, unfold conclude_def Let_def, rule refl)
        (use all in \<open>simp_all add: Ended_Failed told_all_def who reads_def waiters_def ac_simps del: map_map\<close>)
  qed
qed

lemma conclude_accounted:
  assumes "k < length (ts_tasks s)"
  shows "answered_or_waiting (conclude L key k how s) = answered_or_waiting s"
proof -
  obtain s5 where s5: "conclude L key k how s =
      set_task k ((ts_tasks s ! k)\<lparr>tr_phase := Over, tr_inbox := [], tr_reads := [], tr_waiters := []\<rparr>) s5"
    "ts_tasks s5 = ts_tasks s" "mset (map told_who (ts_told s5)) = told_all s + waiting_in (ts_tasks s ! k)"
    by (rule conclude_shape)
  have "answered_or_waiting s5 = answered_or_waiting s + waiting_in (ts_tasks s ! k)"
    using s5(2,3) by (simp add: answered_or_waiting_def waiting_all_def told_all_def ac_simps)
  moreover have "waiting_in ((ts_tasks s ! k)\<lparr>tr_phase := Over, tr_inbox := [], tr_reads := [], tr_waiters := []\<rparr>) = {#}"
    by (simp add: waiting_in_def)
  ultimately show ?thesis
    using set_task_accounted [of k s5 "(ts_tasks s ! k)\<lparr>tr_phase := Over, tr_inbox := [], tr_reads := [], tr_waiters := []\<rparr>"] s5(1,2) assms
    by simp
qed

lemma conclude_inv:
  assumes inv: "transfers_inv s" and k: "k < length (ts_tasks s)" "tr_phase (ts_tasks s ! k) \<noteq> Over"
  shows "transfers_inv (conclude L key k how s)"
proof -
  let ?over = "(ts_tasks s ! k)\<lparr>tr_phase := Over, tr_inbox := [], tr_reads := [], tr_waiters := []\<rparr>"
  obtain s5 where s5: "conclude L key k how s = set_task k ?over s5" "ts_tasks s5 = ts_tasks s"
      "ts_files s5 = (ts_files s)(tr_mxc (ts_tasks s ! k) := None)"
    by (rule conclude_shape)
  have tasks: "ts_tasks (conclude L key k how s) = (ts_tasks s)[k := ?over]" using s5 by simp
  have files: "ts_files (conclude L key k how s) = (ts_files s)(tr_mxc (ts_tasks s ! k) := None)" using s5 by simp
  have mine: "ts_files s (tr_mxc (ts_tasks s ! k)) = Some k" using inv k by (simp add: transfers_inv_def)
  show ?thesis
    unfolding transfers_inv_def tasks files
  proof (intro conjI allI impI)
    fix i assume i: "i < length ((ts_tasks s)[k := ?over])" "tr_phase ((ts_tasks s)[k := ?over] ! i) \<noteq> Over"
    then have "i \<noteq> k" by auto
    then have own: "ts_files s (tr_mxc (ts_tasks s ! i)) = Some i" using inv i by (simp add: transfers_inv_def)
    with mine \<open>i \<noteq> k\<close> have "tr_mxc (ts_tasks s ! i) \<noteq> tr_mxc (ts_tasks s ! k)" by auto
    then show "((ts_files s)(tr_mxc (ts_tasks s ! k) := None)) (tr_mxc ((ts_tasks s)[k := ?over] ! i)) = Some i"
      using own \<open>i \<noteq> k\<close> by simp
  next
    fix m i assume i: "((ts_files s)(tr_mxc (ts_tasks s ! k) := None)) m = Some i"
    then have old: "ts_files s m = Some i" "m \<noteq> tr_mxc (ts_tasks s ! k)" by (auto split: if_splits)
    then have *: "i < length (ts_tasks s)" "tr_mxc (ts_tasks s ! i) = m" "tr_phase (ts_tasks s ! i) \<noteq> Over"
      using inv by (auto simp: transfers_inv_def)
    then have "i \<noteq> k" using old by auto
    then show "i < length ((ts_tasks s)[k := ?over])" "tr_mxc ((ts_tasks s)[k := ?over] ! i) = m"
      "tr_phase ((ts_tasks s)[k := ?over] ! i) \<noteq> Over"
      using * by simp_all
  next
    fix i assume i: "i < length ((ts_tasks s)[k := ?over])" "tr_phase ((ts_tasks s)[k := ?over] ! i) = Over"
    then show "tr_inbox ((ts_tasks s)[k := ?over] ! i) = []" "tr_reads ((ts_tasks s)[k := ?over] ! i) = []"
      "tr_waiters ((ts_tasks s)[k := ?over] ! i) = []"
      using inv k by (cases "i = k"; simp add: transfers_inv_def)+
  qed
qed

section \<open>Every step\<close>

text \<open>What a step of a running task may do: keep the invariant, and lose nobody.\<close>

definition good_step :: "'p transfers \<Rightarrow> 'p transfers \<Rightarrow> 'p multiset \<Rightarrow> bool" where
  "good_step s s' given \<longleftrightarrow>
     (transfers_inv s \<longrightarrow> transfers_inv s') \<and> answered_or_waiting s' = answered_or_waiting s + given"

lemma good_conclude:
  "k < length (ts_tasks s) \<Longrightarrow> tr_phase (ts_tasks s ! k) \<noteq> Over \<Longrightarrow> good_step s (conclude L key k how s) {#}"
  by (simp add: good_step_def conclude_inv conclude_accounted)

lemma good_trans: "good_step s s1 g \<Longrightarrow> good_step s1 s2 g' \<Longrightarrow> good_step s s2 (g + g')"
  by (auto simp: good_step_def ac_simps)

lemma good_same:
  "ts_tasks s' = ts_tasks s \<Longrightarrow> ts_files s' = ts_files s \<Longrightarrow> ts_told s' = ts_told s \<Longrightarrow> good_step s s' {#}"
  using same_parts [of s' s] by (simp add: good_step_def)

lemma good_set_task:
  assumes "k < length (ts_tasks s)" "tr_mxc tr = tr_mxc (ts_tasks s ! k)" "tr_phase tr \<noteq> Over"
    "tr_phase (ts_tasks s ! k) \<noteq> Over" "waiting_in tr = waiting_in (ts_tasks s ! k) + given"
  shows "good_step s (set_task k tr s) given"
  using set_task_inv [of s tr k] set_task_accounted [OF assms(1), of tr] assms
  by (simp add: good_step_def ac_simps)

lemma told_ready:
  "answer_ready L f w ready = (l, e) \<Longrightarrow> mset (map told_who l) = mset (map snd ready)"
proof (induction ready arbitrary: l e)
  case (Cons r ready)
  obtain position p where r: "r = (position, p)" by (cases r)
  have gone: "map told_who (map (\<lambda>(q, p). Told_Piece p q x) l) = map snd l" for x l by (induction l) auto
  show ?case
  proof (cases "read_sealed L f w position (min (sealed_plain_len w) (position + GET_PIECE))")
    case None
    then show ?thesis using Cons.prems gone [of "Inl transfer_gone" "(position, p) # ready"] by (auto simp: r simp del: map_map)
  next
    case (Some x)
    show ?thesis
    proof (cases x)
      case (Inl err)
      then show ?thesis using Some Cons.prems gone [of "Inl transfer_gone" "(position, p) # ready"] by (auto simp: r simp del: map_map)
    next
      case (Inr plain)
      obtain l' e' where "answer_ready L f w ready = (l', e')" by (cases "answer_ready L f w ready")
      then show ?thesis using Some Inr Cons by (auto simp: r)
    qed
  qed
qed simp

lemma good_answer_reads:
  assumes "k < length (ts_tasks s)" "tr_phase (ts_tasks s ! k) \<noteq> Over"
  shows "good_step s (answer_reads L key k f w s) {#}"
proof -
  let ?tr = "ts_tasks s ! k"
  define ready where "ready = filter (\<lambda>(position, p). position < sealed_plain_len w) (tr_reads ?tr)"
  define rest where "rest = filter (\<lambda>(position, p). \<not> position < sealed_plain_len w) (tr_reads ?tr)"
  define s1 where "s1 = set_task k (?tr\<lparr>tr_reads := rest\<rparr>) s"
  obtain l e where l: "answer_ready L f w ready = (l, e)" by (cases "answer_ready L f w ready")
  have split: "mset (tr_reads ?tr) = mset ready + mset rest"
    unfolding ready_def rest_def split_def mset_filter by (rule multiset_partition)
  have "waiting_in ?tr = waiting_in (?tr\<lparr>tr_reads := rest\<rparr>) + mset (map snd ready)"
    using split by (simp add: waiting_in_def ac_simps)
  then have "answered_or_waiting (tell_all l s1) = answered_or_waiting s"
    using set_task_accounted [OF assms(1), of "?tr\<lparr>tr_reads := rest\<rparr>"] told_ready [OF l]
    by (simp add: tell_accounted s1_def ac_simps)
  moreover have "transfers_inv s \<Longrightarrow> transfers_inv (tell_all l s1)"
    using set_task_inv [of s "?tr\<lparr>tr_reads := rest\<rparr>" k] assms same_parts(1) [of "tell_all l s1" s1]
    by (simp add: s1_def)
  ultimately have told: "good_step s (tell_all l s1) {#}" by (simp add: good_step_def)
  show ?thesis
  proof (cases e)
    case None
    then show ?thesis using told l by (simp add: answer_reads_def Let_def ready_def rest_def s1_def)
  next
    case (Some err)
    have "good_step (tell_all l s1) (conclude L key k (Ended_Failed err) (tell_all l s1)) {#}"
      by (rule good_conclude) (use assms in \<open>simp_all add: s1_def\<close>)
    from good_trans [OF told this] show ?thesis
      using Some l by (simp add: answer_reads_def Let_def ready_def rest_def s1_def)
  qed
qed

lemma good_begin:
  assumes "k < length (ts_tasks s)" "tr_phase (ts_tasks s ! k) = Spawned"
  shows "good_step s (begin_download L key draw k s) {#}"
proof -
  let ?tr = "ts_tasks s ! k"
  have go: "good_step s (conclude L key k how s') {#}"
    if "ts_tasks s' = ts_tasks s" "ts_files s' = ts_files s" "ts_told s' = ts_told s" for how s'
    using good_trans [OF good_same [OF that] good_conclude [of k s' L key how]] that(1) assms by simp
  have start: "good_step s (push_state ?tr Downloading 0 None None (set_task k (?tr\<lparr>tr_phase := Fetching f w\<rparr>) (s\<lparr>ts_dir := d\<rparr>))) {#}"
    for f w d
  proof -
    have "good_step (s\<lparr>ts_dir := d\<rparr>) (set_task k (?tr\<lparr>tr_phase := Fetching f w\<rparr>) (s\<lparr>ts_dir := d\<rparr>)) {#}"
      by (rule good_set_task) (use assms in \<open>simp_all add: waiting_in_def\<close>)
    from good_trans [OF good_same [of "s\<lparr>ts_dir := d\<rparr>" s] good_trans [OF this good_same]] show ?thesis by simp
  qed
  show ?thesis
  proof (cases "find_media (ts_table s) (tr_mxc ?tr)")
    case None
    then show ?thesis using go [of s] by (simp add: begin_download_def Let_def)
  next
    case (Some entry)
    show ?thesis
    proof (cases "create_pending L key draw (tr_pending_name ?tr) (as_bytes (tr_mxc ?tr))")
      case (Inl e)
      then show ?thesis using Some by (auto simp: begin_download_def Let_def intro!: go)
    next
      case (Inr fw)
      then show ?thesis using Some start by (cases fw) (auto simp: begin_download_def Let_def intro!: go)
    qed
  qed
qed

lemma good_push: "good_step s s' g \<Longrightarrow> good_step s (push_state tr st n v e s') g"
  using good_trans [OF _ good_same [of "push_state tr st n v e s'" s'], of s g] by simp

lemma good_piece:
  assumes "k < length (ts_tasks s)"
  shows "good_step s (piece_arrives L key piece due k s) {#}"
proof (cases "tr_phase (ts_tasks s ! k)")
  case (Fetching f w)
  let ?tr = "ts_tasks s ! k"
  have none: "good_step s s {#}" by (simp add: good_same)
  show ?thesis
  proof (cases "writer_write L f w piece")
    case None
    then show ?thesis using good_conclude [OF assms, of L key "Ended_Failed Core_Io"] Fetching by (simp add: piece_arrives_def Let_def)
  next
    case (Some x)
    show ?thesis
    proof (cases x)
      case (Inl e)
      then show ?thesis using good_conclude [OF assms, of L key "Ended_Failed (core_of_sdk_error e)"] Some Fetching
        by (simp add: piece_arrives_def Let_def)
    next
      case (Inr fw)
      obtain f1 w1 where fw: "fw = (f1, w1)" by (cases fw)
      let ?d = "s\<lparr>ts_dir := put_pending (ts_dir s) (tr_pending_name ?tr) f1\<rparr>"
      let ?s1 = "set_task k (?tr\<lparr>tr_phase := Fetching f1 w1\<rparr>) ?d"
      have "good_step ?d ?s1 {#}" by (rule good_set_task) (use assms Fetching in \<open>simp_all add: waiting_in_def\<close>)
      from good_trans [OF good_same [of ?d s] this] have "good_step s ?s1 {#}" by simp
      moreover have "good_step ?s1 (answer_reads L key k f1 w1 ?s1) {#}" by (rule good_answer_reads) (use assms in simp_all)
      ultimately have "good_step s (answer_reads L key k f1 w1 ?s1) {#}" using good_trans by fastforce
      then show ?thesis using Fetching Some Inr fw by (auto simp: piece_arrives_def Let_def intro: good_push)
    qed
  qed
qed (simp_all add: piece_arrives_def Let_def good_same)

lemma good_take:
  assumes "k < length (ts_tasks s)"
  shows "good_step s (take_command L key k s) {#}"
proof (cases "\<exists>f w c rest. tr_phase (ts_tasks s ! k) = Fetching f w \<and> tr_inbox (ts_tasks s ! k) = c # rest")
  case True
  then obtain f w c rest where f: "tr_phase (ts_tasks s ! k) = Fetching f w" "tr_inbox (ts_tasks s ! k) = c # rest" by blast
  let ?tr = "ts_tasks s ! k"
  have set: "good_step s (set_task k tr s) {#}" if "waiting_in tr = waiting_in ?tr" "tr_mxc tr = tr_mxc ?tr" "tr_phase tr = Fetching f w" for tr
    by (rule good_set_task) (use that assms f in simp_all)
  show ?thesis
  proof (cases c)
    case (Get_Piece position p)
    let ?tr1 = "?tr\<lparr>tr_inbox := rest, tr_reads := tr_reads ?tr @ [(position, p)]\<rparr>"
    have "good_step s (set_task k ?tr1 s) {#}" by (rule set) (use f Get_Piece in \<open>simp_all add: waiting_in_def ac_simps\<close>)
    moreover have "good_step (set_task k ?tr1 s) (answer_reads L key k f w (set_task k ?tr1 s)) {#}"
      by (rule good_answer_reads) (use assms f in simp_all)
    ultimately show ?thesis using good_trans [of s "set_task k ?tr1 s" "{#}"] f Get_Piece by (simp add: take_command_def Let_def)
  next
    case (Wait_End p)
    have "good_step s (set_task k (?tr\<lparr>tr_inbox := rest, tr_waiters := tr_waiters ?tr @ [p]\<rparr>) s) {#}"
      by (rule set) (use f Wait_End in \<open>simp_all add: waiting_in_def ac_simps\<close>)
    then show ?thesis using f Wait_End by (simp add: take_command_def Let_def)
  next
    case Cancel_Transfer
    let ?s1 = "set_task k (?tr\<lparr>tr_inbox := rest\<rparr>) s"
    have "good_step s ?s1 {#}" by (rule set) (use f Cancel_Transfer in \<open>simp_all add: waiting_in_def\<close>)
    moreover have "good_step ?s1 (conclude L key k Ended_Cancelled ?s1) {#}" by (rule good_conclude) (use assms f in simp_all)
    ultimately show ?thesis using good_trans [of s ?s1 "{#}"] f Cancel_Transfer by (simp add: take_command_def Let_def)
  qed
next
  case False
  then have "take_command L key k s = s"
    by (auto simp: take_command_def Let_def split: transfer_phase.splits list.splits)
  then show ?thesis by (simp add: good_same)
qed

lemma good_fetched:
  assumes "k < length (ts_tasks s)"
  shows "good_step s (fetch_ends L key now fetched k s) {#}"
proof (cases "tr_phase (ts_tasks s ! k)")
  case (Fetching f w)
  have go: "good_step s (conclude L key k how s') {#}"
    if "ts_tasks s' = ts_tasks s" "ts_files s' = ts_files s" "ts_told s' = ts_told s" for how s'
    using good_trans [OF good_same [OF that] good_conclude [of k s' L key how]] that(1) assms Fetching by simp
  show ?thesis
    unfolding fetch_ends_def Let_def Fetching transfer_phase.case
    by (auto split: sum.splits prod.splits intro!: go)
qed (simp_all add: fetch_ends_def Let_def good_same)

lemma send_length [simp]: "length (ts_tasks (fst (send_command i c s))) = length (ts_tasks s)"
  by (simp add: send_command_def Let_def)

lemma good_send:
  assumes "i < length (ts_tasks s)"
  shows "good_step s (fst (send_command i c s)) (if snd (send_command i c s) then asker_of c else {#})"
proof (cases "tr_phase (ts_tasks s ! i) = Over")
  case True
  then show ?thesis by (simp add: send_command_def Let_def good_same)
next
  case False
  have "good_step s (set_task i ((ts_tasks s ! i)\<lparr>tr_inbox := tr_inbox (ts_tasks s ! i) @ [c]\<rparr>) s) (asker_of c)"
    by (rule good_set_task) (use assms False in \<open>simp_all add: waiting_in_def ac_simps\<close>)
  then show ?thesis using False by (simp add: send_command_def Let_def)
qed

lemma good_tell: "good_step s s' g \<Longrightarrow> good_step s (tell t s') (g + {#told_who t#})"
  using same_parts(1) [of "tell t s'" s'] by (simp add: good_step_def tell_accounted ac_simps)

lemma good_get:
  assumes "i < length (ts_tasks s)"
  shows "good_step s (transfer_read_at i position p s) {#p#}"
proof (cases "send_command i (Get_Piece position p) s")
  case (Pair s1 sent)
  then show ?thesis
    using good_send [OF assms, of "Get_Piece position p"] good_tell [of s s1 "{#}" "Told_Piece p position (Inl transfer_gone)"]
    by (cases sent) (simp_all add: transfer_read_at_def)
qed

lemma good_join:
  "good_step s (fst (join_or_start account me a found waiter s)) (case waiter of Some p \<Rightarrow>
       if snd (join_or_start account me a found waiter s) = Inl described_otherwise then {#} else {#p#} | None \<Rightarrow> {#})"
  if inv: "transfers_inv s"
proof -
  obtain pending_name total_of k where found: "found = (pending_name, total_of, k)" by (cases found)
  show ?thesis
  proof (cases "ts_files s (ma_mxc a)")
    case (Some i)
    let ?tr = "ts_tasks s ! i"
    have i: "i < length (ts_tasks s)" "tr_phase ?tr \<noteq> Over" using inv Some by (auto simp: transfers_inv_def)
    have set: "good_step s (set_task i (?tr\<lparr>tr_listeners := l, tr_inbox := tr_inbox ?tr @ cs\<rparr>) s) (sum_list (map asker_of cs))"
      for l :: "string set" and cs by (rule good_set_task) (use i in \<open>simp_all add: waiting_in_def ac_simps\<close>)
    have same: "good_step s (set_task i (?tr\<lparr>tr_listeners := l\<rparr>) s) {#}" for l :: "string set"
      by (rule good_set_task) (use i in \<open>simp_all add: waiting_in_def\<close>)
    show ?thesis
    proof (cases "is_same_matrix_description (tr_description ?tr) (of_matrix_attachment a)")
      case False
      then show ?thesis using Some found by (auto simp: join_or_start_def Let_def good_same split: option.splits)
    next
      case True
      show ?thesis
      proof (cases waiter)
        case None
        then show ?thesis using True Some found same by (simp add: join_or_start_def Let_def)
      next
        case (Some p)
        then show ?thesis using True \<open>ts_files s (ma_mxc a) = Some i\<close> found i set [where cs = "[Wait_End p]"]
          by (simp add: join_or_start_def Let_def)
      qed
    qed
  next
    case None
    define tr where "tr = \<lparr>tr_account = account, tr_mxc = ma_mxc a, tr_attachment = a, tr_pending_name = pending_name, tr_user = me,
                tr_total = total_of, tr_listeners = {me},
                tr_inbox = (case waiter of Some p \<Rightarrow> [Wait_End p] | None \<Rightarrow> []),
                tr_reads = [], tr_waiters = [], tr_phase = Spawned\<rparr>"
    define s' where "s' = s\<lparr>ts_files := (ts_files s)(ma_mxc a \<mapsto> length (ts_tasks s)), ts_tasks := ts_tasks s @ [tr]\<rparr>"
    have step: "join_or_start account me a found waiter s = (s', Inr (downloading_job (ma_mxc a) total_of k))"
      using None by (simp add: join_or_start_def found s'_def tr_def)
    have free: "tr_mxc (ts_tasks s ! i) \<noteq> ma_mxc a" if "i < length (ts_tasks s)" "tr_phase (ts_tasks s ! i) \<noteq> Over" for i
    proof
      assume "tr_mxc (ts_tasks s ! i) = ma_mxc a"
      then have "ts_files s (ma_mxc a) = Some i" using inv that unfolding transfers_inv_def by metis
      then show False using None by simp
    qed
    have mxc: "tr_mxc tr = ma_mxc a" "tr_phase tr = Spawned" by (simp_all add: tr_def)
    have "transfers_inv s'"
      unfolding transfers_inv_def
    proof (intro conjI allI impI)
      fix i assume i: "i < length (ts_tasks s')" "tr_phase (ts_tasks s' ! i) \<noteq> Over"
      show "ts_files s' (tr_mxc (ts_tasks s' ! i)) = Some i"
        using i free inv mxc by (cases "i < length (ts_tasks s)") (auto simp: s'_def nth_append transfers_inv_def less_Suc_eq)
    next
      fix m i assume i: "ts_files s' m = Some i"
      then have "m = ma_mxc a \<and> i = length (ts_tasks s) \<or> ts_files s m = Some i" by (auto simp: s'_def split: if_splits)
      then show "i < length (ts_tasks s')" "tr_mxc (ts_tasks s' ! i) = m" "tr_phase (ts_tasks s' ! i) \<noteq> Over"
        using inv mxc by (auto simp: s'_def nth_append transfers_inv_def less_SucI)
    next
      fix i assume "i < length (ts_tasks s')" "tr_phase (ts_tasks s' ! i) = Over"
      then have "i < length (ts_tasks s)" "tr_phase (ts_tasks s ! i) = Over"
        using mxc by (auto simp: s'_def nth_append less_Suc_eq split: if_splits)
      then show "tr_inbox (ts_tasks s' ! i) = []" "tr_reads (ts_tasks s' ! i) = []" "tr_waiters (ts_tasks s' ! i) = []"
        using inv by (simp_all add: s'_def nth_append transfers_inv_def)
    qed
    moreover have "answered_or_waiting s' = answered_or_waiting s + waiting_in tr"
      by (simp add: s'_def answered_or_waiting_def waiting_all_def told_all_def ac_simps)
    moreover have "waiting_in tr = (case waiter of Some p \<Rightarrow> {#p#} | None \<Rightarrow> {#})"
      by (simp add: tr_def waiting_in_def split: option.splits)
    ultimately show ?thesis unfolding step by (auto simp: good_step_def split: option.splits)
  qed
qed

lemma good_stop: "good_step s (stop_matrix_downloads_of account s) {#}"
proof -
  have "good_step s (fold (\<lambda>i s. if tr_account (ts_tasks s ! i) = account \<and> ts_files s (tr_mxc (ts_tasks s ! i)) = Some i
                 then fst (send_command i Cancel_Transfer s) else s) l s) {#}"
    if "\<forall>i \<in> set l. i < length (ts_tasks s)" for l
    using that
  proof (induction l arbitrary: s)
    case Nil
    then show ?case by (simp add: good_same)
  next
    case (Cons i l)
    define s1 where "s1 = (if tr_account (ts_tasks s ! i) = account \<and> ts_files s (tr_mxc (ts_tasks s ! i)) = Some i
                 then fst (send_command i Cancel_Transfer s) else s)"
    have "good_step s s1 {#}" using good_send [of i s Cancel_Transfer] Cons.prems by (auto simp: s1_def good_same split: if_splits)
    moreover have "length (ts_tasks s1) = length (ts_tasks s)" by (simp add: s1_def)
    ultimately show ?case using Cons.IH [of s1] Cons.prems good_trans [of s s1 "{#}"] by (simp add: s1_def)
  qed
  from this [of "[0..<length (ts_tasks s)]"] show ?thesis by (simp add: stop_matrix_downloads_of_def)
qed

text \<open>Whom an event lets in: the reader of a GET, and the waiter of a request that was not refused.\<close>

definition lets_in :: "'p transfer_event \<Rightarrow> 'p transfers \<Rightarrow> 'p multiset" where
  "lets_in e s =
     (case e of
        Get i position p \<Rightarrow> {#p#}
      | Join account me a found (Some p) \<Rightarrow>
          if snd (join_or_start account me a found (Some p) s) = Inl described_otherwise then {#} else {#p#}
      | _ \<Rightarrow> {#})"

lemma good_happen:
  assumes "possible e s" "transfers_inv s"
  shows "good_step s (happen L key e s) (lets_in e s)"
proof (cases e)
  case (Found now a)
  then show ?thesis
    by (auto simp: lets_in_def ensure_row_def Let_def split: sum.splits option.splits intro!: good_same)
next
  case (Join account me a found waiter)
  then show ?thesis using good_join [OF assms(2), of account me a found waiter] by (cases waiter) (simp_all add: lets_in_def)
next
  case (Cancel_One mxc)
  show ?thesis
  proof (cases "ts_files s mxc")
    case None
    then show ?thesis by (simp add: Cancel_One lets_in_def cancel_matrix_download_def good_same)
  next
    case (Some i)
    then have "i < length (ts_tasks s)" using assms(2) by (auto simp: transfers_inv_def)
    then show ?thesis using good_send [of i s Cancel_Transfer] Some
      by (simp add: Cancel_One lets_in_def cancel_matrix_download_def split: if_splits)
  qed
qed (use assms(1) good_get good_begin good_piece good_take good_fetched good_stop in
    \<open>auto simp: possible_def lets_in_def intro: good_same\<close>)

section \<open>Everybody is told once\<close>

definition asks_by :: "'p transfer_event \<Rightarrow> 'p multiset" where
  "asks_by e = (case e of Get i position p \<Rightarrow> {#p#} | Join account me a found (Some p) \<Rightarrow> {#p#} | _ \<Rightarrow> {#})"

definition refused :: "'p transfer_event \<Rightarrow> 'p transfers \<Rightarrow> 'p multiset" where
  "refused e s = asks_by e - lets_in e s"

interpretation transfers: ledger possible "happen L key" "\<lambda>_. 0" answered_or_waiting asks_by refused "\<lambda>_. transfers_inv" for L key
proof unfold_locales
  fix n and e :: "'p transfer_event" and s
  assume "transfers_inv s" "possible e s"
  note good = good_happen [OF this(2,1), of L key]
  then show "transfers_inv (happen L key e s)" using \<open>transfers_inv s\<close> by (simp add: good_step_def)
  have "lets_in e s \<subseteq># asks_by e" by (auto simp: lets_in_def asks_by_def split: transfer_event.splits option.splits)
  then show "answered_or_waiting (happen L key e s) + refused e s = answered_or_waiting s + asks_by e"
    using good by (simp add: good_step_def refused_def ac_simps)
qed

lemma no_transfers_inv: "transfers_inv (no_transfers t d)" "answered_or_waiting (no_transfers t d) = {#}"
  by (simp_all add: no_transfers_def transfers_inv_def answered_or_waiting_def waiting_all_def told_all_def)

definition after :: "pool_lib \<Rightarrow> bytes \<Rightarrow> media_table \<Rightarrow> pool_dir \<Rightarrow> 'p transfer_event list \<Rightarrow> 'p transfers" where
  "after L key t d es = fold (happen L key) es (no_transfers t d)"

lemma after_inv:
  assumes "transfers.path L key es (no_transfers t d)"
  shows "transfers_inv (after L key t d es)"
    "answered_or_waiting (after L key t d es) + transfers.all_taken L key es (no_transfers t d) = sum_list (map asks_by es)"
  using transfers.balance_run [OF no_transfers_inv(1) assms] by (simp_all add: after_def no_transfers_inv)

lemma fetched_over:
  assumes "k < length (ts_tasks s)" "tr_phase (ts_tasks s ! k) = Fetching f w"
  shows "tr_phase (ts_tasks (happen L key (Fetched now fetched k) s) ! k) = Over"
proof -
  have over: "tr_phase (ts_tasks (conclude L key k how s') ! k) = Over" if "ts_tasks s' = ts_tasks s" for how s'
    using assms(1) that by (rule_tac conclude_shape [of L key k how s']) simp
  show ?thesis
    unfolding happen.simps fetch_ends_def Let_def assms(2) transfer_phase.case
    by (auto split: sum.splits prod.splits intro!: over)
qed

text \<open>
  C37. Whoever asks a transfer is told exactly once.  Whatever happens, in any order, each GET and each waiter
  that was not refused at once is still waiting in a running task or was told, and was told once; a task
  that is over holds nobody, and the end of its download, good or bad, makes it over.
\<close>

theorem every_asker_is_told_once:
  assumes "transfers.path L key es (no_transfers t d)"
  shows "let s = after L key t d es in
     waiting_all s + told_all s + transfers.all_taken L key es (no_transfers t d) = sum_list (map asks_by es)
     \<and> (\<forall>tr \<in> set (ts_tasks s). tr_phase tr = Over \<longrightarrow> waiting_in tr = {#})
     \<and> (\<forall>k f w now fetched. k < length (ts_tasks s) \<and> tr_phase (ts_tasks s ! k) = Fetching f w
          \<longrightarrow> tr_phase (ts_tasks (happen L key (Fetched now fetched k) s) ! k) = Over)"
proof -
  have "waiting_in tr = {#}" if "tr \<in> set (ts_tasks (after L key t d es))" "tr_phase tr = Over" for tr
    using that after_inv(1) [OF assms] by (auto simp: transfers_inv_def in_set_conv_nth waiting_in_def)
  then show ?thesis
    using after_inv(2) [OF assms] fetched_over unfolding Let_def by (auto simp: answered_or_waiting_def)
qed

text \<open>
  C38. One writer per file.  Of the running tasks no two are of the same file, each is the one the table of
  files names, and the pending names that the sweep must not touch are exactly theirs.
\<close>

theorem one_transfer_per_file:
  assumes "transfers.path L key es (no_transfers t d)"
  shows "let s = after L key t d es; running = {i. i < length (ts_tasks s) \<and> tr_phase (ts_tasks s ! i) \<noteq> Over} in
     inj_on (\<lambda>i. tr_mxc (ts_tasks s ! i)) running
     \<and> (\<forall>mxc i. ts_files s mxc = Some i \<longleftrightarrow> i \<in> running \<and> tr_mxc (ts_tasks s ! i) = mxc)
     \<and> list_pending_names s = (\<lambda>i. tr_pending_name (ts_tasks s ! i)) ` running"
proof -
  let ?s = "after L key t d es"
  define running where "running = {i. i < length (ts_tasks ?s) \<and> tr_phase (ts_tasks ?s ! i) \<noteq> Over}"
  have files: "ts_files ?s mxc = Some i \<longleftrightarrow> i \<in> running \<and> tr_mxc (ts_tasks ?s ! i) = mxc" for mxc i
    using after_inv(1) [OF assms] unfolding transfers_inv_def running_def by blast
  have inj: "inj_on (\<lambda>i. tr_mxc (ts_tasks ?s ! i)) running"
  proof (rule inj_onI)
    fix i j assume "i \<in> running" "j \<in> running" "tr_mxc (ts_tasks ?s ! i) = tr_mxc (ts_tasks ?s ! j)"
    then have "ts_files ?s (tr_mxc (ts_tasks ?s ! j)) = Some i" "ts_files ?s (tr_mxc (ts_tasks ?s ! j)) = Some j"
      using files by simp_all
    then show "i = j" by simp
  qed
  have "list_pending_names ?s = (\<lambda>i. tr_pending_name (ts_tasks ?s ! i)) ` running"
    unfolding list_pending_names_def files by blast
  then show ?thesis using inj files unfolding Let_def running_def [symmetric] by blast
qed

section \<open>What GETs are told\<close>

text \<open>The plaintext that the download has handed to task \<open>k\<close>.\<close>

definition got :: "'p transfer_event list \<Rightarrow> nat \<Rightarrow> bytes" where
  "got es k = concat (map (\<lambda>e. case e of Piece piece due i \<Rightarrow> if i = k then piece else [] | _ \<Rightarrow> []) es)"

lemma got_append [simp]:
  "got [] k = []"
  "got (es @ [e]) k = got es k @ (case e of Piece piece due i \<Rightarrow> if i = k then piece else [] | _ \<Rightarrow> [])"
  by (simp_all add: got_def)

text \<open>\<open>getrandom\<close> fills the whole nonce base.\<close>

definition full_draws :: "'p transfer_event list \<Rightarrow> bool" where
  "full_draws es \<longleftrightarrow> (\<forall>nonce k. Begin_Task (Inr nonce) k \<in> set es \<longrightarrow> length nonce = POOL_NONCE_BASE_LEN)"

definition phase_ok :: "pool_lib \<Rightarrow> bytes \<Rightarrow> transfer_phase \<Rightarrow> bytes \<Rightarrow> bool" where
  "phase_ok L key ph xs \<longleftrightarrow>
     (case ph of
        Spawned \<Rightarrow> xs = []
      | Fetching f w \<Rightarrow> writer_inv L f w xs \<and> \<not> pw_holds_final_segment w \<and> pw_key w = key
      | Over \<Rightarrow> True)"

abbreviation phases :: "'p transfers \<Rightarrow> transfer_phase list" where
  "phases s \<equiv> map tr_phase (ts_tasks s)"

lemma phases_conclude: "phases (conclude L key k how s) = (phases s)[k := Over]"
  by (rule conclude_shape [of L key k how s]) (simp add: map_update)

lemma phases_answer_reads:
  assumes "k < length (ts_tasks s)"
  shows "phases (answer_reads L key k f w s) \<in> {phases s, (phases s)[k := Over]}"
proof -
  have same: "(phases s)[k := tr_phase (ts_tasks s ! k)] = phases s" using assms by (metis list_update_id nth_map)
  show ?thesis
    by (cases "answer_ready L f w (filter (\<lambda>(position, p). position < sealed_plain_len w) (tr_reads (ts_tasks s ! k)))")
      (auto simp: answer_reads_def Let_def phases_conclude map_update same split: option.splits)
qed

lemma phases_send: "i < length (ts_tasks s) \<Longrightarrow> phases (fst (send_command i c s)) = phases s"
  by (auto simp: send_command_def Let_def map_update) (metis list_update_id nth_map)

lemma phases_stop: "phases (stop_matrix_downloads_of account s) = phases s"
proof -
  have "phases (fold (\<lambda>i s. if tr_account (ts_tasks s ! i) = account \<and> ts_files s (tr_mxc (ts_tasks s ! i)) = Some i
                 then fst (send_command i Cancel_Transfer s) else s) l s) = phases s"
    if "\<forall>i \<in> set l. i < length (ts_tasks s)" for l
    using that by (induction l arbitrary: s) (auto simp: phases_send)
  from this [of "[0..<length (ts_tasks s)]"] show ?thesis by (simp add: stop_matrix_downloads_of_def)
qed

lemma phases_join:
  assumes "transfers_inv s"
  shows "phases (fst (join_or_start account me a found waiter s)) \<in> {phases s, phases s @ [Spawned]}"
proof (cases "ts_files s (ma_mxc a)")
  case (Some i)
  then have i: "i < length (ts_tasks s)" using assms by (auto simp: transfers_inv_def)
  then have "(phases s)[i := tr_phase (ts_tasks s ! i)] = phases s" by (metis list_update_id nth_map)
  then show ?thesis using Some by (auto simp: join_or_start_def Let_def map_update split: prod.splits option.splits)
qed (auto simp: join_or_start_def split: prod.splits)

lemma phases_begin:
  assumes "pool_lib_ok L" "k < length (ts_tasks s)" "\<And>nonce. draw = Inr nonce \<Longrightarrow> length nonce = POOL_NONCE_BASE_LEN"
  shows "\<exists>ph. phases (begin_download L key draw k s) = (phases s)[k := ph] \<and> phase_ok L key ph []"
proof -
  let ?tr = "ts_tasks s ! k"
  have over: "\<exists>ph. (phases s)[k := Over] = (phases s)[k := ph] \<and> phase_ok L key ph []"
    by (intro exI [of _ Over]) (simp add: phase_ok_def)
  have created: "phase_ok L key (Fetching f w) []" if c: "create_pending L key draw (tr_pending_name ?tr) (as_bytes (tr_mxc ?tr)) = Inr (f, w)" for f w
  proof -
    obtain nonce where n: "draw = Inr nonce" and fw: "f = encode_header (pool_header L nonce (as_bytes (tr_mxc ?tr)))"
        "w = writer_new key (pool_header L nonce (as_bytes (tr_mxc ?tr))) (tr_pending_name ?tr)"
      using c by (cases draw) (auto simp: create_pending_def Let_def pool_header_def)
    show ?thesis
      using writer_new_inv [OF assms(1) wf_pool_header [OF assms(3) [OF n]]] fw
      by (simp add: phase_ok_def) (simp add: writer_new_def)
  qed
  show ?thesis
    using over created unfolding begin_download_def Let_def
    by (auto simp: phases_conclude map_update split: option.splits sum.splits prod.splits)
qed

lemma phases_piece:
  assumes k: "k < length (ts_tasks s)" and ph: "tr_phase (ts_tasks s ! k) = Fetching f w" and ok: "phase_ok L key (Fetching f w) xs"
  shows "\<exists>ph. phases (piece_arrives L key piece due k s) = (phases s)[k := ph] \<and> phase_ok L key ph (xs @ piece)"
proof -
  obtain f1 w1 where w1: "writer_write L f w piece = Some (Inr (f1, w1))" "writer_inv L f1 w1 (xs @ piece)" "same_pool w w1"
    using ok writer_write_inv [of L f w xs piece] by (auto simp: phase_ok_def)
  let ?tr = "ts_tasks s ! k"
  define s1 where "s1 = set_task k (?tr\<lparr>tr_phase := Fetching f1 w1\<rparr>) (s\<lparr>ts_dir := put_pending (ts_dir s) (tr_pending_name ?tr) f1\<rparr>)"
  have "phases (piece_arrives L key piece due k s) = phases (answer_reads L key k f1 w1 s1)"
    using ph w1(1) by (simp add: piece_arrives_def Let_def s1_def)
  moreover have "phases (answer_reads L key k f1 w1 s1) \<in> {phases s1, (phases s1)[k := Over]}"
    by (rule phases_answer_reads) (simp add: s1_def k)
  moreover have "phases s1 = (phases s)[k := Fetching f1 w1]" by (simp add: s1_def map_update)
  moreover have "phase_ok L key (Fetching f1 w1) (xs @ piece)" using w1(2,3) ok by (simp add: phase_ok_def same_pool_def)
  moreover have "phase_ok L key Over (xs @ piece)" by (simp add: phase_ok_def)
  ultimately show ?thesis by (metis insertE list_update_overwrite singletonD)
qed

lemma phases_take:
  assumes "k < length (ts_tasks s)"
  shows "phases (take_command L key k s) \<in> {phases s, (phases s)[k := Over]}"
proof -
  have same: "(phases s)[k := tr_phase (ts_tasks s ! k)] = phases s" using assms by (metis list_update_id nth_map)
  have set: "phases (set_task k tr s) = phases s" if "tr_phase tr = tr_phase (ts_tasks s ! k)" for tr
    using that same by (simp add: map_update)
  have ans: "phases (answer_reads L key k f w (set_task k tr s)) \<in> {phases s, (phases s)[k := Over]}"
    if "tr_phase tr = tr_phase (ts_tasks s ! k)" for f w tr
    using phases_answer_reads [of k "set_task k tr s" L key f w] set [OF that] assms by simp
  show ?thesis
  proof (cases "tr_phase (ts_tasks s ! k)")
    case (Fetching f w)
    show ?thesis
    proof (cases "tr_inbox (ts_tasks s ! k)")
      case (Cons c rest)
      show ?thesis
      proof (cases c)
        case (Get_Piece position p)
        have "take_command L key k s = answer_reads L key k f w (set_task k ((ts_tasks s ! k)
            \<lparr>tr_inbox := rest, tr_reads := tr_reads (ts_tasks s ! k) @ [(position, p)]\<rparr>) s)"
          by (simp add: take_command_def Let_def Fetching Cons Get_Piece)
        then show ?thesis using ans [of "(ts_tasks s ! k)\<lparr>tr_inbox := rest, tr_reads := tr_reads (ts_tasks s ! k) @ [(position, p)]\<rparr>" f w]
          by simp
      next
        case (Wait_End p)
        then show ?thesis using set [of "(ts_tasks s ! k)\<lparr>tr_inbox := rest, tr_waiters := tr_waiters (ts_tasks s ! k) @ [p]\<rparr>"]
          by (simp add: take_command_def Let_def Fetching Cons)
      next
        case Cancel_Transfer
        then show ?thesis using set [of "(ts_tasks s ! k)\<lparr>tr_inbox := rest\<rparr>"]
          by (simp add: take_command_def Let_def Fetching Cons phases_conclude)
      qed
    qed (simp add: take_command_def Let_def Fetching)
  qed (simp_all add: take_command_def Let_def)
qed

lemma phases_fetched:
  "phases (fetch_ends L key now fetched k s) \<in> {phases s, (phases s)[k := Over]}"
  by (auto simp: fetch_ends_def Let_def phases_conclude split: transfer_phase.splits sum.splits prod.splits)

text \<open>What each task's writer holds, and nothing yet for the tasks that are to come.\<close>

definition fetch_inv :: "pool_lib \<Rightarrow> bytes \<Rightarrow> 'p transfer_event list \<Rightarrow> 'p transfers \<Rightarrow> bool" where
  "fetch_inv L key es s \<longleftrightarrow>
     (\<forall>k < length (ts_tasks s). phase_ok L key (phases s ! k) (got es k)) \<and> (\<forall>k \<ge> length (ts_tasks s). got es k = [])"

lemma fetch_inv_update:
  assumes inv: "fetch_inv L key es s" and ph: "phases s' = (phases s)[k := ph]" "phase_ok L key ph (got (es @ [e]) k)"
    and others: "\<And>i. i \<noteq> k \<Longrightarrow> got (es @ [e]) i = got es i" and k: "k < length (ts_tasks s)"
  shows "fetch_inv L key (es @ [e]) s'"
proof -
  have len: "length (ts_tasks s') = length (ts_tasks s)" using ph(1) by (metis length_list_update length_map)
  show ?thesis unfolding fetch_inv_def ph(1) len
  proof (intro conjI allI impI)
    fix i assume "i < length (ts_tasks s)"
    then show "phase_ok L key ((phases s)[k := ph] ! i) (got (es @ [e]) i)"
      using inv ph(2) others by (cases "i = k") (auto simp: fetch_inv_def)
  next
    fix i assume "length (ts_tasks s) \<le> i"
    then show "got (es @ [e]) i = []" using inv others k by (auto simp: fetch_inv_def)
  qed
qed

lemma fetch_inv_same:
  assumes "fetch_inv L key es s" "phases s' = phases s" "\<And>i. got (es @ [e]) i = got es i"
  shows "fetch_inv L key (es @ [e]) s'"
proof -
  have "length (ts_tasks s') = length (ts_tasks s)" using assms(2) by (metis length_map)
  then show ?thesis using assms by (simp add: fetch_inv_def)
qed

lemma fetch_inv_maybe_over:
  assumes "fetch_inv L key es s" "phases s' \<in> {phases s, (phases s)[k := Over]}" "\<And>i. got (es @ [e]) i = got es i"
  shows "fetch_inv L key (es @ [e]) s'"
proof (cases "phases s' = phases s \<or> \<not> k < length (ts_tasks s)")
  case True
  then show ?thesis using assms fetch_inv_same by (metis insertE length_map list_update_beyond not_less singletonD)
next
  case False
  then show ?thesis using assms fetch_inv_update [of L key es s s' k Over e] by (auto simp: phase_ok_def)
qed

lemma fetch_inv_step:
  assumes L: "pool_lib_ok L" and inv: "transfers_inv s" "fetch_inv L key es s" and e: "possible e s" "full_draws [e]"
  shows "fetch_inv L key (es @ [e]) (happen L key e s)"
proof (cases e)
  case (Found now a)
  then show ?thesis
    by (intro fetch_inv_same [OF inv(2)]) (auto simp: ensure_row_def Let_def split: sum.splits option.splits)
next
  case (Join account me a found waiter)
  have "phases (happen L key e s) = phases s \<or> phases (happen L key e s) = phases s @ [Spawned]"
    using phases_join [OF inv(1), of account me a found waiter] by (simp add: Join)
  then show ?thesis
  proof
    assume new: "phases (happen L key e s) = phases s @ [Spawned]"
    then have len: "length (ts_tasks (happen L key e s)) = Suc (length (ts_tasks s))" by (metis length_append_singleton length_map)
    have "got (es @ [e]) i = got es i" for i by (simp add: Join)
    then show ?thesis unfolding fetch_inv_def new len
      using inv(2) by (auto simp: fetch_inv_def nth_append phase_ok_def less_Suc_eq)
  qed (intro fetch_inv_same [OF inv(2)]; simp add: Join)
next
  case (Get i position p)
  have "phases (happen L key e s) = phases s"
    using e(1) phases_send [of i s "Get_Piece position p"]
    by (cases "send_command i (Get_Piece position p) s") (auto simp: Get transfer_read_at_def possible_def split: bool.splits)
  then show ?thesis by (intro fetch_inv_same [OF inv(2)]) (simp_all add: Get)
next
  case (Cancel_One mxc)
  have "phases (happen L key e s) = phases s"
    using inv(1) phases_send [of _ s Cancel_Transfer]
    by (auto simp: Cancel_One cancel_matrix_download_def transfers_inv_def split: option.splits)
  then show ?thesis by (intro fetch_inv_same [OF inv(2)]) (simp_all add: Cancel_One)
next
  case (Stop_All account)
  then show ?thesis by (intro fetch_inv_same [OF inv(2)]) (simp_all add: phases_stop)
next
  case (Others t d)
  then show ?thesis by (intro fetch_inv_same [OF inv(2)]) simp_all
next
  case (Begin_Task draw k)
  have k: "k < length (ts_tasks s)" "tr_phase (ts_tasks s ! k) = Spawned" using e(1) by (auto simp: possible_def Begin_Task)
  then have "got es k = []" using inv(2) by (auto simp: fetch_inv_def phase_ok_def)
  moreover obtain ph where "phases (begin_download L key draw k s) = (phases s)[k := ph]" "phase_ok L key ph []"
    using phases_begin [OF L k(1), of draw key] e(2) by (auto simp: full_draws_def Begin_Task)
  ultimately show ?thesis using fetch_inv_update [OF inv(2) _ _ _ k(1), of "happen L key e s" ph e] by (simp add: Begin_Task)
next
  case (Piece piece due k)
  obtain f w where k: "k < length (ts_tasks s)" "tr_phase (ts_tasks s ! k) = Fetching f w" using e(1) by (auto simp: possible_def Piece)
  then have "phase_ok L key (Fetching f w) (got es k)" using inv(2) by (auto simp: fetch_inv_def)
  then obtain ph where "phases (piece_arrives L key piece due k s) = (phases s)[k := ph]" "phase_ok L key ph (got es k @ piece)"
    using phases_piece [OF k] by blast
  then show ?thesis using fetch_inv_update [OF inv(2) _ _ _ k(1), of "happen L key e s" ph e] by (simp add: Piece)
next
  case (Take k)
  then show ?thesis using phases_take [of k s L key] e(1) by (intro fetch_inv_maybe_over [OF inv(2)]) (simp_all add: possible_def)
next
  case (Fetched now fetched k)
  then show ?thesis using phases_fetched [of L key now fetched k s] by (intro fetch_inv_maybe_over [OF inv(2)]) simp_all
qed

lemma path_snoc:
  "transfers.path L key (es @ [e]) s \<longleftrightarrow> transfers.path L key es s \<and> possible e (fold (happen L key) es s)"
  by (induction es arbitrary: s) simp_all

lemma fetch_inv_after:
  assumes "pool_lib_ok L" "transfers.path L key es (no_transfers t d)" "full_draws es"
  shows "fetch_inv L key es (after L key t d es)"
  using assms(2,3)
proof (induction es rule: rev_induct)
  case Nil
  then show ?case by (simp add: after_def no_transfers_def fetch_inv_def)
next
  case (snoc e es)
  then have "transfers.path L key es (no_transfers t d)" "possible e (after L key t d es)" "full_draws es" "full_draws [e]"
    by (auto simp: path_snoc after_def full_draws_def)
  then show ?case
    using fetch_inv_step [OF assms(1), of "after L key t d es" key es e] after_inv(1) [of L key es t d] snoc.IH by (simp add: after_def)
qed

lemma answer_ready_all:
  assumes "writer_inv L f w xs" "\<forall>(position, p) \<in> set ready. position < sealed_plain_len w"
  shows "answer_ready L f w ready = (map (\<lambda>(position, p). Told_Piece p position (Inr \<lparr>sp_start = position,
      sp_plain = cut_out xs position (min (sealed_plain_len w) (position + GET_PIECE))\<rparr>)) ready, None)"
  using assms(2)
proof (induction ready)
  case (Cons r ready)
  obtain position p where r: "r = (position, p)" by (cases r)
  have "read_sealed L f w position (min (sealed_plain_len w) (position + GET_PIECE))
      = Some (Inr (cut_out xs position (min (sealed_plain_len w) (position + GET_PIECE))))"
    using Cons.prems by (intro read_sealed_inv [OF assms(1)]) (auto simp: r)
  then show ?case using Cons by (simp add: r)
qed simp

lemma sealed_in_fetched: "writer_inv L f w xs \<Longrightarrow> sealed_plain_len w \<le> length xs"
  by (simp add: writer_inv_def writer_holds_def sealed_plain_len_def)

text \<open>A piece of \<open>xs\<close> from \<open>position\<close> on, not empty and no longer than one answer.\<close>

definition is_piece_of :: "bytes \<Rightarrow> nat \<Rightarrow> seek_piece \<Rightarrow> bool" where
  "is_piece_of xs position sp \<longleftrightarrow>
     sp_start sp = position \<and> sp_plain sp \<noteq> [] \<and> length (sp_plain sp) \<le> GET_PIECE
     \<and> (\<exists>rest. drop position xs = sp_plain sp @ rest)"

lemma cut_out_piece:
  assumes "position < e" "e \<le> length xs" "e \<le> position + GET_PIECE"
  shows "is_piece_of xs position \<lparr>sp_start = position, sp_plain = cut_out xs position e\<rparr>"
proof -
  have "drop position xs = cut_out xs position e @ drop (e - position) (drop position xs)"
    unfolding cut_out_def by (rule append_take_drop_id [symmetric])
  then show ?thesis using assms by (auto simp: is_piece_of_def cut_out_def)
qed

lemma told_by_answer_reads:
  assumes w: "writer_inv L f w xs" and k: "k < length (ts_tasks s)"
  shows "\<exists>l. ts_told (answer_reads L key k f w s) = ts_told s @ l
     \<and> (\<forall>p position sp. Told_Piece p position (Inr sp) \<in> set l \<longrightarrow> is_piece_of xs position sp)"
proof -
  let ?ready = "filter (\<lambda>(position, p). position < sealed_plain_len w) (tr_reads (ts_tasks s ! k))"
  let ?told = "\<lambda>(position, p). Told_Piece p position (Inr \<lparr>sp_start = position,
      sp_plain = cut_out xs position (min (sealed_plain_len w) (position + GET_PIECE))\<rparr>)"
  have all: "answer_ready L f w ?ready = (map ?told ?ready, None)" by (rule answer_ready_all [OF w]) auto
  have "is_piece_of xs position \<lparr>sp_start = position, sp_plain = cut_out xs position (min (sealed_plain_len w) (position + GET_PIECE))\<rparr>"
    if "position < sealed_plain_len w" for position
    using that sealed_in_fetched [OF w] by (intro cut_out_piece) (auto simp: GET_PIECE_def)
  then show ?thesis by (intro exI [of _ "map ?told ?ready"]) (auto simp: answer_reads_def Let_def all)
qed

lemma told_by_piece:
  assumes k: "k < length (ts_tasks s)" and f: "tr_phase (ts_tasks s ! k) = Fetching f w" and ok: "phase_ok L key (Fetching f w) xs"
  shows "\<exists>l. ts_told (piece_arrives L key piece due k s) = ts_told s @ l
     \<and> (\<forall>p position sp. Told_Piece p position (Inr sp) \<in> set l \<longrightarrow> is_piece_of (xs @ piece) position sp)"
proof -
  have "writer_inv L f w xs" "\<not> pw_holds_final_segment w" using ok by (simp_all add: phase_ok_def)
  then obtain f1 w1 where w1: "writer_write L f w piece = Some (Inr (f1, w1))" "writer_inv L f1 w1 (xs @ piece)"
    by (rule writer_write_inv [of L f w xs piece]) blast
  define s1 where "s1 = set_task k ((ts_tasks s ! k)\<lparr>tr_phase := Fetching f1 w1\<rparr>)
      (s\<lparr>ts_dir := put_pending (ts_dir s) (tr_pending_name (ts_tasks s ! k)) f1\<rparr>)"
  have "ts_told (piece_arrives L key piece due k s) = ts_told (answer_reads L key k f1 w1 s1)"
    using f w1(1) by (simp add: piece_arrives_def Let_def s1_def)
  moreover have "ts_told s1 = ts_told s" "k < length (ts_tasks s1)" using k by (simp_all add: s1_def)
  ultimately show ?thesis using told_by_answer_reads [OF w1(2), of k s1 key] by metis
qed

lemma told_by_take:
  assumes k: "k < length (ts_tasks s)" and f: "tr_phase (ts_tasks s ! k) = Fetching f w" and ok: "phase_ok L key (Fetching f w) xs"
  shows "\<exists>l. ts_told (take_command L key k s) = ts_told s @ l
     \<and> (\<forall>p position sp. Told_Piece p position (Inr sp) \<in> set l \<longrightarrow> is_piece_of xs position sp)"
proof (cases "tr_inbox (ts_tasks s ! k)")
  case Nil
  then show ?thesis by (simp add: take_command_def Let_def f)
next
  case (Cons c rest)
  show ?thesis
  proof (cases c)
    case (Get_Piece q p')
    define s1 where "s1 = set_task k ((ts_tasks s ! k)\<lparr>tr_inbox := rest, tr_reads := tr_reads (ts_tasks s ! k) @ [(q, p')]\<rparr>) s"
    have "ts_told (take_command L key k s) = ts_told (answer_reads L key k f w s1)"
      using f Cons Get_Piece by (simp add: take_command_def Let_def s1_def)
    moreover have "ts_told s1 = ts_told s" "k < length (ts_tasks s1)" "writer_inv L f w xs"
      using k ok by (simp_all add: s1_def phase_ok_def)
    ultimately show ?thesis using told_by_answer_reads [of L f w xs k s1 key] by metis
  next
    case (Wait_End p')
    then show ?thesis by (simp add: take_command_def Let_def f Cons)
  next
    case Cancel_Transfer
    then show ?thesis by (auto simp: take_command_def Let_def f Cons conclude_def)
  qed
qed

text \<open>
  C39. A GET during a download is told what was downloaded.  An answer that a running task gives to a GET is
  the plaintext of the file from the position asked for, as the download has handed it over so far: not
  empty, at most 64 KiB, and from nowhere else.
\<close>

theorem gets_are_told_what_was_fetched:
  assumes "pool_lib_ok L" "transfers.path L key (es @ [e]) (no_transfers t d)" "full_draws (es @ [e])"
    "e = Piece piece due k \<or> e = Take k"
    "Told_Piece p position (Inr sp) \<in> set (drop (length (ts_told (after L key t d es))) (ts_told (after L key t d (es @ [e]))))"
  shows "sp_start sp = position \<and> sp_plain sp \<noteq> [] \<and> length (sp_plain sp) \<le> 64 * 1024
     \<and> (\<exists>rest. drop position (got (es @ [e]) k) = sp_plain sp @ rest)"
proof -
  let ?s = "after L key t d es"
  have path: "transfers.path L key es (no_transfers t d)" and poss: "possible e ?s"
    using assms(2) by (simp_all add: path_snoc after_def)
  have draws: "full_draws es" using assms(3) by (auto simp: full_draws_def)
  have k: "k < length (ts_tasks ?s)" using poss assms(4) by (auto simp: possible_def)
  have next_s: "after L key t d (es @ [e]) = happen L key e ?s" by (simp add: after_def)
  have "is_piece_of (got (es @ [e]) k) position sp"
  proof (cases "\<exists>f w. tr_phase (ts_tasks ?s ! k) = Fetching f w")
    case True
    then obtain f w where f: "tr_phase (ts_tasks ?s ! k) = Fetching f w" by blast
    then have ok: "phase_ok L key (Fetching f w) (got es k)"
      using fetch_inv_after [OF assms(1) path draws] k by (auto simp: fetch_inv_def)
    from assms(4) show ?thesis
    proof
      assume e: "e = Piece piece due k"
      show ?thesis using told_by_piece [OF k f ok, of piece due] assms(5) unfolding next_s by (auto simp: e)
    next
      assume e: "e = Take k"
      show ?thesis using told_by_take [OF k f ok] assms(5) unfolding next_s by (auto simp: e)
    qed
  next
    case False
    then have "ts_told (happen L key e ?s) = ts_told ?s"
      using assms(4) by (auto simp: piece_arrives_def take_command_def Let_def split: transfer_phase.splits)
    then show ?thesis using assms(5) unfolding next_s by simp
  qed
  then show ?thesis by (simp add: is_piece_of_def GET_PIECE_def)
qed

section \<open>The end of a good download\<close>

lemma read_exact_ok:
  "reader_inv L r xs \<Longrightarrow> pr_position r + n \<le> length xs \<Longrightarrow>
     read_exact L r n out = Inr (out @ take n (drop (pr_position r) xs))"
proof (induction n arbitrary: r out rule: less_induct)
  case (less n)
  show ?case
  proof (cases "n = 0")
    case True
    then show ?thesis by (subst read_exact.simps) simp
  next
    case False
    define m where "m = read_size (seg_size (pr_header r)) (length xs) (pr_position r) n"
    obtain r' where r': "reader_read L r n = Inr (r', take m (drop (pr_position r) xs))" "reader_inv L r' xs"
      "pr_position r' = pr_position r + m"
      using reader_read_inv [OF less.prems(1) m_def] by blast
    have c: "0 < seg_size (pr_header r)" using less.prems(1) by (auto simp: reader_inv_def seg_size_pos)
    have m: "0 < m" "m \<le> n" using read_size_pos [OF c, of "pr_position r" "length xs" n] less.prems(2) False
      by (simp_all add: m_def) (simp add: read_size_def)
    have len: "length (take m (drop (pr_position r) xs)) = m" using less.prems(2) m by simp
    then have "take m (drop (pr_position r) xs) \<noteq> []" using m(1) by auto
    then have "read_exact L r n out = read_exact L r' (n - m) (out @ take m (drop (pr_position r) xs))"
      using False r'(1) len by (subst read_exact.simps) simp
    also have "\<dots> = Inr ((out @ take m (drop (pr_position r) xs)) @ take (n - m) (drop (pr_position r') xs))"
      using less.IH [of "n - m" r'] r' m less.prems(2) False by simp
    finally have read: "read_exact L r n out
      = Inr (out @ (take m (drop (pr_position r) xs) @ take (n - m) (drop (pr_position r') xs)))" by simp
    have "take m (drop (pr_position r) xs) @ take (n - m) (drop (pr_position r') xs) = take n (drop (pr_position r) xs)"
      using m(2) take_add [of m "n - m" "drop (pr_position r) xs"] by (simp add: r'(3) add.commute)
    with read show ?thesis by simp
  qed
qed

lemma read_from_pool_ok:
  assumes "pool_lib_ok L" "wf_header h" "path_of name = Inr q" "pd_complete d name = Some (pool_file L key h xs)" "position < length xs"
  shows "read_from_pool L key d name position = Inr \<lparr>sp_start = position, sp_plain = take GET_PIECE (drop position xs)\<rparr>"
proof -
  have "xs \<noteq> []" using assms(5) by auto
  then obtain d1 r where r: "open_read L key d name = Inr (d1, r)" "reader_inv L r xs" "pr_position r = 0"
    using open_read_pool_file [OF assms(1,2) _ assms(3,4)] by metis
  let ?r = "r\<lparr>pr_position := position\<rparr>"
  have inv: "reader_inv L ?r xs" using r(2) by (simp add: reader_inv_def)
  have len: "pr_plain_len r = length xs" using r(2) by (simp add: reader_inv_def)
  have "read_exact L ?r (min (length xs) (position + GET_PIECE) - position) [] = Inr (take (min (length xs) (position + GET_PIECE) - position) (drop position xs))"
    using read_exact_ok [OF inv, of "min (length xs) (position + GET_PIECE) - position" "[]"] assms(5) by simp
  moreover have "take (min (length xs) (position + GET_PIECE) - position) (drop position xs) = take GET_PIECE (drop position xs)"
    by (cases "length xs \<le> position + GET_PIECE") (simp_all add: min_def)
  ultimately show ?thesis
    using r(1) assms(5) by (simp add: read_from_pool_def reader_seek_def len)
qed

lemma find_update_row:
  "find_media t mxc = Some e \<Longrightarrow> (\<And>x. me_mxc (g x) = me_mxc x) \<Longrightarrow> find_media (update_row t mxc g) mxc = Some (g e)"
  by (induction t) (auto simp: find_media_def update_row_def split: if_splits)

text \<open>The writer of a whole download, finished and adopted: the directory afterwards.\<close>

definition kept_dir :: "pool_lib \<Rightarrow> bytes \<Rightarrow> pool_writer \<Rightarrow> bytes \<Rightarrow> string \<Rightarrow> pool_dir \<Rightarrow> pool_dir" where
  "kept_dir L key w xs name d = d\<lparr>pd_pending := (pd_pending d)(name := None),
      pd_complete := (pd_complete d)(to_hex L (h_blake3 L xs) \<mapsto> pool_file L key (pw_header w) xs)\<rparr>"

lemma finish_and_adopt:
  assumes w: "writer_inv L f w xs" "pw_key w = key" "xs \<noteq> []" and hash: "hash = to_hex L (h_blake3 L xs)"
    and disk: "pd_pending d name \<noteq> None" "path_of hash = Inr q" "pd_complete d hash = None"
  shows "writer_finish L f w = Inr (pool_file L key (pw_header w) xs, finished_of L (pw_header w) xs)"
    "adopt L key (put_pending d name (pool_file L key (pw_header w) xs)) name hash = Inr (kept_dir L key w xs name d, True)"
    "pool_bytes_on_disk (kept_dir L key w xs name d) hash = Inr (length (pool_file L key (pw_header w) xs))"
proof -
  have put: "put_pending d name f' = d\<lparr>pd_pending := (pd_pending d)(name \<mapsto> f')\<rparr>" for f'
    using disk(1) unfolding put_pending_def by (rule if_not_P)
  show "writer_finish L f w = Inr (pool_file L key (pw_header w) xs, finished_of L (pw_header w) xs)"
    using writer_finish_holds [OF w(1,3)] w(2) by simp
  show "adopt L key (put_pending d name (pool_file L key (pw_header w) xs)) name hash = Inr (kept_dir L key w xs name d, True)"
    using disk(2,3) by (simp add: put adopt_def open_read_def ok_or_def kept_dir_def fun_upd_twist flip: hash)
  show "pool_bytes_on_disk (kept_dir L key w xs name d) hash = Inr (length (pool_file L key (pw_header w) xs))"
    using disk(2) by (simp add: pool_bytes_on_disk_def ok_or_def kept_dir_def flip: hash)
qed

text \<open>The turn in which a download that went well is settled.\<close>

lemma fetched_well:
  assumes w: "writer_inv L f w xs" "pw_key w = key" "xs \<noteq> []" "hash = to_hex L (h_blake3 L xs)"
    and tr: "tr = ts_tasks s ! k" "tr_phase tr = Fetching f w"
    and row: "media_pending_name (ts_table s) (tr_mxc tr) = Some (tr_pending_name tr)"
      "find_media (ts_table s) (tr_mxc tr) = Some entry" "is_same_matrix_file entry (tr_description tr)"
    and disk: "pd_pending (ts_dir s) (tr_pending_name tr) \<noteq> None" "path_of hash = Inr q" "pd_complete (ts_dir s) hash = None"
  obtains s2 where "happen L key (Fetched now (Inr verified) k) s = conclude L key k (Ended_Complete hash) s2"
    "ts_tasks s2 = ts_tasks s" "ts_dir s2 = kept_dir L key w xs (tr_pending_name tr) (ts_dir s)"
    "ts_table s2 = media_finish (ts_table s) now (tr_mxc tr) hash (of_nat (fin_segments (finished_of L (pw_header w) xs)))
       (of_nat (length xs)) (of_nat (length (pool_file L key (pw_header w) xs))) verified"
proof -
  note done_file = finish_and_adopt [OF w disk]
  let ?fin = "finished_of L (pw_header w) xs"
  have fin: "fin_hash_hex ?fin = hash" "fin_plain_len ?fin = length xs" by (simp_all add: finished_of_def w(4))
  define s1 where "s1 = (if ma_kind (tr_attachment tr) = MatrixEncrypted then push_state tr Verifying (tr_total tr) None None s else s)"
  have s1: "ts_table s1 = ts_table s" "ts_dir s1 = ts_dir s" "ts_tasks s1 = ts_tasks s" by (simp_all add: s1_def)
  have ours: "media_pending_name (ts_table s1) (tr_mxc tr) = Some (tr_pending_name tr)
      \<and> (case find_media (ts_table s1) (tr_mxc tr) of Some e \<Rightarrow> is_same_matrix_file e (tr_description tr) | None \<Rightarrow> False)"
    using row by (simp add: s1)
  have "\<exists>s2. happen L key (Fetched now (Inr verified) k) s = conclude L key k (Ended_Complete hash) s2
      \<and> ts_tasks s2 = ts_tasks s \<and> ts_dir s2 = kept_dir L key w xs (tr_pending_name tr) (ts_dir s)
      \<and> ts_table s2 = media_finish (ts_table s) now (tr_mxc tr) hash (of_nat (fin_segments ?fin))
       (of_nat (length xs)) (of_nat (length (pool_file L key (pw_header w) xs))) verified"
    unfolding happen.simps fetch_ends_def Let_def tr(1) [symmetric] tr(2) transfer_phase.case sum.case s1_def [symmetric]
    using ours done_file fin s1 by (intro exI conjI, simp only: simp_thms if_False sum.case prod.case) simp_all
  then show thesis using that by blast
qed

text \<open>The turn in which a task ends well.\<close>

lemma conclude_complete:
  "conclude L key k (Ended_Complete hash) s = set_task k
      ((ts_tasks s ! k)\<lparr>tr_phase := Over, tr_inbox := [], tr_reads := [], tr_waiters := []\<rparr>)
      (tell_all (map (\<lambda>p. Told_End p (Inr ())) (tr_waiters (ts_tasks s ! k) @ drained_waiters (tr_inbox (ts_tasks s ! k))))
        (tell_all (map (\<lambda>(position, p). Told_Piece p position (read_from_pool L key (ts_dir s) hash position))
            (tr_reads (ts_tasks s ! k) @ drained_reads (tr_inbox (ts_tasks s ! k))))
          (s\<lparr>ts_files := (ts_files s)(tr_mxc (ts_tasks s ! k) := None)\<rparr>)))"
  by (simp add: conclude_def Let_def settle_def end_result_def)


section \<open>At concrete inputs\<close>

definition demo_attachment :: matrix_attachment where
  "demo_attachment = \<lparr>ma_mxc = ''mxc://s/1'', ma_kind = MatrixPlain, ma_name = None, ma_mimetype = None,
     ma_size = Some 6, ma_file_sha256 = None\<rparr>"

definition empty_pool :: pool_dir where
  "empty_pool = \<lparr>pd_complete = Map.empty, pd_pending = Map.empty, pd_seek = Map.empty, pd_open_readers = (\<lambda>_. 0)\<rparr>"

definition demo_ask :: "nat option \<Rightarrow> nat transfer_event" where
  "demo_ask p = Join ''a'' ''@a'' demo_attachment (''m12'', 1, MatrixPlain) p"

text \<open>Somebody asks and waits, the task begins, and somebody asks for bytes.\<close>

definition demo_start :: "nat transfer_event list" where
  "demo_start = [demo_ask (Some 1), Begin_Task (Inr (replicate 16 3)) 0, Get 0 0 2]"

definition demo_transfer_header :: header where
  "demo_transfer_header = pool_header demo_pool (replicate 16 3) (as_bytes ''mxc://s/1'')"

definition demo_task :: "nat command list \<Rightarrow> transfer_phase \<Rightarrow> nat transfer" where
  "demo_task inbox ph = \<lparr>tr_account = ''a'', tr_mxc = ''mxc://s/1'', tr_attachment = demo_attachment,
     tr_pending_name = ''m12'', tr_user = ''@a'', tr_total = 1, tr_listeners = {''@a''}, tr_inbox = inbox, tr_reads = [],
     tr_waiters = [], tr_phase = ph\<rparr>"

definition demo_begun :: "nat transfers" where
  "demo_begun = after demo_pool [1] [demo_row] empty_pool demo_start"

lemma demo_begun:
  "ts_tasks demo_begun = [demo_task [Wait_End 1, Get_Piece 0 2]
     (Fetching (encode_header demo_transfer_header) (writer_new [1] demo_transfer_header ''m12''))]"
  "ts_files demo_begun = [''mxc://s/1'' \<mapsto> 0]" "ts_table demo_begun = [demo_row]" "ts_told demo_begun = []"
  "ts_dir demo_begun = empty_pool\<lparr>pd_pending := [''m12'' \<mapsto> encode_header demo_transfer_header]\<rparr>"
  "transfers.path demo_pool [1] demo_start (no_transfers [demo_row] empty_pool)"
proof -
  have found: "find_media [demo_row] ''mxc://s/1'' = Some demo_row" by (simp add: find_media_def demo_row_def)
  have same: "is_same_matrix_file demo_row (of_matrix_attachment demo_attachment)"
    by (simp add: is_same_matrix_file_def is_same_matrix_description_def matrix_hash_def of_matrix_attachment_def demo_attachment_def demo_row_def)
  have "me_pool_file demo_row = None" by (simp add: demo_row_def)
  then have "ts_tasks demo_begun = [demo_task [Wait_End 1, Get_Piece 0 2]
       (Fetching (encode_header demo_transfer_header) (writer_new [1] demo_transfer_header ''m12''))]
     \<and> ts_files demo_begun = [''mxc://s/1'' \<mapsto> 0] \<and> ts_table demo_begun = [demo_row] \<and> ts_told demo_begun = []
     \<and> ts_dir demo_begun = empty_pool\<lparr>pd_pending := [''m12'' \<mapsto> encode_header demo_transfer_header]\<rparr>
     \<and> transfers.path demo_pool [1] demo_start (no_transfers [demo_row] empty_pool)"
    using found same
    by (simp add: demo_begun_def after_def demo_start_def demo_ask_def join_or_start_def no_transfers_def Let_def begin_download_def
        set_task_def tr_description_def demo_attachment_def create_pending_def pool_header_def demo_transfer_header_def demo_task_def
        transfer_read_at_def send_command_def push_state_def media_event_of_def empty_pool_def discard_pending_def possible_def)
  then show "ts_tasks demo_begun = [demo_task [Wait_End 1, Get_Piece 0 2]
     (Fetching (encode_header demo_transfer_header) (writer_new [1] demo_transfer_header ''m12''))]"
  "ts_files demo_begun = [''mxc://s/1'' \<mapsto> 0]" "ts_table demo_begun = [demo_row]" "ts_told demo_begun = []"
  "ts_dir demo_begun = empty_pool\<lparr>pd_pending := [''m12'' \<mapsto> encode_header demo_transfer_header]\<rparr>"
  "transfers.path demo_pool [1] demo_start (no_transfers [demo_row] empty_pool)" by blast+
qed

theorem every_asker_is_told_once_witness:
  "waiting_all demo_begun + told_all demo_begun + transfers.all_taken demo_pool [1] demo_start (no_transfers [demo_row] empty_pool)
     = {#1, 2#}"
  using every_asker_is_told_once [OF demo_begun(6)] unfolding Let_def demo_begun_def [symmetric]
  by (simp add: demo_start_def demo_ask_def asks_by_def)

theorem one_transfer_per_file_witness: "list_pending_names demo_begun = {''m12''}"
proof -
  have "{i. i < length (ts_tasks demo_begun) \<and> tr_phase (ts_tasks demo_begun ! i) \<noteq> Over} = {0}"
    by (auto simp: demo_begun(1) demo_task_def)
  then show ?thesis
    using one_transfer_per_file [OF demo_begun(6)] unfolding Let_def demo_begun_def [symmetric]
    by (simp add: demo_begun(1) demo_task_def)
qed

lemma full_draws_start: "full_draws (demo_start @ es) \<longleftrightarrow> full_draws es"
  by (auto simp: full_draws_def demo_start_def demo_ask_def POOL_NONCE_BASE_LEN_def)

lemma after_start: "after demo_pool [1] [demo_row] empty_pool (demo_start @ es) = fold (happen demo_pool [1]) es demo_begun"
  by (simp add: demo_begun_def after_def)

lemma path_start:
  "transfers.path demo_pool [1] (demo_start @ es) (no_transfers [demo_row] empty_pool) \<longleftrightarrow> transfers.path demo_pool [1] es demo_begun"
proof (induction es rule: rev_induct)
  case Nil
  show ?case using demo_begun(6) by simp
next
  case (snoc e es)
  have "fold (happen demo_pool [1]) (demo_start @ es) (no_transfers [demo_row] empty_pool) = fold (happen demo_pool [1]) es demo_begun"
    using after_start [of es] by (simp only: after_def)
  then show ?case using snoc unfolding append_assoc [symmetric] path_snoc by simp
qed

lemma demo_writer: "writer_inv demo_pool (encode_header demo_transfer_header) (writer_new [1] demo_transfer_header ''m12'') []"
  unfolding demo_transfer_header_def
  by (rule writer_new_inv [OF demo_pool_ok wf_pool_header]) (simp add: POOL_NONCE_BASE_LEN_def)

lemma demo_written:
  obtains f w where "writer_write demo_pool (encode_header demo_transfer_header) (writer_new [1] demo_transfer_header ''m12'') ds = Some (Inr (f, w))"
    "writer_inv demo_pool f w ds" "writer_segment_size w = 65536"
proof -
  obtain f w where w: "writer_write demo_pool (encode_header demo_transfer_header) (writer_new [1] demo_transfer_header ''m12'') ds = Some (Inr (f, w))"
    "writer_inv demo_pool f w ([] @ ds)" "same_pool (writer_new [1] demo_transfer_header ''m12'') w"
    by (rule writer_write_inv [OF demo_writer, of ds]) (simp add: writer_new_def)
  have "writer_segment_size w = 65536"
    using w(3) by (simp add: same_pool_def writer_segment_size_def writer_new_def demo_transfer_header_def pool_header_def SEGMENT_SIZE_def)
  with w that show thesis by simp
qed

text \<open>One byte more than a segment arrives, and the GET is told the first segment.\<close>

theorem gets_are_told_what_was_fetched_witness:
  "\<exists>sp. ts_told (after demo_pool [1] [demo_row] empty_pool (demo_start @ [Take 0, Take 0, Piece (replicate 65537 7) False 0]))
       = [Told_Piece 2 0 (Inr sp)]
     \<and> sp_start sp = 0 \<and> sp_plain sp \<noteq> [] \<and> length (sp_plain sp) \<le> 64 * 1024 \<and> set (sp_plain sp) \<subseteq> {7}"
proof -
  let ?piece = "replicate 65537 7 :: bytes" and ?w = "writer_new [1] demo_transfer_header ''m12''" and ?f = "encode_header demo_transfer_header"
  define es where "es = demo_start @ [Take 0, Take 0 :: nat transfer_event]"
  define s where "s = after demo_pool [1] [demo_row] empty_pool es"
  have sealed0: "sealed_plain_len ?w = 0" by (simp add: sealed_plain_len_def writer_new_def)
  have s: "ts_tasks s = [(demo_task [] (Fetching ?f ?w))\<lparr>tr_reads := [(0, 2)], tr_waiters := [1]\<rparr>]" "ts_told s = []"
    by (simp_all add: s_def es_def after_start take_command_def Let_def demo_begun demo_task_def answer_reads_def sealed0)
  obtain f w where w: "writer_write demo_pool ?f ?w ?piece = Some (Inr (f, w))" "writer_inv demo_pool f w ?piece"
    and size_w: "writer_segment_size w = 65536"
    by (rule demo_written)
  have "0 < sealed_plain_len w"
  proof (rule ccontr)
    assume "\<not> 0 < sealed_plain_len w"
    then have "pw_segments_written w = 0" by (simp add: sealed_plain_len_def size_w)
    then have "length (pw_buffer w) = 65537" using w(2) by (simp add: writer_inv_def writer_holds_def)
    then show False using w(2) by (simp add: writer_inv_def size_w)
  qed
  then have ready: "answer_ready demo_pool f w [(0, 2 :: nat)] = ([Told_Piece 2 0 (Inr \<lparr>sp_start = 0,
      sp_plain = cut_out ?piece 0 (min (sealed_plain_len w) (0 + GET_PIECE))\<rparr>)], None)"
    using answer_ready_all [OF w(2), of "[(0, 2 :: nat)]"] by simp
  have s_fold: "fold (happen demo_pool [1]) es (no_transfers [demo_row] empty_pool) = s" by (simp only: s_def after_def)
  have told: "ts_told (after demo_pool [1] [demo_row] empty_pool (es @ [Piece ?piece False 0]))
      = [Told_Piece 2 0 (Inr \<lparr>sp_start = 0, sp_plain = cut_out ?piece 0 (min (sealed_plain_len w) (0 + GET_PIECE))\<rparr>)]"
    using \<open>0 < sealed_plain_len w\<close> ready unfolding after_def fold_append o_apply s_fold
    by (simp add: piece_arrives_def Let_def s demo_task_def w(1) answer_reads_def del: answer_ready.simps)
  have path: "transfers.path demo_pool [1] (es @ [Piece ?piece False 0]) (no_transfers [demo_row] empty_pool)"
    unfolding path_snoc s_fold unfolding es_def path_start
    by (simp add: possible_def take_command_def Let_def demo_begun s demo_task_def)
  have draws: "full_draws (es @ [Piece ?piece False 0])" by (simp add: es_def full_draws_start) (simp add: full_draws_def)
  let ?sp = "\<lparr>sp_start = 0, sp_plain = cut_out ?piece 0 (min (sealed_plain_len w) (0 + GET_PIECE))\<rparr>"
  have "Told_Piece 2 0 (Inr ?sp) \<in> set (drop (length (ts_told (after demo_pool [1] [demo_row] empty_pool es)))
      (ts_told (after demo_pool [1] [demo_row] empty_pool (es @ [Piece ?piece False 0]))))"
    unfolding told s_def [symmetric] s(2) by simp
  from gets_are_told_what_was_fetched [OF demo_pool_ok path draws disjI1 [OF refl] this]
  have "sp_start ?sp = 0 \<and> sp_plain ?sp \<noteq> [] \<and> length (sp_plain ?sp) \<le> 64 * 1024 \<and> set (sp_plain ?sp) \<subseteq> {7}"
    using set_take_subset [of "sealed_plain_len w" ?piece] by (auto simp: cut_out_def)
  then show ?thesis using told by (auto simp: es_def)
qed


end
